(* ===== verification/GoStrings.thy ===== *)
theory GoStrings
  imports Prelude
begin

text \<open>
  The functions of Go's package \<open>strings\<close> that the program calls, on byte strings: a
  Go string is a sequence of bytes, and so is an Isabelle \<open>string\<close>.  An index of -1 is
  \<open>None\<close>.  Case folding is the ASCII one; bytes from 128 on are left as they are (the
  program folds host names, protocol names and rule keywords).
\<close>

definition hasPrefix :: "string \<Rightarrow> string \<Rightarrow> bool" where
  "hasPrefix s p = (take (length p) s = p)"

definition hasSuffix :: "string \<Rightarrow> string \<Rightarrow> bool" where
  "hasSuffix s p = (length p \<le> length s \<and> drop (length s - length p) s = p)"

definition trimPrefix :: "string \<Rightarrow> string \<Rightarrow> string" where
  "trimPrefix s p = (if hasPrefix s p then drop (length p) s else s)"

definition trimSuffix :: "string \<Rightarrow> string \<Rightarrow> string" where
  "trimSuffix s p = (if hasSuffix s p then take (length s - length p) s else s)"

definition lowerChar :: "char \<Rightarrow> char" where
  "lowerChar c = (let n = (of_char c :: nat) in if 65 \<le> n \<and> n \<le> 90 then char_of (n + 32) else c)"

definition upperChar :: "char \<Rightarrow> char" where
  "upperChar c = (let n = (of_char c :: nat) in if 97 \<le> n \<and> n \<le> 122 then char_of (n - 32) else c)"

definition toLower :: "string \<Rightarrow> string" where
  "toLower = map lowerChar"

definition toUpper :: "string \<Rightarrow> string" where
  "toUpper = map upperChar"

fun indexByte :: "string \<Rightarrow> char \<Rightarrow> nat option" where
  "indexByte [] c = None"
| "indexByte (x # xs) c = (if x = c then Some 0 else map_option Suc (indexByte xs c))"

fun index_of :: "string \<Rightarrow> string \<Rightarrow> nat option" where
  "index_of [] p = (if p = [] then Some 0 else None)"
| "index_of (x # xs) p =
    (if hasPrefix (x # xs) p then Some 0 else map_option Suc (index_of xs p))"

definition contains :: "string \<Rightarrow> string \<Rightarrow> bool" where
  "contains s p = (index_of s p \<noteq> None)"

definition lastIndexByte :: "string \<Rightarrow> char \<Rightarrow> nat option" where
  "lastIndexByte s c = map_option (\<lambda>i. length s - 1 - i) (indexByte (rev s) c)"

definition isSpace :: "char \<Rightarrow> bool" where
  "isSpace c = (let n = (of_char c :: nat) in n = 32 \<or> (9 \<le> n \<and> n \<le> 13))"

definition trimSpace :: "string \<Rightarrow> string" where
  "trimSpace s = rev (dropWhile isSpace (rev (dropWhile isSpace s)))"

text \<open>\<open>strings.Cut\<close>-like splitting at the first separator byte, and \<open>strings.Split\<close>.\<close>

fun splitByte :: "string \<Rightarrow> char \<Rightarrow> string list" where
  "splitByte [] c = [[]]"
| "splitByte (x # xs) c =
    (if x = c then [] # splitByte xs c
     else case splitByte xs c of [] \<Rightarrow> [[x]] | f # fs \<Rightarrow> (x # f) # fs)"

fun splitNByte :: "nat \<Rightarrow> string \<Rightarrow> char \<Rightarrow> string list" where
  "splitNByte 0 s c = []"
| "splitNByte (Suc 0) s c = [s]"
| "splitNByte (Suc (Suc n)) s c =
    (case indexByte s c of
       None \<Rightarrow> [s]
     | Some i \<Rightarrow> take i s # splitNByte (Suc n) (drop (Suc i) s) c)"

section \<open>Laws\<close>

lemma hasPrefix_iff [go_simps]: "hasPrefix s p \<longleftrightarrow> (\<exists>t. s = p @ t)"
  by (metis append_eq_conv_conj append_take_drop_id hasPrefix_def)

lemma hasSuffix_iff [go_simps]: "hasSuffix s p \<longleftrightarrow> (\<exists>t. s = t @ p)"
proof
  assume "hasSuffix s p"
  then have "s = take (length s - length p) s @ p"
    by (metis append_take_drop_id hasSuffix_def)
  then show "\<exists>t. s = t @ p" ..
qed (auto simp: hasSuffix_def)

lemma trimSuffix_append [simp]: "trimSuffix (s @ p) p = s"
  by (simp add: trimSuffix_def hasSuffix_def)

lemma trimSuffix_id: "\<not> hasSuffix s p \<Longrightarrow> trimSuffix s p = s"
  by (simp add: trimSuffix_def)

lemma contains_iff: "contains s p \<longleftrightarrow> (\<exists>a b. s = a @ p @ b)"
proof (induction s)
  case Nil
  then show ?case by (simp add: contains_def)
next
  case (Cons x xs)
  have "contains (x # xs) p \<longleftrightarrow> hasPrefix (x # xs) p \<or> contains xs p"
    by (simp add: contains_def)
  then show ?case
    unfolding Cons.IH hasPrefix_iff by (metis append_Cons append_Nil list.exhaust list.inject)
qed

lemma indexByte_SomeD: "indexByte s c = Some i \<Longrightarrow> i < length s \<and> s ! i = c \<and> c \<notin> set (take i s)"
proof (induction s arbitrary: i)
  case (Cons x xs)
  then show ?case by (cases i) (auto split: if_splits)
qed simp

lemma indexByte_None_iff: "indexByte s c = None \<longleftrightarrow> c \<notin> set s"
  by (induction s) auto

lemma indexByte_append: "c \<notin> set a \<Longrightarrow> indexByte (a @ c # b) c = Some (length a)"
  by (induction a) auto

lemma lowerChar_idem [simp]: "lowerChar (lowerChar c) = lowerChar c"
  by (auto simp: lowerChar_def Let_def)

lemma toLower_idem [simp]: "toLower (toLower s) = toLower s"
  by (induction s) (simp_all add: toLower_def)

lemma toLower_append [simp]: "toLower (s @ t) = toLower s @ toLower t"
  by (simp add: toLower_def)

lemma length_toLower [simp]: "length (toLower s) = length s"
  by (simp add: toLower_def)

lemma toLower_eq_Nil [simp]: "toLower s = [] \<longleftrightarrow> s = []"
  by (simp add: toLower_def)

lemma lowerChar_dot: "lowerChar c = CHR ''.'' \<longleftrightarrow> c = CHR ''.''"
proof
  assume "lowerChar c = CHR ''.''"
  then have eq: "(of_char (lowerChar c) :: nat) = of_char (CHR ''.'')" by simp
  have "(of_char (CHR ''.'') :: nat) = 46" by code_simp
  with eq have "(of_char c :: nat) = 46"
    by (auto simp: lowerChar_def Let_def split: if_splits)
  then show "c = CHR ''.''"
    using \<open>(of_char (CHR ''.'') :: nat) = 46\<close> by (metis of_char_eq_iff)
next
  have "lowerChar (CHR ''.'') = CHR ''.''" by code_simp
  then show "c = CHR ''.'' \<Longrightarrow> lowerChar c = CHR ''.''" by simp
qed

section \<open>The label chain of a host name\<close>

text \<open>
  The loop that every domain matcher of the program runs: the host itself, then the part
  after its first dot, and so on while the remainder is not empty.  It is the loop of
  \<open>rule.dimsBest\<close>, \<open>ruleset.domainSet.MatchDomain\<close>, \<open>geo.domainSet\<close> and
  \<open>dns.domainMatcher\<close>.
\<close>

function labelChain :: "string \<Rightarrow> string list" where
  "labelChain s =
    (if s = [] then []
     else s # (case indexByte s (CHR ''.'') of None \<Rightarrow> [] | Some i \<Rightarrow> labelChain (drop (Suc i) s)))"
  by pat_completeness auto
termination
  by (relation "measure length") auto

declare labelChain.simps [simp del]

lemma labelChain_Nil [simp]: "labelChain [] = []"
  by (subst labelChain.simps) simp

lemma labelChain_suffix: "s \<in> set (labelChain h) \<Longrightarrow> s \<noteq> [] \<and> (s = h \<or> hasSuffix h (CHR ''.'' # s))"
proof (induction h rule: labelChain.induct)
  case (1 h)
  show ?case
  proof (cases "h = [] \<or> s = h")
    case True
    with 1 show ?thesis by auto
  next
    case False
    with 1(2) obtain i where i: "indexByte h (CHR ''.'') = Some i" "s \<in> set (labelChain (drop (Suc i) h))"
      by (cases "indexByte h (CHR ''.'')") (auto simp: labelChain.simps [of h])
    from 1(1) [OF _ i] False have IH: "s \<noteq> []" "s = drop (Suc i) h \<or> hasSuffix (drop (Suc i) h) (CHR ''.'' # s)"
      by auto
    have h: "h = take i h @ CHR ''.'' # drop (Suc i) h"
      using indexByte_SomeD [OF i(1)] id_take_nth_drop [of i h] by simp
    have "hasSuffix h (CHR ''.'' # s)"
      using IH(2) unfolding hasSuffix_iff by (metis append.assoc append_Cons h)
    with IH(1) show ?thesis by simp
  qed
qed

lemma labelChain_complete: "s \<noteq> [] \<Longrightarrow> labelChain (t @ CHR ''.'' # s) \<noteq> [] \<and> s \<in> set (labelChain (t @ CHR ''.'' # s))"
proof (induction "length t" arbitrary: t rule: less_induct)
  case less
  show ?case
  proof (cases "CHR ''.'' \<in> set t")
    case False
    then have "indexByte (t @ CHR ''.'' # s) (CHR ''.'') = Some (length t)" by (rule indexByte_append)
    with less.prems show ?thesis
      by (subst (1 2) labelChain.simps) (simp add: labelChain.simps [of s])
  next
    case True
    then obtain a b where ab: "t = a @ CHR ''.'' # b" "CHR ''.'' \<notin> set a" by (meson split_list_first)
    then have ix: "indexByte (t @ CHR ''.'' # s) (CHR ''.'') = Some (length a)"
      by (simp add: indexByte_append)
    have "s \<in> set (labelChain (b @ CHR ''.'' # s))"
      using less.hyps [of b] less.prems ab(1) by simp
    with ix ab(1) show ?thesis
      by (subst (1 2) labelChain.simps) simp
  qed
qed

lemma labelChain_iff:
  "s \<in> set (labelChain h) \<longleftrightarrow> s \<noteq> [] \<and> (s = h \<or> hasSuffix h (CHR ''.'' # s))"
proof (cases "s = [] \<or> s = h")
  case True
  then show ?thesis
    using labelChain_suffix by (cases "h = []") (auto simp: labelChain.simps [of h])
next
  case False
  then show ?thesis
    using labelChain_suffix labelChain_complete by (auto simp: hasSuffix_iff)
qed

end
