(* ===== verification/GoNet.thy ===== *)
theory GoNet
  imports GoStrings "HOL-Library.List_Lexorder" "HOL-Library.Char_ord"
begin

text \<open>
  Addresses: the part of Go's package \<open>net/netip\<close> the program uses (addresses, prefixes,
  address-port pairs, their parsers and their order), and the program's own
  \<open>addr.Socksaddr\<close>.
\<close>

section \<open>netip.Addr\<close>

datatype Addr = AddrZero | Addr4 u32 | Addr6 u128 string

definition addr_IsValid :: "Addr \<Rightarrow> bool" where
  "addr_IsValid a = (a \<noteq> AddrZero)"

fun BitLen :: "Addr \<Rightarrow> nat" where
  "BitLen AddrZero = 0"
| "BitLen (Addr4 w) = 32"
| "BitLen (Addr6 w z) = 128"

fun Is4 :: "Addr \<Rightarrow> bool" where
  "Is4 (Addr4 w) = True"
| "Is4 a = False"

fun Is6 :: "Addr \<Rightarrow> bool" where
  "Is6 (Addr6 w z) = True"
| "Is6 a = False"

fun Is4In6 :: "Addr \<Rightarrow> bool" where
  "Is4In6 (Addr6 w z) = (drop_bit 32 w = 0xffff)"
| "Is4In6 a = False"

fun hasZone :: "Addr \<Rightarrow> bool" where
  "hasZone (Addr6 w z) = (z \<noteq> [])"
| "hasZone a = False"

fun Unmap :: "Addr \<Rightarrow> Addr" where
  "Unmap (Addr6 w z) = (if drop_bit 32 w = 0xffff then Addr4 (ucast w) else Addr6 w z)"
| "Unmap a = a"

fun withoutZone :: "Addr \<Rightarrow> Addr" where
  "withoutZone (Addr6 w z) = Addr6 w []"
| "withoutZone a = a"

fun addr_Next :: "Addr \<Rightarrow> Addr" where
  "addr_Next AddrZero = AddrZero"
| "addr_Next (Addr4 w) = (if w + 1 = 0 then AddrZero else Addr4 (w + 1))"
| "addr_Next (Addr6 w z) = (if w + 1 = 0 then AddrZero else Addr6 (w + 1) z)"

text \<open>The order of \<open>Addr.Compare\<close>: bit length, then value, then zone.\<close>

instantiation Addr :: linorder
begin

fun less_eq_Addr :: "Addr \<Rightarrow> Addr \<Rightarrow> bool" where
  "less_eq_Addr (Addr4 v) (Addr4 w) = (v \<le> w)"
| "less_eq_Addr (Addr6 v y) (Addr6 w z) = (v < w \<or> (v = w \<and> y \<le> z))"
| "less_eq_Addr a b = (BitLen a \<le> BitLen b)"

definition less_Addr :: "Addr \<Rightarrow> Addr \<Rightarrow> bool" where
  "less_Addr a b = (a \<le> b \<and> \<not> b \<le> a)"

instance
proof
  fix x y z :: Addr
  show "x < y \<longleftrightarrow> x \<le> y \<and> \<not> y \<le> x" by (rule less_Addr_def)
  show "x \<le> x" by (cases x) auto
  show "x \<le> y \<Longrightarrow> y \<le> z \<Longrightarrow> x \<le> z" by (cases x; cases y; cases z) auto
  show "x \<le> y \<Longrightarrow> y \<le> x \<Longrightarrow> x = y" by (cases x; cases y) auto
  show "x \<le> y \<or> y \<le> x" by (cases x; cases y) auto
qed

end

section \<open>netip.Prefix and netip.AddrPort\<close>

text \<open>\<open>pfx_bits\<close> is -1 in an invalid prefix, as \<open>Prefix.Bits\<close> reports it.\<close>

record Prefix =
  pfx_ip :: Addr
  pfx_bits :: int

record AddrPort =
  ap_addr :: Addr
  ap_port :: u16

definition ap_IsValid :: "AddrPort \<Rightarrow> bool" where
  "ap_IsValid p = addr_IsValid (ap_addr p)"

definition pfx_IsValid :: "Prefix \<Rightarrow> bool" where
  "pfx_IsValid p = (0 \<le> pfx_bits p)"

definition PrefixFrom :: "Addr \<Rightarrow> int \<Rightarrow> Prefix" where
  "PrefixFrom ip bits =
    \<lparr> pfx_ip = withoutZone ip,
      pfx_bits = (if addr_IsValid ip \<and> 0 \<le> bits \<and> bits \<le> int (BitLen ip) then bits else -1) \<rparr>"

definition pfx_Masked :: "Prefix \<Rightarrow> Prefix" where
  "pfx_Masked p =
    (if pfx_IsValid p then
       (case pfx_ip p of
          AddrZero \<Rightarrow> p
        | Addr4 w \<Rightarrow> (let k = nat (32 - pfx_bits p) in p\<lparr>pfx_ip := Addr4 (push_bit k (drop_bit k w))\<rparr>)
        | Addr6 w z \<Rightarrow> (let k = nat (128 - pfx_bits p) in p\<lparr>pfx_ip := Addr6 (push_bit k (drop_bit k w)) []\<rparr>))
     else \<lparr> pfx_ip = AddrZero, pfx_bits = -1 \<rparr>)"

definition pfx_Contains :: "Prefix \<Rightarrow> Addr \<Rightarrow> bool" where
  "pfx_Contains p ip =
    (if \<not> pfx_IsValid p \<or> hasZone ip then False
     else case (pfx_ip p, ip) of
       (Addr4 v, Addr4 w) \<Rightarrow> drop_bit (nat (32 - pfx_bits p)) (v XOR w) = 0
     | (Addr6 v y, Addr6 w z) \<Rightarrow> drop_bit (nat (128 - pfx_bits p)) (v XOR w) = 0
     | _ \<Rightarrow> False)"

lemma drop_push_drop_bit [simp]:
  fixes v :: "'a::len word"
  shows "drop_bit k (push_bit k (drop_bit k v)) = drop_bit k v"
  by (rule bit_word_eqI) (auto simp: bit_simps dest: bit_imp_le_length)

lemma pfx_Contains_Masked [simp]: "pfx_Contains (pfx_Masked p) ip = pfx_Contains p ip"
  by (cases "pfx_ip p"; cases ip)
    (simp_all add: pfx_Contains_def pfx_Masked_def pfx_IsValid_def Let_def)

section \<open>Parsing addresses and prefixes\<close>

definition digitVal :: "char \<Rightarrow> nat option" where
  "digitVal c = (let n = (of_char c :: nat) in if 48 \<le> n \<and> n \<le> 57 then Some (n - 48) else None)"

definition hexVal :: "char \<Rightarrow> nat option" where
  "hexVal c = (let n = (of_char c :: nat) in
     if 48 \<le> n \<and> n \<le> 57 then Some (n - 48)
     else if 97 \<le> n \<and> n \<le> 102 then Some (n - 87)
     else if 65 \<le> n \<and> n \<le> 70 then Some (n - 55)
     else None)"

text \<open>\<open>strconv.Atoi\<close> on an unsigned decimal; a sign is handled by the caller.\<close>

fun decVal :: "nat \<Rightarrow> string \<Rightarrow> nat option" where
  "decVal acc [] = Some acc"
| "decVal acc (c # cs) = (case digitVal c of None \<Rightarrow> None | Some d \<Rightarrow> decVal (10 * acc + d) cs)"

definition parseOctet :: "string \<Rightarrow> u8 option" where
  "parseOctet f =
    (if f = [] \<or> (1 < length f \<and> hd f = CHR ''0'') then None
     else case decVal 0 f of None \<Rightarrow> None | Some n \<Rightarrow> if n > 255 then None else Some (word_of_nat n))"

definition parseIPv4Fields :: "string \<Rightarrow> u32 option" where
  "parseIPv4Fields s =
    (case map parseOctet (splitByte s (CHR ''.'')) of
       [Some a, Some b, Some c, Some d] \<Rightarrow> Some (get32 a b c d)
     | _ \<Rightarrow> None)"

text \<open>The hexadecimal prefix of a string: at most four digits, then the rest.\<close>

fun hexRun :: "nat \<Rightarrow> nat \<Rightarrow> string \<Rightarrow> (nat \<times> nat \<times> string) option" where
  "hexRun n acc [] = Some (n, acc, [])"
| "hexRun n acc (c # cs) =
    (case hexVal c of
       None \<Rightarrow> Some (n, acc, c # cs)
     | Some d \<Rightarrow> if n > 3 then None else hexRun (Suc n) (16 * acc + d) cs)"

text \<open>
  The group loop of \<open>parseIPv6\<close>: \<open>k\<close> groups of sixteen bits may still follow, \<open>gs\<close> are the
  groups read so far, \<open>ell\<close> is the position of the ellipsis in groups.
\<close>

fun ipv6Loop :: "nat \<Rightarrow> nat list \<Rightarrow> nat option \<Rightarrow> string \<Rightarrow> (nat list \<times> nat option \<times> string) option" where
  "ipv6Loop 0 gs ell s = Some (gs, ell, s)"
| "ipv6Loop (Suc k) gs ell s =
    (case hexRun 0 0 s of
       None \<Rightarrow> None
     | Some (n, acc, r) \<Rightarrow>
         if n = 0 then None
         else if r \<noteq> [] \<and> hd r = CHR ''.'' then
           (if ell = None \<and> length gs \<noteq> 6 \<or> length gs > 6 then None
            else case parseIPv4Fields s of
              None \<Rightarrow> None
            | Some w \<Rightarrow> Some (gs @ [unat (drop_bit 16 w), unat (w AND 0xffff)], ell, []))
         else if r = [] then Some (gs @ [acc], ell, [])
         else if hd r \<noteq> CHR '':'' \<or> tl r = [] then None
         else if hd (tl r) = CHR '':'' then
           (if ell \<noteq> None then None
            else if tl (tl r) = [] then Some (gs @ [acc], Some (length gs + 1), [])
            else ipv6Loop k (gs @ [acc]) (Some (length gs + 1)) (tl (tl r)))
         else ipv6Loop k (gs @ [acc]) ell (tl r))"

definition joinGroups :: "nat list \<Rightarrow> u128" where
  "joinGroups gs = foldl (\<lambda>w g. push_bit 16 w OR word_of_nat g) 0 gs"

definition expandGroups :: "nat list \<Rightarrow> nat option \<Rightarrow> nat list option" where
  "expandGroups gs ell =
    (if length gs < 8 then
       (case ell of None \<Rightarrow> None
        | Some e \<Rightarrow> Some (take e gs @ replicate (8 - length gs) 0 @ drop e gs))
     else if ell \<noteq> None then None else Some gs)"

definition parseIPv6 :: "string \<Rightarrow> Addr option" where
  "parseIPv6 inp =
    (let (s, zone, bad) = (case indexByte inp (CHR ''%'') of
            None \<Rightarrow> (inp, [], False)
          | Some i \<Rightarrow> (take i inp, drop (Suc i) inp, drop (Suc i) inp = []))
     in if bad then None
        else if hasPrefix s ''::'' \<and> length s = 2 then Some (Addr6 0 zone)
        else
          (let (ell, s') = (if hasPrefix s ''::'' then (Some 0, drop 2 s) else (None, s))
           in case ipv6Loop 8 [] ell s' of
                None \<Rightarrow> None
              | Some (gs, ell', rest) \<Rightarrow>
                  if rest \<noteq> [] then None
                  else (case expandGroups gs ell' of
                          None \<Rightarrow> None
                        | Some gs' \<Rightarrow> Some (Addr6 (joinGroups gs') zone))))"

fun ParseAddr_scan :: "string \<Rightarrow> string \<Rightarrow> Addr option" where
  "ParseAddr_scan s [] = None"
| "ParseAddr_scan s (c # cs) =
    (if c = CHR ''.'' then map_option Addr4 (parseIPv4Fields s)
     else if c = CHR '':'' then parseIPv6 s
     else if c = CHR ''%'' then None
     else ParseAddr_scan s cs)"

definition ParseAddr :: "string \<Rightarrow> Addr option" where
  "ParseAddr s = ParseAddr_scan s s"

definition ParsePrefix :: "string \<Rightarrow> Prefix option" where
  "ParsePrefix s =
    (case lastIndexByte s (CHR ''/'') of
       None \<Rightarrow> None
     | Some i \<Rightarrow>
         (case ParseAddr (take i s) of
            None \<Rightarrow> None
          | Some ip \<Rightarrow>
              let b = drop (Suc i) s in
              if hasZone ip then None
              else if b = [] \<or> (1 < length b \<and> hd b = CHR ''0'') then None
              else (case decVal 0 b of
                      None \<Rightarrow> None
                    | Some n \<Rightarrow> if n > BitLen ip then None else Some (PrefixFrom ip (int n)))))"

lemma parseIPv6_valid: "parseIPv6 s = Some a \<Longrightarrow> a \<noteq> AddrZero"
  by (auto simp: parseIPv6_def Let_def split: option.splits if_splits prod.splits)

lemma ParseAddr_scan_valid: "ParseAddr_scan s cs = Some a \<Longrightarrow> a \<noteq> AddrZero"
  by (induction s cs rule: ParseAddr_scan.induct) (auto dest: parseIPv6_valid split: if_splits)

lemma ParseAddr_valid: "ParseAddr s = Some a \<Longrightarrow> addr_IsValid a"
  by (simp add: ParseAddr_def addr_IsValid_def ParseAddr_scan_valid)

lemma ParsePrefix_valid: "ParsePrefix s = Some p \<Longrightarrow> pfx_IsValid p"
  using ParseAddr_valid
  by (auto simp: ParsePrefix_def PrefixFrom_def pfx_IsValid_def Let_def
      split: option.splits if_splits)

section \<open>addr.Socksaddr\<close>

text \<open>A destination is a domain name or an address, with a port.\<close>

record Socksaddr =
  sa_Addr :: Addr
  sa_Fqdn :: string
  sa_Port :: u16

definition FromIPPort :: "AddrPort \<Rightarrow> Socksaddr" where
  "FromIPPort ap = \<lparr> sa_Addr = ap_addr ap, sa_Fqdn = [], sa_Port = ap_port ap \<rparr>"

definition FromFqdn :: "string \<Rightarrow> u16 \<Rightarrow> Socksaddr" where
  "FromFqdn fqdn port = \<lparr> sa_Addr = AddrZero, sa_Fqdn = fqdn, sa_Port = port \<rparr>"

definition IsFqdn :: "Socksaddr \<Rightarrow> bool" where
  "IsFqdn s = (sa_Fqdn s \<noteq> [])"

definition IsIP :: "Socksaddr \<Rightarrow> bool" where
  "IsIP s = (sa_Fqdn s = [] \<and> addr_IsValid (sa_Addr s))"

definition sa_IsValid :: "Socksaddr \<Rightarrow> bool" where
  "sa_IsValid s = (IsFqdn s \<or> IsIP s)"

lemma IsFqdn_IsIP_exclusive: "\<not> (IsFqdn s \<and> IsIP s)"
  by (simp add: IsFqdn_def IsIP_def)

lemma FromIPPort_IsIP [simp]: "IsIP (FromIPPort ap) = ap_IsValid ap" "\<not> IsFqdn (FromIPPort ap)"
  by (simp_all add: FromIPPort_def IsIP_def IsFqdn_def ap_IsValid_def)

lemma FromFqdn_IsFqdn [simp]: "IsFqdn (FromFqdn d p) = (d \<noteq> [])" "\<not> IsIP (FromFqdn d p)"
  by (simp_all add: FromFqdn_def IsIP_def IsFqdn_def addr_IsValid_def)

end
