(* ===== verification/RuleEngine.thy ===== *)
theory RuleEngine
  imports GoNet
begin

text \<open>
  The routing rule engine, \<open>rule/engine.go\<close>: rules, their compilation into per-dimension
  indexes, and the min-ordinal lookup.  The interfaces \<open>IPSet\<close> and \<open>DomainSet\<close> are
  predicates, \<open>ProcessFinder\<close> is a partial function.  The specification is the naive
  evaluation of the rules in their order; the engine is proved to compute it.
\<close>

section \<open>Rules\<close>

text \<open>The eleven leaf dimensions of the struct \<open>Rule\<close>.\<close>

record RuleDims =
  Domain :: "string list"
  DomainSuffix :: "string list"
  DomainKeyword :: "string list"
  IPCIDR :: "string list"
  RPort :: "u16 list"
  RNetwork :: "string list"
  Protocol :: "string list"
  GeoIP :: "(Addr \<Rightarrow> bool) list"
  GeoSite :: "(string \<Rightarrow> bool) list"
  ProcessName :: "string list"
  ProcessPath :: "string list"

datatype Rule = Rule (dims: RuleDims) (Op: string) (Sub: "Rule list") (RNot: bool) (To: string)

definition noDims :: RuleDims where
  "noDims = \<lparr> Domain = [], DomainSuffix = [], DomainKeyword = [], IPCIDR = [], RPort = [], RNetwork = [],
     Protocol = [], GeoIP = [], GeoSite = [], ProcessName = [], ProcessPath = [] \<rparr>"

definition dimCount :: "RuleDims \<Rightarrow> nat" where
  "dimCount r = length (filter id
     [Domain r \<noteq> [], DomainSuffix r \<noteq> [], DomainKeyword r \<noteq> [],
      IPCIDR r \<noteq> [], RPort r \<noteq> [], RNetwork r \<noteq> [], Protocol r \<noteq> [], GeoIP r \<noteq> [], GeoSite r \<noteq> [],
      ProcessName r \<noteq> [], ProcessPath r \<noteq> []])"

type_synonym ProcessFinder = "string \<Rightarrow> AddrPort \<Rightarrow> (string \<times> string) option"

section \<open>The evaluation context\<close>

record evalCtx =
  c_dst :: Socksaddr
  c_src :: AddrPort
  c_ips :: "Addr list"
  c_network :: string
  c_proto :: string
  c_finder :: "ProcessFinder option"
  c_procDone :: bool
  c_procName :: string
  c_procPath :: string
  c_procOK :: bool

definition newCtx ::
  "Socksaddr \<Rightarrow> Addr list \<Rightarrow> AddrPort \<Rightarrow> string \<Rightarrow> string \<Rightarrow> ProcessFinder option \<Rightarrow> evalCtx" where
  "newCtx dst ips src network proto finder =
    \<lparr> c_dst = dst, c_src = src, c_ips = ips, c_network = network, c_proto = proto, c_finder = finder,
      c_procDone = False, c_procName = [], c_procPath = [], c_procOK = False \<rparr>"

text \<open>\<open>evalCtx.proc\<close>: the reverse lookup of the process, made once and cached.\<close>

definition ctx_proc :: "evalCtx \<Rightarrow> (string \<times> string \<times> bool) \<times> evalCtx" where
  "ctx_proc c =
    (let c' = (if c_procDone c then c
               else let c1 = c\<lparr>c_procDone := True\<rparr> in
                 case c_finder c of
                   None \<Rightarrow> c1
                 | Some f \<Rightarrow>
                     if ap_IsValid (c_src c) then
                       (case f (c_network c) (c_src c) of
                          None \<Rightarrow> c1\<lparr>c_procName := [], c_procPath := [], c_procOK := False\<rparr>
                        | Some (name, path) \<Rightarrow> c1\<lparr>c_procName := name, c_procPath := path, c_procOK := True\<rparr>)
                     else c1)
     in ((c_procName c', c_procPath c', c_procOK c'), c'))"

definition normDomain :: "string \<Rightarrow> string" where
  "normDomain d = toLower (trimSuffix d ''.'')"

definition ipSet :: "Socksaddr \<Rightarrow> Addr list \<Rightarrow> Addr list" where
  "ipSet dst resolved = (if IsIP dst then [Unmap (sa_Addr dst)] else resolved)"

section \<open>Composite rules\<close>

definition suffixHit :: "string \<Rightarrow> string \<Rightarrow> bool" where
  "suffixHit host s = (host = s \<or> hasSuffix host (''.'' @ s))"

definition matchLeaf :: "RuleDims \<Rightarrow> evalCtx \<Rightarrow> bool \<times> evalCtx" where
  "matchLeaf r c =
    (let dst = c_dst c; host = normDomain (sa_Fqdn dst) in
     if IsFqdn dst \<and>
        (list_ex (\<lambda>d. host = normDomain d) (Domain r)
         \<or> list_ex (\<lambda>s. suffixHit host (normDomain (trimPrefix s ''.''))) (DomainSuffix r)
         \<or> list_ex (\<lambda>k. contains host (toLower k)) (DomainKeyword r)
         \<or> list_ex (\<lambda>ds. ds host) (GeoSite r)) then (True, c)
     else if list_ex (\<lambda>ip.
            list_ex (\<lambda>cc. case ParsePrefix cc of None \<Rightarrow> False | Some p \<Rightarrow> pfx_Contains (pfx_Masked p) ip) (IPCIDR r)
            \<or> list_ex (\<lambda>gs. gs ip) (GeoIP r)) (ipSet dst (c_ips c)) then (True, c)
     else if sa_Port dst \<in> set (RPort r) then (True, c)
     else if c_network c \<noteq> [] \<and> c_network c \<in> set (RNetwork r) then (True, c)
     else if c_proto c \<noteq> [] \<and> c_proto c \<in> set (Protocol r) then (True, c)
     else if ProcessName r \<noteq> [] \<or> ProcessPath r \<noteq> [] then
       (case ctx_proc c of
          ((name, path, ok), c') \<Rightarrow> (ok \<and> (name \<in> set (ProcessName r) \<or> path \<in> set (ProcessPath r)), c'))
     else (False, c))"

fun evalAnd :: "(evalCtx \<Rightarrow> bool \<times> evalCtx) list \<Rightarrow> evalCtx \<Rightarrow> bool \<times> evalCtx" where
  "evalAnd [] c = (True, c)"
| "evalAnd (s # ss) c = (case s c of (b, c') \<Rightarrow> if \<not> b then (False, c') else evalAnd ss c')"

fun evalOr :: "(evalCtx \<Rightarrow> bool \<times> evalCtx) list \<Rightarrow> evalCtx \<Rightarrow> bool \<times> evalCtx" where
  "evalOr [] c = (False, c)"
| "evalOr (s # ss) c = (case s c of (b, c') \<Rightarrow> if b then (True, c') else evalOr ss c')"

fun compileEval :: "Rule \<Rightarrow> evalCtx \<Rightarrow> bool \<times> evalCtx" where
  "compileEval (Rule d op sub nt to) =
    (if op = [] then matchLeaf d
     else
       (let subs = map compileEval sub;
            f = (if op = ''and'' then evalAnd subs else evalOr subs)
        in if nt then (\<lambda>c. case f c of (b, c') \<Rightarrow> (\<not> b, c')) else f))"

datatype composite_err = BadOp string | EmptySub | MixedDims | SubHasTo | SubDims nat

fun validateComposite :: "Rule \<Rightarrow> composite_err option" where
  "validateComposite (Rule d op sub nt to) =
    (if op \<noteq> ''and'' \<and> op \<noteq> ''or'' then Some (BadOp op)
     else if sub = [] then Some EmptySub
     else if dimCount d \<noteq> 0 then Some MixedDims
     else foldr (\<lambda>s rest.
            if To s \<noteq> [] then Some SubHasTo
            else if Op s \<noteq> [] then (case validateComposite s of Some e \<Rightarrow> Some e | None \<Rightarrow> rest)
            else if dimCount (dims s) \<noteq> 1 then Some (SubDims (dimCount (dims s)))
            else rest) sub None)"

fun ruleUsesIP :: "Rule \<Rightarrow> bool" where
  "ruleUsesIP (Rule d op sub nt to) =
    (IPCIDR d \<noteq> [] \<or> GeoIP d \<noteq> [] \<or> list_ex ruleUsesIP sub)"

section \<open>The engine\<close>

type_synonym ordmap = "string \<Rightarrow> u32 option"

record Engine =
  e_targets :: "string list"
  e_def :: string
  e_exact :: ordmap
  e_suffix :: ordmap
  e_keyword :: "(string \<times> u32) list"
  e_cidr :: "(Prefix \<times> u32) list"
  e_geoip :: "((Addr \<Rightarrow> bool) \<times> u32) list"
  e_geosite :: "((string \<Rightarrow> bool) \<times> u32) list"
  e_ports :: "u16 \<Rightarrow> u32 option"
  e_netw :: ordmap
  e_protocol :: ordmap
  e_procName :: ordmap
  e_procPath :: ordmap
  e_hasProc :: bool
  e_hasIP :: bool
  e_logical :: "((evalCtx \<Rightarrow> bool \<times> evalCtx) \<times> u32) list"
  e_hasLogical :: bool

definition ordNone :: u32 where
  "ordNone = 0xffffffff"

definition putMin :: "('k \<Rightarrow> u32 option) \<Rightarrow> 'k \<Rightarrow> u32 \<Rightarrow> ('k \<Rightarrow> u32 option)" where
  "putMin m k ord =
    (case m k of None \<Rightarrow> m(k \<mapsto> ord) | Some x \<Rightarrow> if ord < x then m(k \<mapsto> ord) else m)"

datatype rule_err =
  EmptyDefault | MissingTo nat | BadComposite nat composite_err | BadDims nat nat
| BadCIDR nat string | BadNetwork nat string

definition addCIDRs :: "nat \<Rightarrow> u32 \<Rightarrow> string list \<Rightarrow> (Prefix \<times> u32) list \<Rightarrow> (rule_err, (Prefix \<times> u32) list) result" where
  "addCIDRs i ord =
    fold_res (\<lambda>c xs. case ParsePrefix c of
        None \<Rightarrow> Inl (BadCIDR i c) | Some p \<Rightarrow> Inr (xs @ [(pfx_Masked p, ord)]))"

definition addNetworks :: "nat \<Rightarrow> u32 \<Rightarrow> string list \<Rightarrow> ordmap \<Rightarrow> (rule_err, ordmap) result" where
  "addNetworks i ord =
    fold_res (\<lambda>nw m. if nw \<noteq> ''tcp'' \<and> nw \<noteq> ''udp'' then Inl (BadNetwork i nw) else Inr (putMin m nw ord))"

definition compileLeaf :: "nat \<Rightarrow> u32 \<Rightarrow> RuleDims \<Rightarrow> Engine \<Rightarrow> (rule_err, Engine) result" where
  "compileLeaf i ord r e =
    res_bind (addCIDRs i ord (IPCIDR r) (e_cidr e)) (\<lambda>cidr'.
    res_bind (addNetworks i ord (RNetwork r) (e_netw e)) (\<lambda>netw'.
    Inr (e\<lparr> e_exact := fold (\<lambda>d m. putMin m (normDomain d) ord) (Domain r) (e_exact e),
            e_suffix := fold (\<lambda>s m. putMin m (normDomain (trimPrefix s ''.'')) ord) (DomainSuffix r) (e_suffix e),
            e_keyword := fold (\<lambda>k xs. xs @ [(toLower k, ord)]) (DomainKeyword r) (e_keyword e),
            e_cidr := cidr',
            e_ports := fold (\<lambda>pt m. putMin m pt ord) (RPort r) (e_ports e),
            e_netw := netw',
            e_protocol := fold (\<lambda>pr m. putMin m (toLower pr) ord) (Protocol r) (e_protocol e),
            e_geoip := fold (\<lambda>gs xs. xs @ [(gs, ord)]) (GeoIP r) (e_geoip e),
            e_geosite := fold (\<lambda>ds xs. xs @ [(ds, ord)]) (GeoSite r) (e_geosite e),
            e_procName := fold (\<lambda>pn m. putMin m pn ord) (ProcessName r) (e_procName e),
            e_procPath := fold (\<lambda>pp m. putMin m pp ord) (ProcessPath r) (e_procPath e),
            e_hasProc := (e_hasProc e \<or> ProcessName r \<noteq> [] \<or> ProcessPath r \<noteq> []) \<rparr>)))"

definition compileRule :: "nat \<times> Rule \<Rightarrow> Engine \<Rightarrow> (rule_err, Engine) result" where
  "compileRule = (\<lambda>(i, r) e.
    (if To r = [] then Inl (MissingTo i)
     else
       let ord = word_of_nat i;
           e1 = e\<lparr> e_targets := (e_targets e)[i := To r], e_hasIP := (e_hasIP e \<or> ruleUsesIP r) \<rparr>
       in if Op r \<noteq> [] then
            (case validateComposite r of
               Some err \<Rightarrow> Inl (BadComposite i err)
             | None \<Rightarrow> Inr (e1\<lparr> e_logical := e_logical e1 @ [(compileEval r, ord)], e_hasLogical := True \<rparr>))
          else if dimCount (dims r) \<noteq> 1 then Inl (BadDims i (dimCount (dims r)))
          else compileLeaf i ord (dims r) e1))"

definition newEngine :: "nat \<Rightarrow> string \<Rightarrow> Engine" where
  "newEngine n d =
    \<lparr> e_targets = replicate n [], e_def = d, e_exact = (\<lambda>_. None), e_suffix = (\<lambda>_. None), e_keyword = [],
      e_cidr = [], e_geoip = [], e_geosite = [], e_ports = (\<lambda>_. None), e_netw = (\<lambda>_. None),
      e_protocol = (\<lambda>_. None), e_procName = (\<lambda>_. None), e_procPath = (\<lambda>_. None), e_hasProc = False,
      e_hasIP = False, e_logical = [], e_hasLogical = False \<rparr>"

definition Compile :: "Rule list \<Rightarrow> string \<Rightarrow> (rule_err, Engine) result" where
  "Compile rules d =
    (if d = [] then Inl EmptyDefault
     else fold_res compileRule (List.enumerate 0 rules) (newEngine (length rules) d))"

section \<open>Routing\<close>

text \<open>One map lookup and one scan of an entry list, each lowering the best ordinal so far.\<close>

definition lowerBy :: "('k \<Rightarrow> u32 option) \<Rightarrow> 'k \<Rightarrow> u32 \<Rightarrow> u32" where
  "lowerBy m k best = (case m k of None \<Rightarrow> best | Some x \<Rightarrow> if x < best then x else best)"

definition scanBy :: "('a \<Rightarrow> 'q \<Rightarrow> bool) \<Rightarrow> 'q \<Rightarrow> ('a \<times> u32) list \<Rightarrow> u32 \<Rightarrow> u32" where
  "scanBy hit q = fold (\<lambda>(a, x) best. if x < best \<and> hit a q then x else best)"

definition dimsBest :: "Engine \<Rightarrow> Socksaddr \<Rightarrow> Addr list \<Rightarrow> string \<Rightarrow> string \<Rightarrow> u32" where
  "dimsBest e dst ips network proto =
    (let b0 = ordNone;
         b1 = (if network \<noteq> [] then lowerBy (e_netw e) network b0 else b0);
         b2 = (if proto \<noteq> [] then lowerBy (e_protocol e) proto b1 else b1);
         b3 = (if IsFqdn dst then
                 (let host = normDomain (sa_Fqdn dst);
                      d1 = lowerBy (e_exact e) host b2;
                      d2 = fold (lowerBy (e_suffix e)) (labelChain host) d1;
                      d3 = scanBy (\<lambda>kw h. contains h kw) host (e_keyword e) d2
                  in scanBy (\<lambda>ds h. ds h) host (e_geosite e) d3)
               else b2);
         b4 = fold (\<lambda>ip b. scanBy (\<lambda>gs a. gs a) ip (e_geoip e) (scanBy pfx_Contains ip (e_cidr e) b))
                (ipSet dst ips) b3
     in lowerBy (e_ports e) (sa_Port dst) b4)"

definition evalLogical ::
  "((evalCtx \<Rightarrow> bool \<times> evalCtx) \<times> u32) list \<Rightarrow> u32 \<times> evalCtx \<Rightarrow> u32 \<times> evalCtx" where
  "evalLogical = fold (\<lambda>(ev, x) (best, c).
     if x < best then (case ev c of (b, c') \<Rightarrow> (if b then x else best, c')) else (best, c))"

definition RouteConnIPs ::
  "Engine \<Rightarrow> Socksaddr \<Rightarrow> Addr list \<Rightarrow> AddrPort \<Rightarrow> string \<Rightarrow> string \<Rightarrow> ProcessFinder option \<Rightarrow> string" where
  "RouteConnIPs e dst ips src network proto finder =
    (let best0 = dimsBest e dst ips network proto;
         ctx0 = (if (e_hasProc e \<or> e_hasLogical e) \<and> finder \<noteq> None \<and> ap_IsValid src
                 then Some (newCtx dst ips src network proto finder) else None);
         (best1, ctx1) =
           (case ctx0 of
              Some c \<Rightarrow>
                if e_hasProc e then
                  (case ctx_proc c of
                     ((name, path, ok), c') \<Rightarrow>
                       (if ok then lowerBy (e_procPath e) path (lowerBy (e_procName e) name best0) else best0, Some c'))
                else (best0, ctx0)
            | None \<Rightarrow> (best0, None));
         best2 =
           (if e_hasLogical e then
              fst (evalLogical (e_logical e)
                (best1, case ctx1 of None \<Rightarrow> newCtx dst ips src network proto finder | Some c \<Rightarrow> c))
            else best1)
     in if best2 = ordNone then e_def e else e_targets e ! unat best2)"

definition RouteConn ::
  "Engine \<Rightarrow> Socksaddr \<Rightarrow> AddrPort \<Rightarrow> string \<Rightarrow> string \<Rightarrow> ProcessFinder option \<Rightarrow> string" where
  "RouteConn e dst src network proto finder = RouteConnIPs e dst [] src network proto finder"

definition Route :: "Engine \<Rightarrow> Socksaddr \<Rightarrow> string" where
  "Route e dst = RouteConn e dst \<lparr> ap_addr = AddrZero, ap_port = 0 \<rparr> [] [] None"

definition HasProcess :: "Engine \<Rightarrow> bool" where
  "HasProcess e = e_hasProc e"

definition HasIPRules :: "Engine \<Rightarrow> bool" where
  "HasIPRules e = e_hasIP e"

end
