(* ===== verification/RuleSpec.thy ===== *)
theory RuleSpec
  imports RuleEngine
begin

text \<open>
  What the rule engine promises: the naive evaluation of the rules in their declared order, the
  interface of an ordinal index with its interpretations on the indexes of the engine, and the
  theorems that the compiled engine computes the first matching rule.
\<close>

section \<open>The specification\<close>

definition procOf :: "evalCtx \<Rightarrow> (string \<times> string) option" where
  "procOf c = (case c_finder c of None \<Rightarrow> None
     | Some f \<Rightarrow> if ap_IsValid (c_src c) then f (c_network c) (c_src c) else None)"

definition procHit :: "RuleDims \<Rightarrow> (string \<times> string) option \<Rightarrow> bool" where
  "procHit r pr = (case pr of None \<Rightarrow> False
     | Some (name, path) \<Rightarrow> name \<in> set (ProcessName r) \<or> path \<in> set (ProcessPath r))"

definition domainHit :: "RuleDims \<Rightarrow> Socksaddr \<Rightarrow> bool" where
  "domainHit r dst = (IsFqdn dst \<and>
     (let host = normDomain (sa_Fqdn dst) in
       (\<exists>d \<in> set (Domain r). host = normDomain d)
     \<or> (\<exists>k \<in> set (DomainKeyword r). contains host (toLower k))
     \<or> (\<exists>ds \<in> set (GeoSite r). ds host)))"

definition ipHit :: "RuleDims \<Rightarrow> Socksaddr \<Rightarrow> Addr list \<Rightarrow> bool" where
  "ipHit r dst ips = (\<exists>ip \<in> set (ipSet dst ips).
       (\<exists>cc \<in> set (IPCIDR r). \<exists>p. ParsePrefix cc = Some p \<and> pfx_Contains p ip)
     \<or> (\<exists>gs \<in> set (GeoIP r). gs ip))"

text \<open>
  A leaf inside a composite rule compares the sniffed protocol as written; a leaf at the top level
  compares it in lower case, and its empty suffix matches nothing.
\<close>

definition leafHits :: "RuleDims \<Rightarrow> evalCtx \<Rightarrow> bool" where
  "leafHits r c =
    (domainHit r (c_dst c)
     \<or> (IsFqdn (c_dst c) \<and> (\<exists>s \<in> set (DomainSuffix r).
          suffixHit (normDomain (sa_Fqdn (c_dst c))) (normDomain (trimPrefix s ''.''))))
     \<or> ipHit r (c_dst c) (c_ips c)
     \<or> sa_Port (c_dst c) \<in> set (RPort r)
     \<or> (c_network c \<noteq> [] \<and> c_network c \<in> set (RNetwork r))
     \<or> (c_proto c \<noteq> [] \<and> c_proto c \<in> set (Protocol r))
     \<or> procHit r (procOf c))"

definition topLeafHits :: "RuleDims \<Rightarrow> evalCtx \<Rightarrow> bool" where
  "topLeafHits r c =
    (domainHit r (c_dst c)
     \<or> (IsFqdn (c_dst c) \<and> (\<exists>s \<in> set (DomainSuffix r). normDomain (trimPrefix s ''.'') \<noteq> [] \<and>
          suffixHit (normDomain (sa_Fqdn (c_dst c))) (normDomain (trimPrefix s ''.''))))
     \<or> ipHit r (c_dst c) (c_ips c)
     \<or> sa_Port (c_dst c) \<in> set (RPort r)
     \<or> (c_network c \<noteq> [] \<and> c_network c \<in> set (RNetwork r))
     \<or> (c_proto c \<noteq> [] \<and> c_proto c \<in> toLower ` set (Protocol r))
     \<or> procHit r (procOf c))"

fun ruleHits :: "Rule \<Rightarrow> evalCtx \<Rightarrow> bool" where
  "ruleHits (Rule d op sub nt to) c =
    (if op = [] then leafHits d c
     else nt \<noteq> (if op = ''and'' then (\<forall>s \<in> set sub. ruleHits s c) else (\<exists>s \<in> set sub. ruleHits s c)))"

definition topHits :: "Rule \<Rightarrow> evalCtx \<Rightarrow> bool" where
  "topHits r c = (if Op r = [] then topLeafHits (dims r) c else ruleHits r c)"

definition firstMatch :: "Rule list \<Rightarrow> string \<Rightarrow> evalCtx \<Rightarrow> string" where
  "firstMatch rules d c = (case List.find (\<lambda>r. topHits r c) rules of None \<Rightarrow> d | Some r \<Rightarrow> To r)"

section \<open>The lazy process lookup\<close>

text \<open>A context is sound when its cache holds what the finder answers; \<open>cqry\<close> is the query it carries.\<close>

definition cacheOK :: "evalCtx \<Rightarrow> bool" where
  "cacheOK c =
    (if c_procDone c then
       (case procOf c of None \<Rightarrow> \<not> c_procOK c
        | Some (name, path) \<Rightarrow> c_procOK c \<and> c_procName c = name \<and> c_procPath c = path)
     else \<not> c_procOK c)"

definition sameQuery :: "evalCtx \<Rightarrow> evalCtx \<Rightarrow> bool" where
  "sameQuery c c' = (c_dst c' = c_dst c \<and> c_src c' = c_src c \<and> c_ips c' = c_ips c
     \<and> c_network c' = c_network c \<and> c_proto c' = c_proto c \<and> c_finder c' = c_finder c)"

definition okStep :: "evalCtx \<Rightarrow> evalCtx \<Rightarrow> bool" where
  "okStep c c' = (cacheOK c' \<and> sameQuery c c')"

lemma sameQuery_refl [simp]: "sameQuery c c"
  by (simp add: sameQuery_def)

lemma sameQuery_trans: "sameQuery a b \<Longrightarrow> sameQuery b c \<Longrightarrow> sameQuery a c"
  by (simp add: sameQuery_def)

lemma okStep_refl: "cacheOK c \<Longrightarrow> okStep c c"
  by (simp add: okStep_def)

lemma okStep_trans: "okStep a b \<Longrightarrow> okStep b c \<Longrightarrow> okStep a c"
  by (auto simp: okStep_def intro: sameQuery_trans)

lemma sameQuery_procOf: "sameQuery c c' \<Longrightarrow> procOf c' = procOf c"
  by (simp add: sameQuery_def procOf_def split: option.split)

lemma sameQuery_leafHits: "sameQuery c c' \<Longrightarrow> leafHits d c' = leafHits d c"
  by (simp add: leafHits_def sameQuery_procOf) (simp add: sameQuery_def)

lemma sameQuery_ruleHits: "sameQuery c c' \<Longrightarrow> ruleHits r c' = ruleHits r c"
  by (induction r c rule: ruleHits.induct) (simp add: sameQuery_leafHits)

lemma newCtx_cacheOK [simp]: "cacheOK (newCtx dst ips src network proto finder)"
  by (simp add: cacheOK_def newCtx_def)

lemma ctx_proc_spec:
  assumes "cacheOK c" "ctx_proc c = ((name, path, ok), c')"
  shows "okStep c c'" "ok \<longleftrightarrow> procOf c \<noteq> None" "ok \<Longrightarrow> procOf c = Some (name, path)"
  using assms
  by (auto simp: ctx_proc_def okStep_def cacheOK_def sameQuery_def procOf_def Let_def
      split: option.splits if_splits)

lemma matchLeaf_spec:
  assumes "cacheOK c"
  shows "fst (matchLeaf r c) = leafHits r c \<and> okStep c (snd (matchLeaf r c))"
proof -
  obtain name path ok c' where p: "ctx_proc c = ((name, path, ok), c')"
    by (metis surj_pair)
  note proc = ctx_proc_spec [OF assms p]
  have hit: "procHit r (procOf c) \<longleftrightarrow> ok \<and> (name \<in> set (ProcessName r) \<or> path \<in> set (ProcessPath r))"
    using proc(2,3) by (cases ok) (auto simp: procHit_def split: option.splits)
  have noproc: "ProcessName r = [] \<Longrightarrow> ProcessPath r = [] \<Longrightarrow> \<not> procHit r (procOf c)"
    by (auto simp: procHit_def split: option.splits)
  let ?host = "normDomain (sa_Fqdn (c_dst c))"
  let ?A = "IsFqdn (c_dst c) \<and>
        (list_ex (\<lambda>d. ?host = normDomain d) (Domain r)
         \<or> list_ex (\<lambda>s. suffixHit ?host (normDomain (trimPrefix s ''.''))) (DomainSuffix r)
         \<or> list_ex (\<lambda>k. contains ?host (toLower k)) (DomainKeyword r)
         \<or> list_ex (\<lambda>ds. ds ?host) (GeoSite r))"
  let ?S = "IsFqdn (c_dst c) \<and> (\<exists>s \<in> set (DomainSuffix r).
          suffixHit (normDomain (sa_Fqdn (c_dst c))) (normDomain (trimPrefix s ''.'')))"
  let ?B = "list_ex (\<lambda>ip.
            list_ex (\<lambda>cc. case ParsePrefix cc of None \<Rightarrow> False | Some p \<Rightarrow> pfx_Contains (pfx_Masked p) ip) (IPCIDR r)
            \<or> list_ex (\<lambda>gs. gs ip) (GeoIP r)) (ipSet (c_dst c) (c_ips c))"
  have A: "?A \<longleftrightarrow> domainHit r (c_dst c) \<or> ?S"
    unfolding domainHit_def list_ex_iff Let_def by blast
  have "(case ParsePrefix cc of None \<Rightarrow> False | Some p \<Rightarrow> pfx_Contains (pfx_Masked p) ip)
      \<longleftrightarrow> (\<exists>p. ParsePrefix cc = Some p \<and> pfx_Contains p ip)" for cc ip
    by (simp split: option.split)
  then have B: "?B \<longleftrightarrow> ipHit r (c_dst c) (c_ips c)"
    unfolding ipHit_def list_ex_iff by simp
  have C: "okStep c c" by (rule okStep_refl [OF assms])
  show ?thesis
    unfolding matchLeaf_def Let_def A B p leafHits_def
    using proc(1) C hit noproc by simp blast
qed

lemma evalAnd_spec:
  assumes "\<And>f c. f \<in> set fs \<Longrightarrow> cacheOK c \<Longrightarrow> fst (f c) = P f c \<and> okStep c (snd (f c))"
    and "\<And>f c c'. f \<in> set fs \<Longrightarrow> sameQuery c c' \<Longrightarrow> P f c' = P f c" and "cacheOK c"
  shows "fst (evalAnd fs c) = (\<forall>f \<in> set fs. P f c) \<and> okStep c (snd (evalAnd fs c))"
  using assms
proof (induction fs arbitrary: c)
  case Nil
  then show ?case by (simp add: okStep_refl)
next
  case (Cons f fs)
  obtain b c' where f: "f c = (b, c')" by (cases "f c")
  with Cons.prems(1,3) have b: "b = P f c" and st: "okStep c c'" by fastforce+
  have IH: "fst (evalAnd fs c') = (\<forall>f \<in> set fs. P f c') \<and> okStep c' (snd (evalAnd fs c'))"
    by (rule Cons.IH) (use Cons.prems st in \<open>auto simp: okStep_def\<close>)
  have "\<forall>g \<in> set fs. P g c' = P g c" using Cons.prems(2) st by (auto simp: okStep_def)
  with IH f b st show ?case by (auto intro: okStep_trans)
qed

lemma evalOr_spec:
  assumes "\<And>f c. f \<in> set fs \<Longrightarrow> cacheOK c \<Longrightarrow> fst (f c) = P f c \<and> okStep c (snd (f c))"
    and "\<And>f c c'. f \<in> set fs \<Longrightarrow> sameQuery c c' \<Longrightarrow> P f c' = P f c" and "cacheOK c"
  shows "fst (evalOr fs c) = (\<exists>f \<in> set fs. P f c) \<and> okStep c (snd (evalOr fs c))"
  using assms
proof (induction fs arbitrary: c)
  case Nil
  then show ?case by (simp add: okStep_refl)
next
  case (Cons f fs)
  obtain b c' where f: "f c = (b, c')" by (cases "f c")
  with Cons.prems(1,3) have b: "b = P f c" and st: "okStep c c'" by fastforce+
  have IH: "fst (evalOr fs c') = (\<exists>f \<in> set fs. P f c') \<and> okStep c' (snd (evalOr fs c'))"
    by (rule Cons.IH) (use Cons.prems st in \<open>auto simp: okStep_def\<close>)
  have "\<forall>g \<in> set fs. P g c' = P g c" using Cons.prems(2) st by (auto simp: okStep_def)
  with IH f b st show ?case by (auto intro: okStep_trans)
qed


lemma compileEval_spec:
  "cacheOK c \<Longrightarrow> fst (compileEval r c) = ruleHits r c \<and> okStep c (snd (compileEval r c))"
proof (induction r arbitrary: c)
  case (Rule d op sub nt to)
  have ev: "fst (compileEval s c) = ruleHits s c \<and> okStep c (snd (compileEval s c))"
    if "s \<in> set sub" "cacheOK c" for s c
    using Rule.IH that by blast
  have q: "sameQuery c c' \<Longrightarrow> (\<forall>s\<in>set sub. ruleHits s c' = ruleHits s c)" for c c'
    by (simp add: sameQuery_ruleHits)
  define P where "P f c = (\<exists>s \<in> set sub. f = compileEval s \<and> ruleHits s c)" for f c
  have P: "f \<in> set (map compileEval sub) \<Longrightarrow> cacheOK c \<Longrightarrow> fst (f c) = P f c \<and> okStep c (snd (f c))" for f c
    using ev unfolding P_def by (auto; metis)
  have Pq: "f \<in> set (map compileEval sub) \<Longrightarrow> sameQuery c c' \<Longrightarrow> P f c' = P f c" for f c c'
    unfolding P_def by (auto simp: sameQuery_ruleHits)
  note A = evalAnd_spec [of "map compileEval sub" P c, OF P Pq Rule.prems]
  note Or = evalOr_spec [of "map compileEval sub" P c, OF P Pq Rule.prems]
  have PA: "P (compileEval s) c = ruleHits s c" if "s \<in> set sub" for s
    using P [of "compileEval s" c] ev [OF that] Rule.prems that by auto
  show ?case
    using A Or PA matchLeaf_spec [OF Rule.prems, of d]
    by (cases "op = []"; cases "op = ''and''"; cases nt) (auto simp: Let_def split: prod.splits)
qed

section \<open>Ordinal indexes\<close>

text \<open>
  What the engine needs of an index: adding a key at an ordinal lowers the best ordinal of exactly
  the queries the key matches.
\<close>

locale ord_index =
  fixes add :: "'m \<Rightarrow> 'k \<Rightarrow> u32 \<Rightarrow> 'm"
    and best :: "'m \<Rightarrow> 'q \<Rightarrow> u32"
    and matches :: "'k \<Rightarrow> 'q \<Rightarrow> bool"
  assumes best_add: "best (add m k x) q = (if matches k q then min x (best m q) else best m q)"
begin

lemma best_addAll:
  "best (fold (\<lambda>k m. add m k x) ks m) q = (if \<exists>k \<in> set ks. matches k q then min x (best m q) else best m q)"
  by (induction ks arbitrary: m) (auto simp: best_add)

end

lemma ordNone_top [simp]: "min ordNone x = x" "min x ordNone = x" "\<not> ordNone < x" "x \<le> ordNone"
proof -
  have "ordNone = - 1" by (simp add: ordNone_def)
  then show "x \<le> ordNone" using word_n1_ge by metis
  then show "min ordNone x = x" "min x ordNone = x" "\<not> ordNone < x" by (auto simp: min_def not_less)
qed

definition bestAt :: "('k \<Rightarrow> u32 option) \<Rightarrow> 'k \<Rightarrow> u32" where
  "bestAt m k = (case m k of None \<Rightarrow> ordNone | Some x \<Rightarrow> x)"

definition bestChain :: "ordmap \<Rightarrow> string \<Rightarrow> u32" where
  "bestChain m h = fold (lowerBy m) (labelChain h) ordNone"

definition bestIn :: "('a \<Rightarrow> 'q \<Rightarrow> bool) \<Rightarrow> ('a \<times> u32) list \<Rightarrow> 'q \<Rightarrow> u32" where
  "bestIn hit xs q = scanBy hit q xs ordNone"

lemma lowerBy_min: "lowerBy m k b = min b (bestAt m k)"
  by (auto simp: lowerBy_def bestAt_def min_def split: option.splits)

lemma fold_min_init: "fold (\<lambda>x b. min b (f x)) xs (b :: u32) = min b (fold (\<lambda>x b. min b (f x)) xs ordNone)"
proof (induction xs arbitrary: b)
  case (Cons x xs)
  show ?case
    using Cons.IH [of "min b (f x)"] Cons.IH [of "f x"] by (simp add: min.assoc)
qed simp

lemma bestChain_min: "fold (lowerBy m) (labelChain h) b = min b (bestChain m h)"
  unfolding bestChain_def lowerBy_min [abs_def] by (rule fold_min_init)

lemma scanBy_Cons: "scanBy hit q ((a, x) # xs) b = scanBy hit q xs (if hit a q then min b x else b)"
  by (auto simp: scanBy_def min_def)

lemma scanBy_min: "scanBy hit q xs b = min b (bestIn hit xs q)"
proof (induction xs arbitrary: b)
  case Nil
  then show ?case by (simp add: scanBy_def bestIn_def)
next
  case (Cons ax xs)
  obtain a x where [simp]: "ax = (a, x)" by (cases ax)
  show ?case
    using Cons.IH [of "min b x"] Cons.IH [of b] Cons.IH [of x]
    by (simp add: scanBy_Cons bestIn_def min.assoc)
qed

lemma bestAt_putMin: "bestAt (putMin m k x) q = (if k = q then min x (bestAt m q) else bestAt m q)"
  by (auto simp: bestAt_def putMin_def min_def split: option.splits)

interpretation map_ix: ord_index putMin bestAt "(=)"
  by unfold_locales (rule bestAt_putMin)

lemma fold_min_putMin:
  "fold (\<lambda>s b. min b (bestAt (putMin m k x) s)) ss (b :: u32)
   = (if k \<in> set ss then min x (fold (\<lambda>s b. min b (bestAt m s)) ss b) else fold (\<lambda>s b. min b (bestAt m s)) ss b)"
proof (induction ss arbitrary: b)
  case (Cons s ss)
  have init: "fold (\<lambda>s b. min b (bestAt m s)) ss (min b (min x y))
      = min x (fold (\<lambda>s b. min b (bestAt m s)) ss (min b y))" for y
    using fold_min_init [of "bestAt m" ss "min b (min x y)"] fold_min_init [of "bestAt m" ss "min b y"]
    by (simp add: min.left_commute min.assoc)
  show ?case
    by (simp only: fold_simps Cons.IH) (auto simp: bestAt_putMin init)
qed simp

interpretation chain_ix: ord_index putMin bestChain "\<lambda>k h. k \<in> set (labelChain h)"
  by unfold_locales (simp add: bestChain_def lowerBy_min [abs_def] fold_min_putMin)

lemma bestIn_snoc: "bestIn hit (xs @ [(k, x)]) q = (if hit k q then min x (bestIn hit xs q) else bestIn hit xs q)"
  by (auto simp: bestIn_def scanBy_def min_def)

interpretation list_ix: ord_index "\<lambda>xs k x. xs @ [(k, x)]" "bestIn hit" hit for hit
  by unfold_locales (rule bestIn_snoc)

section \<open>The engine as one minimum\<close>

lemma le_bestIn: "x \<le> bestIn hit xs q \<longleftrightarrow> (\<forall>(k, y) \<in> set xs. hit k q \<longrightarrow> x \<le> y)"
proof (induction xs rule: rev_induct)
  case Nil
  then show ?case by (simp add: bestIn_def scanBy_def)
next
  case (snoc ky xs)
  then show ?case by (cases ky) (auto simp: bestIn_snoc)
qed

lemma u32_eq_by_le: "(\<And>z. z \<le> (x :: u32) \<longleftrightarrow> z \<le> y) \<Longrightarrow> x = y"
  by (meson order.antisym order.refl)

lemma fold_ips_min:
  "fold (\<lambda>ip b. scanBy h2 ip ys (scanBy h1 ip xs b)) ips b
   = min b (min (bestIn (\<lambda>k q. \<exists>ip \<in> set q. h1 k ip) xs ips) (bestIn (\<lambda>k q. \<exists>ip \<in> set q. h2 k ip) ys ips))"
proof -
  have "z \<le> fold (\<lambda>ip b. scanBy h2 ip ys (scanBy h1 ip xs b)) ips b \<longleftrightarrow>
      z \<le> b \<and> (\<forall>ip \<in> set ips. z \<le> bestIn h1 xs ip \<and> z \<le> bestIn h2 ys ip)" for z
    by (induction ips arbitrary: b) (auto simp: scanBy_min)
  then show ?thesis
    by (intro u32_eq_by_le) (auto simp: le_bestIn)
qed

definition hostOf :: "evalCtx \<Rightarrow> string" where
  "hostOf c = normDomain (sa_Fqdn (c_dst c))"

definition netVal :: "Engine \<Rightarrow> evalCtx \<Rightarrow> u32" where
  "netVal e c = min (if c_network c \<noteq> [] then bestAt (e_netw e) (c_network c) else ordNone)
                    (if c_proto c \<noteq> [] then bestAt (e_protocol e) (c_proto c) else ordNone)"

definition domVal :: "Engine \<Rightarrow> evalCtx \<Rightarrow> u32" where
  "domVal e c = (if IsFqdn (c_dst c) then
      min (min (bestAt (e_exact e) (hostOf c)) (bestChain (e_suffix e) (hostOf c)))
          (min (bestIn (\<lambda>kw h. contains h kw) (e_keyword e) (hostOf c))
               (bestIn (\<lambda>ds h. ds h) (e_geosite e) (hostOf c)))
    else ordNone)"

definition ipVal :: "Engine \<Rightarrow> evalCtx \<Rightarrow> u32" where
  "ipVal e c = min (bestIn (\<lambda>p q. \<exists>ip \<in> set q. pfx_Contains p ip) (e_cidr e) (ipSet (c_dst c) (c_ips c)))
                   (bestIn (\<lambda>gs q. \<exists>ip \<in> set q. gs ip) (e_geoip e) (ipSet (c_dst c) (c_ips c)))"

definition procVal :: "Engine \<Rightarrow> evalCtx \<Rightarrow> u32" where
  "procVal e c = (case procOf c of None \<Rightarrow> ordNone
     | Some (name, path) \<Rightarrow> min (bestAt (e_procName e) name) (bestAt (e_procPath e) path))"

definition logVal :: "Engine \<Rightarrow> evalCtx \<Rightarrow> u32" where
  "logVal e c = bestIn (\<lambda>ev c. fst (ev c)) (e_logical e) c"

definition totalBest :: "Engine \<Rightarrow> evalCtx \<Rightarrow> u32" where
  "totalBest e c = min (min (netVal e c) (min (domVal e c) (ipVal e c)))
     (min (bestAt (e_ports e) (sa_Port (c_dst c))) (min (procVal e c) (logVal e c)))"

definition engineOK :: "Engine \<Rightarrow> bool" where
  "engineOK e = ((\<not> e_hasLogical e \<longrightarrow> e_logical e = [])
     \<and> (\<not> e_hasProc e \<longrightarrow> e_procName e = (\<lambda>_. None) \<and> e_procPath e = (\<lambda>_. None))
     \<and> (\<forall>(ev, x) \<in> set (e_logical e). \<exists>r. ev = compileEval r))"

lemma newCtx_simps [simp]:
  "c_dst (newCtx dst ips src network proto finder) = dst"
  "c_src (newCtx dst ips src network proto finder) = src"
  "c_ips (newCtx dst ips src network proto finder) = ips"
  "c_network (newCtx dst ips src network proto finder) = network"
  "c_proto (newCtx dst ips src network proto finder) = proto"
  "c_finder (newCtx dst ips src network proto finder) = finder"
  by (simp_all add: newCtx_def)

lemma dimsBest_eq:
  "dimsBest e dst ips network proto =
    (let c = newCtx dst ips src network proto finder
     in min (min (netVal e c) (min (domVal e c) (ipVal e c))) (bestAt (e_ports e) (sa_Port dst)))"
  unfolding dimsBest_def Let_def fold_ips_min
  unfolding bestChain_min scanBy_min lowerBy_min newCtx_simps netVal_def domVal_def ipVal_def hostOf_def
  by (cases "IsFqdn dst"; cases "network = []"; cases "proto = []")
    (simp_all only: if_True if_False simp_thms not_True_eq_False not_False_eq_True ordNone_top
      min.assoc min.commute min.left_commute)

lemma evalLogical_eq:
  assumes "\<forall>(ev, x) \<in> set xs. \<exists>r. ev = compileEval r" "cacheOK c"
  shows "fst (evalLogical xs (b, c)) = min b (bestIn (\<lambda>ev c. fst (ev c)) xs c)"
proof -
  have "z \<le> fst (evalLogical xs (b, c')) \<longleftrightarrow> z \<le> b \<and> z \<le> bestIn (\<lambda>ev c. fst (ev c)) xs c"
    if "okStep c c'" "\<forall>(ev, x) \<in> set xs. \<exists>r. ev = compileEval r" for z c'
    using that
  proof (induction xs arbitrary: b c')
    case Nil
    then show ?case by (simp add: evalLogical_def bestIn_def scanBy_def)
  next
    case (Cons evx xs)
    then obtain r x where evx: "evx = (compileEval r, x)" by auto
    obtain b' c'' where st: "compileEval r c' = (b', c'')" by (cases "compileEval r c'")
    have "cacheOK c'" using Cons.prems(1) by (simp add: okStep_def)
    from compileEval_spec [OF this, of r] st
    have b': "b' = ruleHits r c" and step: "okStep c c''"
      using Cons.prems(1) by (auto simp: okStep_def sameQuery_ruleHits intro: sameQuery_trans)
    have hit: "fst (compileEval r c) = ruleHits r c" using compileEval_spec assms(2) by blast
    have IH: "okStep c d \<Longrightarrow> z \<le> fst (evalLogical xs (y, d)) \<longleftrightarrow> z \<le> y \<and> z \<le> bestIn (\<lambda>ev c. fst (ev c)) xs c" for y d
      using Cons by simp
    show ?case
      using IH [OF Cons.prems(1), of b] IH [OF step, of b] IH [OF step, of x] st b' hit
      by (auto simp: evx evalLogical_def le_bestIn)
  qed
  from this [OF okStep_refl [OF assms(2)] assms(1)] show ?thesis
    by (intro u32_eq_by_le) simp
qed

lemma RouteConnIPs_eq:
  assumes "engineOK e"
  shows "RouteConnIPs e dst ips src network proto finder =
    (let b = totalBest e (newCtx dst ips src network proto finder)
     in if b = ordNone then e_def e else e_targets e ! unat b)"
proof -
  let ?c = "newCtx dst ips src network proto finder"
  let ?d = "dimsBest e dst ips network proto"
  obtain name path ok c' where p: "ctx_proc ?c = ((name, path, ok), c')" by (metis surj_pair)
  note proc = ctx_proc_spec [OF newCtx_cacheOK p]
  have procOf: "procOf ?c = None" if "finder = None \<or> \<not> ap_IsValid src"
    using that by (auto simp: procOf_def split: option.split)
  have pv: "procVal e ?c = (if ok then min (bestAt (e_procName e) name) (bestAt (e_procPath e) path) else ordNone)"
    using proc(2,3) by (auto simp: procVal_def split: option.split)
  have noproc: "\<not> e_hasProc e \<Longrightarrow> procVal e ?c = ordNone"
    using assms by (auto simp: procVal_def engineOK_def bestAt_def split: option.splits)
  have ok: "\<forall>(ev, x) \<in> set (e_logical e). \<exists>r. ev = compileEval r"
    and log0: "\<not> e_hasLogical e \<Longrightarrow> logVal e ?c = ordNone"
    using assms by (auto simp: engineOK_def logVal_def bestIn_def scanBy_def)
  have ev: "fst (evalLogical (e_logical e) (b, d)) = min b (logVal e ?c)" if "okStep ?c d" for b d
  proof -
    have "bestIn (\<lambda>ev c. fst (ev c)) (e_logical e) d = logVal e ?c"
      unfolding logVal_def
    proof (rule u32_eq_by_le)
      fix z
      have "fst (ev d) = fst (ev ?c)" if "(ev, x) \<in> set (e_logical e)" for ev x
        using ok that compileEval_spec [of d] compileEval_spec [of ?c] \<open>okStep ?c d\<close>
        by (fastforce simp: okStep_def sameQuery_ruleHits)
      then show "z \<le> bestIn (\<lambda>ev c. fst (ev c)) (e_logical e) d \<longleftrightarrow>
          z \<le> bestIn (\<lambda>ev c. fst (ev c)) (e_logical e) ?c"
        unfolding le_bestIn by (metis (no_types, lifting) case_prodD case_prodI2)
    qed
    then show ?thesis using evalLogical_eq [OF ok, of d b] that by (simp add: okStep_def)
  qed
  have tot: "totalBest e ?c = min ?d (min (procVal e ?c) (logVal e ?c))"
    unfolding totalBest_def dimsBest_eq [of _ _ _ _ _ src finder] Let_def by (simp add: min.assoc)
  have fin: "ok \<Longrightarrow> finder \<noteq> None" "ok \<Longrightarrow> ap_IsValid src" using procOf proc(2) by (cases finder; auto)+
  show ?thesis
  proof (cases "finder \<noteq> None \<and> ap_IsValid src")
    case True
    then show ?thesis
      unfolding RouteConnIPs_def Let_def tot
      using noproc log0 pv ev [OF proc(1)] ev [OF okStep_refl [OF newCtx_cacheOK]] p
      by (cases "e_hasProc e"; cases "e_hasLogical e"; cases ok) (simp_all add: lowerBy_min min.assoc)
  next
    case False
    then have none: "\<not> (X \<and> finder \<noteq> None \<and> ap_IsValid src)" for X by blast
    have "procVal e ?c = ordNone" using False pv fin by auto
    then show ?thesis
      unfolding RouteConnIPs_def Let_def tot if_not_P [OF none]
      using log0 ev [OF okStep_refl [OF newCtx_cacheOK]]
      by (cases "e_hasLogical e") simp_all
  qed
qed

section \<open>Compilation\<close>

lemma addCIDRs_ok:
  "addCIDRs i x cs xs = Inr ys \<Longrightarrow>
    (\<forall>c \<in> set cs. ParsePrefix c \<noteq> None)
    \<and> ys = fold (\<lambda>p xs. xs @ [(p, x)]) (map (pfx_Masked \<circ> the \<circ> ParsePrefix) cs) xs"
  unfolding addCIDRs_def
  by (induction cs arbitrary: xs) (auto simp: res_bind_Inr_iff split: option.splits)

lemma addNetworks_ok:
  "addNetworks i x ns m = Inr m' \<Longrightarrow>
    (\<forall>n \<in> set ns. n = ''tcp'' \<or> n = ''udp'') \<and> m' = fold (\<lambda>n m. putMin m n x) ns m"
  unfolding addNetworks_def
  by (induction ns arbitrary: m) (auto simp: res_bind_Inr_iff split: if_splits)

lemma fold_putMin_map:
  "fold (\<lambda>d m. putMin m (f d) x) ds m = fold (\<lambda>k m. putMin m k x) (map f ds) m"
  by (simp add: fold_map comp_def)

lemma fold_append_map:
  "fold (\<lambda>d xs. xs @ [(f d, x)]) ds xs = fold (\<lambda>k xs. xs @ [(k, x)]) (map f ds) xs"
  by (simp add: fold_map comp_def)

text \<open>Adding one leaf lowers every value of the engine exactly where the leaf hits.\<close>

lemma compileLeaf_fields:
  assumes "compileLeaf i x r e = Inr e'"
  shows "e_exact e' = fold (\<lambda>k m. putMin m k x) (map normDomain (Domain r)) (e_exact e)"
    and "e_suffix e' = fold (\<lambda>k m. putMin m k x) (map (\<lambda>s. normDomain (trimPrefix s ''.'')) (DomainSuffix r)) (e_suffix e)"
    and "e_keyword e' = fold (\<lambda>k xs. xs @ [(k, x)]) (map toLower (DomainKeyword r)) (e_keyword e)"
    and "e_cidr e' = fold (\<lambda>p xs. xs @ [(p, x)]) (map (pfx_Masked \<circ> the \<circ> ParsePrefix) (IPCIDR r)) (e_cidr e)"
    and "e_ports e' = fold (\<lambda>k m. putMin m k x) (RPort r) (e_ports e)"
    and "e_netw e' = fold (\<lambda>k m. putMin m k x) (RNetwork r) (e_netw e)"
    and "e_protocol e' = fold (\<lambda>k m. putMin m k x) (map toLower (Protocol r)) (e_protocol e)"
    and "e_geoip e' = fold (\<lambda>k xs. xs @ [(k, x)]) (GeoIP r) (e_geoip e)"
    and "e_geosite e' = fold (\<lambda>k xs. xs @ [(k, x)]) (GeoSite r) (e_geosite e)"
    and "e_procName e' = fold (\<lambda>k m. putMin m k x) (ProcessName r) (e_procName e)"
    and "e_procPath e' = fold (\<lambda>k m. putMin m k x) (ProcessPath r) (e_procPath e)"
    and "e_hasProc e' = (e_hasProc e \<or> ProcessName r \<noteq> [] \<or> ProcessPath r \<noteq> [])"
    and "e_logical e' = e_logical e" and "e_hasLogical e' = e_hasLogical e"
    and "e_targets e' = e_targets e" and "e_def e' = e_def e" and "e_hasIP e' = e_hasIP e"
    and "\<forall>c \<in> set (IPCIDR r). ParsePrefix c \<noteq> None"
    and "\<forall>n \<in> set (RNetwork r). n = ''tcp'' \<or> n = ''udp''"
proof -
  from assms obtain cidr' netw' where ok: "addCIDRs i x (IPCIDR r) (e_cidr e) = Inr cidr'"
      "addNetworks i x (RNetwork r) (e_netw e) = Inr netw'"
    by (auto simp: compileLeaf_def res_bind_Inr_iff)
  note A = addCIDRs_ok [OF ok(1)] addNetworks_ok [OF ok(2)]
  note E = assms [unfolded compileLeaf_def ok res_bind_simps sum.inject, symmetric]
  show "e_exact e' = fold (\<lambda>k m. putMin m k x) (map normDomain (Domain r)) (e_exact e)"
    and "e_suffix e' = fold (\<lambda>k m. putMin m k x) (map (\<lambda>s. normDomain (trimPrefix s ''.'')) (DomainSuffix r)) (e_suffix e)"
    and "e_keyword e' = fold (\<lambda>k xs. xs @ [(k, x)]) (map toLower (DomainKeyword r)) (e_keyword e)"
    and "e_cidr e' = fold (\<lambda>p xs. xs @ [(p, x)]) (map (pfx_Masked \<circ> the \<circ> ParsePrefix) (IPCIDR r)) (e_cidr e)"
    and "e_netw e' = fold (\<lambda>k m. putMin m k x) (RNetwork r) (e_netw e)"
    and "e_protocol e' = fold (\<lambda>k m. putMin m k x) (map toLower (Protocol r)) (e_protocol e)"
    and "\<forall>c \<in> set (IPCIDR r). ParsePrefix c \<noteq> None"
    and "\<forall>n \<in> set (RNetwork r). n = ''tcp'' \<or> n = ''udp''"
    using A by (simp_all add: E fold_map comp_def)
  show "e_ports e' = fold (\<lambda>k m. putMin m k x) (RPort r) (e_ports e)"
    and "e_geoip e' = fold (\<lambda>k xs. xs @ [(k, x)]) (GeoIP r) (e_geoip e)"
    and "e_geosite e' = fold (\<lambda>k xs. xs @ [(k, x)]) (GeoSite r) (e_geosite e)"
    and "e_procName e' = fold (\<lambda>k m. putMin m k x) (ProcessName r) (e_procName e)"
    and "e_procPath e' = fold (\<lambda>k m. putMin m k x) (ProcessPath r) (e_procPath e)"
    and "e_hasProc e' = (e_hasProc e \<or> ProcessName r \<noteq> [] \<or> ProcessPath r \<noteq> [])"
    and "e_logical e' = e_logical e" and "e_hasLogical e' = e_hasLogical e"
    and "e_targets e' = e_targets e" and "e_def e' = e_def e" and "e_hasIP e' = e_hasIP e"
    by (simp_all add: E)
qed

lemma le_if_min: "z \<le> (if h then min x d else d) \<longleftrightarrow> z \<le> d \<and> (h \<longrightarrow> z \<le> (x :: u32))"
  by auto

lemma compileLeaf_best:
  assumes "compileLeaf i x r e = Inr e'"
  shows "totalBest e' c = (if topLeafHits r c then min x (totalBest e c) else totalBest e c)"
proof -
  note F = compileLeaf_fields [OF assms]
  have net: "z \<le> netVal e' c \<longleftrightarrow> z \<le> netVal e c \<and>
      (c_network c \<noteq> [] \<and> c_network c \<in> set (RNetwork r) \<or> c_proto c \<noteq> [] \<and> c_proto c \<in> toLower ` set (Protocol r) \<longrightarrow> z \<le> x)" for z
    by (auto simp: netVal_def F map_ix.best_addAll)
  have sfx: "(\<exists>k \<in> set (map (\<lambda>s. normDomain (trimPrefix s ''.'')) (DomainSuffix r)). k \<in> set (labelChain (hostOf c)))
      \<longleftrightarrow> (\<exists>s \<in> set (DomainSuffix r). normDomain (trimPrefix s ''.'') \<noteq> [] \<and>
          suffixHit (hostOf c) (normDomain (trimPrefix s ''.'')))"
    unfolding labelChain_iff suffixHit_def by auto
  have dom: "z \<le> domVal e' c \<longleftrightarrow> z \<le> domVal e c \<and>
      (domainHit r (c_dst c) \<or> IsFqdn (c_dst c) \<and> (\<exists>s \<in> set (DomainSuffix r). normDomain (trimPrefix s ''.'') \<noteq> [] \<and>
          suffixHit (hostOf c) (normDomain (trimPrefix s ''.''))) \<longrightarrow> z \<le> x)" for z
  proof (cases "IsFqdn (c_dst c)")
    case True
    have D: "domainHit r (c_dst c) \<longleftrightarrow> (\<exists>d \<in> set (map normDomain (Domain r)). d = hostOf c)
        \<or> (\<exists>k \<in> set (map toLower (DomainKeyword r)). contains (hostOf c) k) \<or> (\<exists>ds \<in> set (GeoSite r). ds (hostOf c))"
      using True by (auto simp: domainHit_def hostOf_def Let_def)
    show ?thesis
      unfolding domVal_def F map_ix.best_addAll chain_ix.best_addAll list_ix.best_addAll sfx if_P [OF True]
        min.bounded_iff le_if_min D
      using True by blast
  qed (simp add: domVal_def domainHit_def)
  have ceq: "pfx_Contains ((pfx_Masked \<circ> the \<circ> ParsePrefix) cc) ip \<longleftrightarrow> (\<exists>p. ParsePrefix cc = Some p \<and> pfx_Contains p ip)"
    if "cc \<in> set (IPCIDR r)" for cc ip
    using F(18) that by force
  have cidr: "(\<exists>p \<in> set (map (pfx_Masked \<circ> the \<circ> ParsePrefix) (IPCIDR r)). \<exists>ip \<in> A. pfx_Contains p ip)
      \<longleftrightarrow> (\<exists>ip \<in> A. \<exists>cc \<in> set (IPCIDR r). \<exists>p. ParsePrefix cc = Some p \<and> pfx_Contains p ip)" for A
    unfolding set_map bex_simps using ceq by blast
  have ip: "z \<le> ipVal e' c \<longleftrightarrow> z \<le> ipVal e c \<and> (ipHit r (c_dst c) (c_ips c) \<longrightarrow> z \<le> x)" for z
    unfolding ipVal_def F list_ix.best_addAll ipHit_def cidr min.bounded_iff le_if_min by blast
  have pr: "z \<le> procVal e' c \<longleftrightarrow> z \<le> procVal e c \<and> (procHit r (procOf c) \<longrightarrow> z \<le> x)" for z
    by (auto simp: procVal_def F map_ix.best_addAll procHit_def split: option.splits)
  have pt: "z \<le> bestAt (e_ports e') (sa_Port (c_dst c)) \<longleftrightarrow> z \<le> bestAt (e_ports e) (sa_Port (c_dst c)) \<and>
      (sa_Port (c_dst c) \<in> set (RPort r) \<longrightarrow> z \<le> x)" for z
    by (auto simp: F map_ix.best_addAll)
  have lg: "logVal e' c = logVal e c"
    by (simp add: logVal_def F)
  show ?thesis
    unfolding topLeafHits_def hostOf_def [symmetric]
    by (rule u32_eq_by_le)
      (unfold totalBest_def min.bounded_iff le_if_min net dom ip pr pt lg, blast)
qed

lemma vals_base:
  "netVal (e\<lparr>e_targets := ts, e_hasIP := b\<rparr>) c = netVal e c"
  "domVal (e\<lparr>e_targets := ts, e_hasIP := b\<rparr>) c = domVal e c"
  "ipVal (e\<lparr>e_targets := ts, e_hasIP := b\<rparr>) c = ipVal e c"
  "procVal (e\<lparr>e_targets := ts, e_hasIP := b\<rparr>) c = procVal e c"
  "logVal (e\<lparr>e_targets := ts, e_hasIP := b\<rparr>) c = logVal e c"
  by (simp_all add: netVal_def domVal_def ipVal_def procVal_def logVal_def split: option.split)

lemma totalBest_base [simp]: "totalBest (e\<lparr>e_targets := ts, e_hasIP := b\<rparr>) c = totalBest e c"
  by (simp add: totalBest_def vals_base)

lemma engineOK_base [simp]: "engineOK (e\<lparr>e_targets := ts, e_hasIP := b\<rparr>) = engineOK e"
  by (simp add: engineOK_def)

lemma vals_logical:
  "netVal (e\<lparr>e_logical := l, e_hasLogical := True\<rparr>) c = netVal e c"
  "domVal (e\<lparr>e_logical := l, e_hasLogical := True\<rparr>) c = domVal e c"
  "ipVal (e\<lparr>e_logical := l, e_hasLogical := True\<rparr>) c = ipVal e c"
  "procVal (e\<lparr>e_logical := l, e_hasLogical := True\<rparr>) c = procVal e c"
  by (simp_all add: netVal_def domVal_def ipVal_def procVal_def split: option.split)

lemma totalBest_logical:
  "totalBest (e\<lparr>e_logical := e_logical e @ [(ev, x)], e_hasLogical := True\<rparr>) c
   = (if fst (ev c) then min x (totalBest e c) else totalBest e c)"
  unfolding totalBest_def vals_logical
  by (simp add: logVal_def bestIn_snoc min.left_commute min.assoc)

lemma compileRule_best:
  assumes "compileRule (i, r) e = Inr e'" "cacheOK c"
  shows "totalBest e' c = (if topHits r c then min (word_of_nat i) (totalBest e c) else totalBest e c)"
proof (cases "Op r = []")
  case True
  with assms(1) have "compileLeaf i (word_of_nat i) (dims r)
      (e\<lparr>e_targets := (e_targets e)[i := To r], e_hasIP := (e_hasIP e \<or> ruleUsesIP r)\<rparr>) = Inr e'"
    by (simp add: compileRule_def Let_def split: if_splits)
  from compileLeaf_best [OF this, of c] True show ?thesis by (simp add: topHits_def)
next
  case False
  define e1 where "e1 = e\<lparr>e_targets := (e_targets e)[i := To r], e_hasIP := (e_hasIP e \<or> ruleUsesIP r)\<rparr>"
  have e': "e' = e1\<lparr>e_logical := e_logical e1 @ [(compileEval r, word_of_nat i)], e_hasLogical := True\<rparr>"
    using assms(1) False unfolding compileRule_def Let_def e1_def
    by (simp split: if_splits option.splits)
  have "totalBest e1 c = totalBest e c" by (simp add: e1_def)
  then show ?thesis
    unfolding e' totalBest_logical using compileEval_spec [OF assms(2), of r] False by (simp add: topHits_def)
qed

lemma fold_putMin_Nil: "fold (\<lambda>k m. putMin m k x) [] m = m"
  by simp

lemma compileLeaf_engineOK:
  assumes "compileLeaf i x r e = Inr e'" "engineOK e"
  shows "engineOK e'"
  using assms(2) unfolding engineOK_def compileLeaf_fields [OF assms(1)] by auto

lemma compileRule_engineOK:
  assumes "compileRule (i, r) e = Inr e'" "engineOK e"
  shows "engineOK e'" "e_targets e' = (e_targets e)[i := To r]" "e_def e' = e_def e"
    "e_hasIP e' = (e_hasIP e \<or> ruleUsesIP r)"
proof -
  define e1 where "e1 = e\<lparr>e_targets := (e_targets e)[i := To r], e_hasIP := (e_hasIP e \<or> ruleUsesIP r)\<rparr>"
  have ok1: "engineOK e1" using assms(2) by (simp add: e1_def)
  have f1: "e_targets e1 = (e_targets e)[i := To r]" "e_def e1 = e_def e"
    "e_hasIP e1 = (e_hasIP e \<or> ruleUsesIP r)" by (simp_all add: e1_def)
  have "engineOK e' \<and> e_targets e' = e_targets e1 \<and> e_def e' = e_def e1 \<and> e_hasIP e' = e_hasIP e1"
  proof (cases "Op r = []")
    case True
    with assms(1) have L: "compileLeaf i (word_of_nat i) (dims r) e1 = Inr e'"
      by (simp add: compileRule_def Let_def e1_def split: if_splits)
    show ?thesis
      using compileLeaf_engineOK [OF L ok1] compileLeaf_fields(15-17) [OF L] by simp
  next
    case False
    have e': "e' = e1\<lparr>e_logical := e_logical e1 @ [(compileEval r, word_of_nat i)], e_hasLogical := True\<rparr>"
      using assms(1) False unfolding compileRule_def Let_def e1_def
      by (simp split: if_splits option.splits)
    show ?thesis using ok1 unfolding e' engineOK_def by auto
  qed
  then show "engineOK e'" "e_targets e' = (e_targets e)[i := To r]" "e_def e' = e_def e"
    "e_hasIP e' = (e_hasIP e \<or> ruleUsesIP r)"
    using f1 by auto
qed

fun firstOrd :: "nat \<Rightarrow> Rule list \<Rightarrow> evalCtx \<Rightarrow> u32" where
  "firstOrd i [] c = ordNone"
| "firstOrd i (r # rs) c = (if topHits r c then word_of_nat i else firstOrd (Suc i) rs c)"

lemma word_of_nat_u32_le: "i \<le> j \<Longrightarrow> j < 2 ^ 32 \<Longrightarrow> (word_of_nat i :: u32) \<le> word_of_nat j"
  by (simp add: word_le_nat_alt unat_of_nat)

lemma firstOrd_ge:
  "i \<le> j \<Longrightarrow> j + length rs \<le> 2 ^ 32 \<Longrightarrow> word_of_nat i \<le> firstOrd j rs c"
  by (induction j rs c rule: firstOrd.induct) (auto intro: word_of_nat_u32_le)

lemma compile_loop:
  assumes "fold_res compileRule (List.enumerate i rs) e = Inr e'" "engineOK e" "cacheOK c"
    and "i + length rs \<le> 2 ^ 32" "i + length rs \<le> length (e_targets e)"
  shows "totalBest e' c = min (totalBest e c) (firstOrd i rs c)
    \<and> engineOK e' \<and> e_def e' = e_def e \<and> (e_hasIP e' \<longleftrightarrow> e_hasIP e \<or> list_ex ruleUsesIP rs)
    \<and> e_targets e' = take i (e_targets e) @ map To rs @ drop (i + length rs) (e_targets e)"
  using assms
proof (induction rs arbitrary: i e)
  case Nil
  then show ?case by simp
next
  case (Cons r rs)
  then obtain e1 where st: "compileRule (i, r) e = Inr e1"
      and rest: "fold_res compileRule (List.enumerate (Suc i) rs) e1 = Inr e'"
    by (auto simp: res_bind_Inr_iff)
  note R = compileRule_engineOK [OF st Cons.prems(2)] and B = compileRule_best [OF st Cons.prems(3)]
  have IH: "totalBest e' c = min (totalBest e1 c) (firstOrd (Suc i) rs c)
    \<and> engineOK e' \<and> e_def e' = e_def e1 \<and> (e_hasIP e' \<longleftrightarrow> e_hasIP e1 \<or> list_ex ruleUsesIP rs)
    \<and> e_targets e' = take (Suc i) (e_targets e1) @ map To rs @ drop (Suc i + length rs) (e_targets e1)"
    by (rule Cons.IH [OF rest R(1) Cons.prems(3)]) (use Cons.prems R(2) in auto)
  have le: "word_of_nat i \<le> firstOrd (Suc i) rs c"
    by (rule firstOrd_ge) (use Cons.prems(4) in auto)
  have "totalBest e' c = min (totalBest e c) (firstOrd i (r # rs) c)"
    using IH B le by (auto simp: min_def)
  moreover have "take (Suc i) (e_targets e1) = take i (e_targets e) @ [To r]"
    using Cons.prems(5) by (simp add: R(2) take_Suc_conv_app_nth)
  moreover have "drop (Suc i + length rs) (e_targets e1) = drop (i + length (r # rs)) (e_targets e)"
    by (simp add: R(2))
  ultimately show ?case using IH R by auto
qed

lemma firstOrd_find:
  assumes "i + length rs < 2 ^ 32"
  shows "(case List.find (\<lambda>r. topHits r c) rs of
      None \<Rightarrow> firstOrd i rs c = ordNone
    | Some r \<Rightarrow> \<exists>k < length rs. rs ! k = r \<and> firstOrd i rs c = word_of_nat (i + k))"
  using assms
proof (induction rs arbitrary: i)
  case (Cons r rs)
  show ?case
  proof (cases "topHits r c")
    case True
    then show ?thesis by force
  next
    case False
    with Cons.IH [of "Suc i"] Cons.prems show ?thesis
      by (auto split: option.splits)
  qed
qed simp

lemma newEngine_best: "totalBest (newEngine n d) c = ordNone" "engineOK (newEngine n d)"
  "e_def (newEngine n d) = d" "e_targets (newEngine n d) = replicate n []" "\<not> e_hasIP (newEngine n d)"
proof -
  have b: "bestChain (\<lambda>_. None) h = ordNone" for h
    unfolding bestChain_def lowerBy_min [abs_def] by (rule fold_invariant [of _ "\<lambda>_. True"]) (simp_all add: bestAt_def)
  show "totalBest (newEngine n d) c = ordNone"
    by (simp add: totalBest_def netVal_def domVal_def ipVal_def procVal_def logVal_def newEngine_def b
        bestAt_def bestIn_def scanBy_def split: option.splits)
qed (simp_all add: newEngine_def engineOK_def)

lemma Compile_engine:
  assumes "Compile rules d = Inr e" "length rules < 2 ^ 32" "cacheOK c"
  shows "totalBest e c = firstOrd 0 rules c" "engineOK e" "e_def e = d" "e_targets e = map To rules"
    "e_hasIP e = list_ex ruleUsesIP rules"
proof -
  from assms(1) have "fold_res compileRule (List.enumerate 0 rules) (newEngine (length rules) d) = Inr e"
    by (simp add: Compile_def split: if_splits)
  from compile_loop [OF this newEngine_best(2) assms(3)] assms(2)
  show "totalBest e c = firstOrd 0 rules c" "engineOK e" "e_def e = d" "e_targets e = map To rules"
    "e_hasIP e = list_ex ruleUsesIP rules"
    by (simp_all add: newEngine_best)
qed

text \<open>
  C1: An engine compiled from a table of fewer than \<open>2 ^ 32\<close> rules routes every connection to the
  target of the first rule of the table that the connection matches, and to the default when it matches
  none: the indexes, the shared minimum and the lazy process lookup compute the naive evaluation.
\<close>

theorem RouteConnIPs_first_match:
  assumes "Compile rules d = Inr e" and "length rules < 2 ^ 32"
  shows "RouteConnIPs e dst ips src network proto finder
    = firstMatch rules d (newCtx dst ips src network proto finder)"
proof -
  let ?c = "newCtx dst ips src network proto finder"
  note E = Compile_engine [OF assms newCtx_cacheOK]
  have F: "case List.find (\<lambda>r. topHits r ?c) rules of
      None \<Rightarrow> firstOrd 0 rules ?c = ordNone
    | Some r \<Rightarrow> \<exists>k < length rules. rules ! k = r \<and> firstOrd 0 rules ?c = word_of_nat k"
    using firstOrd_find [of 0 rules ?c] assms(2) by (simp split: option.splits)
  show ?thesis
  proof (cases "List.find (\<lambda>r. topHits r ?c) rules")
    case None
    with F show ?thesis by (simp add: RouteConnIPs_eq [OF E(2)] E firstMatch_def)
  next
    case (Some r)
    with F obtain k where k: "k < length rules" "rules ! k = r" "firstOrd 0 rules ?c = word_of_nat k"
      by auto
    then have u: "unat (word_of_nat k :: u32) = k" using assms(2) by (simp add: unat_of_nat)
    have "unat ordNone = 2 ^ 32 - 1" by (simp add: ordNone_def)
    with u k(1) assms(2) have "(word_of_nat k :: u32) \<noteq> ordNone" by fastforce
    with Some k u show ?thesis by (simp add: RouteConnIPs_eq [OF E(2)] E firstMatch_def)
  qed
qed

text \<open>A sample table for the witnesses: a domain suffix, a composite rule, a CIDR.\<close>

definition sampleRules :: "Rule list" where
  "sampleRules =
    [Rule (noDims\<lparr>DomainSuffix := [''.example.org'']\<rparr>) [] [] False ''proxy'',
     Rule noDims ''and'' [Rule (noDims\<lparr>RNetwork := [''udp'']\<rparr>) [] [] False [],
                        Rule (noDims\<lparr>RPort := [443]\<rparr>) [] [] False []] False ''block'',
     Rule (noDims\<lparr>IPCIDR := [''10.0.0.0/8'']\<rparr>) [] [] False ''lan'']"

lemma sample_compiles: "\<not> isl (Compile sampleRules ''direct'')"
  by code_simp

theorem RouteConnIPs_first_match_witness:
  "\<exists>e. Compile sampleRules ''direct'' = Inr e \<and> length sampleRules < 2 ^ 32
     \<and> RouteConnIPs e (FromFqdn ''www.Example.org.'' 443) [] \<lparr>ap_addr = AddrZero, ap_port = 0\<rparr> ''udp'' [] None
       = firstMatch sampleRules ''direct'' (newCtx (FromFqdn ''www.Example.org.'' 443) [] \<lparr>ap_addr = AddrZero, ap_port = 0\<rparr> ''udp'' [] None)"
proof -
  obtain e where e: "Compile sampleRules ''direct'' = Inr e"
    using sample_compiles by (cases "Compile sampleRules ''direct''") auto
  have n: "length sampleRules < 2 ^ 32" by (simp add: sampleRules_def)
  show ?thesis using e n RouteConnIPs_first_match [OF e n] by blast
qed

section \<open>Resolution on demand\<close>

lemma procOf_ips [simp]: "procOf (c\<lparr>c_ips := ips\<rparr>) = procOf c"
  by (simp add: procOf_def split: option.split)

lemma leafHits_no_ip:
  "IPCIDR r = [] \<Longrightarrow> GeoIP r = [] \<Longrightarrow> leafHits r (c\<lparr>c_ips := ips\<rparr>) = leafHits r c"
  "IPCIDR r = [] \<Longrightarrow> GeoIP r = [] \<Longrightarrow> topLeafHits r (c\<lparr>c_ips := ips\<rparr>) = topLeafHits r c"
  by (simp_all add: leafHits_def topLeafHits_def ipHit_def)

lemma ruleHits_no_ip: "\<not> ruleUsesIP r \<Longrightarrow> ruleHits r (c\<lparr>c_ips := ips\<rparr>) = ruleHits r c"
  by (induction r c rule: ruleHits.induct) (auto simp: leafHits_no_ip list_ex_iff)

lemma topHits_no_ip: "\<not> ruleUsesIP r \<Longrightarrow> topHits r (c\<lparr>c_ips := ips\<rparr>) = topHits r c"
  by (cases r) (simp add: topHits_def leafHits_no_ip ruleHits_no_ip del: ruleHits.simps)

lemma newCtx_ips: "newCtx dst ips src network proto finder = (newCtx dst [] src network proto finder)\<lparr>c_ips := ips\<rparr>"
  by (simp add: newCtx_def)

text \<open>
  C2: When \<open>HasIPRules\<close> reports that no rule, at any depth, uses an address dimension, the resolved
  addresses of the destination have no influence on the route, so skipping the resolution is sound.
\<close>

theorem no_ip_rules_no_resolution:
  assumes "Compile rules d = Inr e" and "length rules < 2 ^ 32" and "\<not> HasIPRules e"
  shows "RouteConnIPs e dst ips src network proto finder = RouteConn e dst src network proto finder"
proof -
  note E = Compile_engine [OF assms(1,2) newCtx_cacheOK]
  have noip: "\<forall>r \<in> set rules. \<not> ruleUsesIP r"
    using assms(3) E(5) by (simp add: HasIPRules_def list_ex_iff)
  have "firstOrd i rs (newCtx dst ips src network proto finder) = firstOrd i rs (newCtx dst [] src network proto finder)"
    if "\<forall>r \<in> set rs. \<not> ruleUsesIP r" for rs i
    using that by (induction rs arbitrary: i) (simp_all add: newCtx_ips [of dst ips] topHits_no_ip)
  from this [OF noip] show ?thesis
    by (simp add: RouteConn_def RouteConnIPs_eq [OF E(2)] E(1))
qed

theorem no_ip_rules_no_resolution_witness:
  "\<exists>e. Compile (take 2 sampleRules) ''direct'' = Inr e \<and> \<not> HasIPRules e
     \<and> RouteConnIPs e (FromFqdn ''a.b'' 80) [Addr4 0x0a000001] \<lparr>ap_addr = AddrZero, ap_port = 0\<rparr> ''tcp'' [] None
       = RouteConn e (FromFqdn ''a.b'' 80) \<lparr>ap_addr = AddrZero, ap_port = 0\<rparr> ''tcp'' [] None"
proof -
  have "\<not> isl (Compile (take 2 sampleRules) ''direct'')" "\<not> HasIPRules (projr (Compile (take 2 sampleRules) ''direct''))"
    by code_simp+
  then obtain e where e: "Compile (take 2 sampleRules) ''direct'' = Inr e" and h: "\<not> HasIPRules e"
    by (cases "Compile (take 2 sampleRules) ''direct''") auto
  have n: "length (take 2 sampleRules) < 2 ^ 32" by (simp add: sampleRules_def)
  show ?thesis using e h no_ip_rules_no_resolution [OF e n h] by blast
qed

section \<open>Which tables compile\<close>

fun wfComposite :: "Rule \<Rightarrow> bool" where
  "wfComposite (Rule d op sub nt to) =
    ((op = ''and'' \<or> op = ''or'') \<and> sub \<noteq> [] \<and> dimCount d = 0
     \<and> (\<forall>s \<in> set sub. To s = [] \<and> (if Op s \<noteq> [] then wfComposite s else dimCount (dims s) = 1)))"

definition wfRule :: "Rule \<Rightarrow> bool" where
  "wfRule r = (To r \<noteq> [] \<and>
     (if Op r \<noteq> [] then wfComposite r
      else dimCount (dims r) = 1 \<and> (\<forall>c \<in> set (IPCIDR (dims r)). ParsePrefix c \<noteq> None)
        \<and> (\<forall>n \<in> set (RNetwork (dims r)). n = ''tcp'' \<or> n = ''udp'')))"

lemma foldr_checks_None:
  "foldr (\<lambda>s rest. if P s then Some (f s) else if Q s then (case g s of Some e \<Rightarrow> Some e | None \<Rightarrow> rest)
       else if R s then Some (h s) else rest) ss None = None
   \<longleftrightarrow> (\<forall>s \<in> set ss. \<not> P s \<and> (if Q s then g s = None else \<not> R s))"
  by (induction ss) (auto split: option.splits)

lemma validateComposite_iff: "validateComposite r = None \<longleftrightarrow> wfComposite r"
proof (induction r)
  case (Rule d op sub nt to)
  then show ?case by (auto simp: foldr_checks_None)
qed

lemma addCIDRs_total: "(\<exists>ys. addCIDRs i x cs xs = Inr ys) \<longleftrightarrow> (\<forall>c \<in> set cs. ParsePrefix c \<noteq> None)"
  unfolding addCIDRs_def by (induction cs arbitrary: xs) (auto simp: res_bind_Inr_iff split: option.splits)

lemma addNetworks_total: "(\<exists>m'. addNetworks i x ns m = Inr m') \<longleftrightarrow> (\<forall>n \<in> set ns. n = ''tcp'' \<or> n = ''udp'')"
  unfolding addNetworks_def by (induction ns arbitrary: m) (auto simp: res_bind_Inr_iff)

lemma compileLeaf_total:
  "(\<exists>e'. compileLeaf i x r e = Inr e') \<longleftrightarrow>
    (\<forall>c \<in> set (IPCIDR r). ParsePrefix c \<noteq> None) \<and> (\<forall>n \<in> set (RNetwork r). n = ''tcp'' \<or> n = ''udp'')"
  unfolding addCIDRs_total [symmetric, of _ i x "e_cidr e"] addNetworks_total [symmetric, of _ i x "e_netw e"]
  by (cases "addCIDRs i x (IPCIDR r) (e_cidr e)"; cases "addNetworks i x (RNetwork r) (e_netw e)")
    (simp_all add: compileLeaf_def)

lemma compileRule_total: "(\<exists>e'. compileRule (i, r) e = Inr e') \<longleftrightarrow> wfRule r"
  using validateComposite_iff [of r]
  by (auto simp: compileRule_def wfRule_def Let_def compileLeaf_total split: option.split)

lemma compile_loop_total: "(\<exists>e'. fold_res compileRule (List.enumerate i rs) e = Inr e') \<longleftrightarrow> (\<forall>r \<in> set rs. wfRule r)"
proof (induction rs arbitrary: i e)
  case (Cons r rs)
  show ?case
    using compileRule_total [of i r e] Cons.IH [of "Suc i"]
    by (auto simp: res_bind_Inr_iff)
qed simp



section \<open>Leaves at the top level and inside composites\<close>

text \<open>
  The evaluator of a leaf inside a composite decides as the index of the same leaf at the top
  level, when its protocols are written in lower case and no suffix is empty.
\<close>

theorem composite_leaf_agrees:
  assumes "\<forall>pr \<in> set (Protocol r). toLower pr = pr"
    and "\<forall>s \<in> set (DomainSuffix r). normDomain (trimPrefix s ''.'') \<noteq> []" and "cacheOK c"
  shows "fst (matchLeaf r c) = topLeafHits r c"
proof -
  have "toLower ` set (Protocol r) = set (Protocol r)" using assms(1) by force
  then show ?thesis
    using assms(2) matchLeaf_spec [OF assms(3), of r] by (auto simp: leafHits_def topLeafHits_def)
qed

theorem composite_leaf_agrees_witness:
  "fst (matchLeaf (noDims\<lparr>Protocol := [''tls''], DomainSuffix := [''.b'']\<rparr>)
      (newCtx (FromFqdn ''a.b'' 80) [] \<lparr>ap_addr = AddrZero, ap_port = 0\<rparr> ''tcp'' [] None))
   = topLeafHits (noDims\<lparr>Protocol := [''tls''], DomainSuffix := [''.b'']\<rparr>)
      (newCtx (FromFqdn ''a.b'' 80) [] \<lparr>ap_addr = AddrZero, ap_port = 0\<rparr> ''tcp'' [] None)"
proof (rule composite_leaf_agrees)
  have "toLower ''tls'' = ''tls''" "normDomain (trimPrefix ''.b'' ''.'') \<noteq> []" by code_simp+
  then show "\<forall>pr \<in> set (Protocol (noDims\<lparr>Protocol := [''tls''], DomainSuffix := [''.b'']\<rparr>)). toLower pr = pr"
    "\<forall>s \<in> set (DomainSuffix (noDims\<lparr>Protocol := [''tls''], DomainSuffix := [''.b'']\<rparr>)).
      normDomain (trimPrefix s ''.'') \<noteq> []"
    by (simp_all add: noDims_def)
qed simp

text \<open>
  C4: The case of a protocol name matters inside a composite and not outside: \<open>protocol: [TLS]\<close> at the
  top level matches a sniffed TLS connection, and the same leaf as the only operand of a conjunction does
  not.
\<close>

theorem composite_protocol_case:
  "RouteConn (projr (Compile [Rule (noDims\<lparr>Protocol := [''TLS'']\<rparr>) [] [] False ''a''] ''d''))
     (FromFqdn ''x.y'' 443) \<lparr>ap_addr = AddrZero, ap_port = 0\<rparr> ''tcp'' ''tls'' None = ''a''
   \<and> RouteConn (projr (Compile [Rule noDims ''and'' [Rule (noDims\<lparr>Protocol := [''TLS'']\<rparr>) [] [] False []] False ''a''] ''d''))
     (FromFqdn ''x.y'' 443) \<lparr>ap_addr = AddrZero, ap_port = 0\<rparr> ''tcp'' ''tls'' None = ''d''"
  by code_simp

end
