(* ===== verification/LayerStack.thy ===== *)
theory LayerStack
  imports Prelude "HOL-Library.Multiset"
begin

text \<open>
  Layer stacks: the plugin registry (\<open>core/registry\<close>), the compiler that orders a set of layers
  and checks their adjacency (\<open>core/compile\<close>), and the builder of inbound and outbound stacks
  (\<open>service/stack.go\<close>).  A plugin's parser and builder are fields of its descriptor; what a built
  object implements is a record of the interfaces the builder asserts.
\<close>

section \<open>Descriptors and the registry\<close>

datatype Sort = SortStream | SortPacket | SortSession | SortDevice

datatype ReloadClass = ReloadInPlace | ReloadDrain | ReloadHard

text \<open>The interfaces a built layer object implements.\<close>

record Built =
  asBaseTransport :: bool
  asStreamTransport :: bool
  asServer :: bool
  asClient :: bool
  asCredentialCodec :: "(string \<Rightarrow> (string, bytes) result) option"

record ('n, 'c) Descriptor =
  Name :: string
  Display :: string
  Band :: u8
  In :: "Sort list"
  Out :: Sort
  Requires :: "u16 list"
  RequiresAdjacent :: "u16 list"
  Provides :: "u16 list"
  Reload :: ReloadClass
  Parse :: "('n \<Rightarrow> (string, 'c) result) option"
  Build :: "('c \<Rightarrow> (string, Built) result) option"

record Session =
  s_Name :: string
  s_NewOutbound :: bool
  s_NewInbound :: bool
  s_NewHandler :: bool

record ('n, 'c) registry =
  reg_m :: "string \<Rightarrow> ('n, 'c) Descriptor option"
  reg_sessions :: "string \<Rightarrow> Session option"

datatype panic = MissingField | DuplicateDescriptor string | DescriptorIsSession string
  | SessionMissing | SessionTwoInbounds string | DuplicateSession string | SessionIsDescriptor string

definition Make :: "('n, 'c) Descriptor \<Rightarrow> (panic, ('n, 'c) Descriptor) result" where
  "Make d = (if Name d = [] \<or> Parse d = None \<or> Build d = None then Inl MissingField else Inr d)"

definition Register :: "('n, 'c) Descriptor \<Rightarrow> ('n, 'c) registry \<Rightarrow> (panic, ('n, 'c) registry) result" where
  "Register d reg = res_bind (Make d) (\<lambda>e.
     if reg_m reg (Name e) \<noteq> None then Inl (DuplicateDescriptor (Name e))
     else if reg_sessions reg (Name e) \<noteq> None then Inl (DescriptorIsSession (Name e))
     else Inr (reg\<lparr>reg_m := (reg_m reg)(Name e \<mapsto> e)\<rparr>))"

definition RegisterSession :: "Session \<Rightarrow> ('n, 'c) registry \<Rightarrow> (panic, ('n, 'c) registry) result" where
  "RegisterSession s reg =
    (if s_Name s = [] \<or> (\<not> s_NewOutbound s \<and> \<not> s_NewInbound s \<and> \<not> s_NewHandler s) then Inl SessionMissing
     else if s_NewInbound s \<and> s_NewHandler s then Inl (SessionTwoInbounds (s_Name s))
     else if reg_sessions reg (s_Name s) \<noteq> None then Inl (DuplicateSession (s_Name s))
     else if reg_m reg (s_Name s) \<noteq> None then Inl (SessionIsDescriptor (s_Name s))
     else Inr (reg\<lparr>reg_sessions := (reg_sessions reg)(s_Name s \<mapsto> s)\<rparr>))"

definition HasInbound :: "Session \<Rightarrow> bool" where
  "HasInbound s = (s_NewInbound s \<or> s_NewHandler s)"

definition Lookup :: "('n, 'c) registry \<Rightarrow> string \<Rightarrow> ('n, 'c) Descriptor option" where
  "Lookup reg name = reg_m reg name"

definition LookupSession :: "('n, 'c) registry \<Rightarrow> string \<Rightarrow> Session option" where
  "LookupSession reg name = reg_sessions reg name"

section \<open>compile.Order\<close>

datatype order_err = ErrEmptyStack | ErrBandConflict string string | ErrShapeAdjacency string string
  | ErrCapAdjacency string u16 | ErrCapMissing string u16

fun bandConflict :: "('n, 'c) Descriptor list \<Rightarrow> order_err option" where
  "bandConflict (a # b # ds) =
    (if Band b = Band a then Some (ErrBandConflict (Name a) (Name b)) else bandConflict (b # ds))"
| "bandConflict ds = None"

definition shapeBad :: "('n, 'c) Descriptor option \<Rightarrow> ('n, 'c) Descriptor \<Rightarrow> bool" where
  "shapeBad lower layer =
    (case lower of None \<Rightarrow> False | Some d \<Rightarrow> In layer \<noteq> [] \<and> Out d \<notin> set (In layer))"

definition adjacentMissing :: "('n, 'c) Descriptor option \<Rightarrow> u16 \<Rightarrow> bool" where
  "adjacentMissing lower i = (case lower of None \<Rightarrow> True | Some d \<Rightarrow> i \<notin> set (Provides d))"

fun checkLayers ::
  "('n, 'c) Descriptor option \<Rightarrow> u16 set \<Rightarrow> ('n, 'c) Descriptor list \<Rightarrow> order_err option" where
  "checkLayers lower provided [] = None"
| "checkLayers lower provided (layer # rest) =
    (if shapeBad lower layer then Some (ErrShapeAdjacency (Name (the lower)) (Name layer))
     else case List.find (adjacentMissing lower) (RequiresAdjacent layer) of
       Some i \<Rightarrow> Some (ErrCapAdjacency (Name layer) i)
     | None \<Rightarrow>
         (case List.find (\<lambda>i. i \<notin> provided) (Requires layer) of
            Some i \<Rightarrow> Some (ErrCapMissing (Name layer) i)
          | None \<Rightarrow> checkLayers (Some layer) (provided \<union> set (Provides layer)) rest))"

definition Order :: "('n, 'c) Descriptor list \<Rightarrow> (order_err, ('n, 'c) Descriptor list) result" where
  "Order layers =
    (if layers = [] then Inl ErrEmptyStack
     else
       (let sorted = sort_key Band layers in
        case bandConflict sorted of
          Some e \<Rightarrow> Inl e
        | None \<Rightarrow> (case checkLayers None {} sorted of Some e \<Rightarrow> Inl e | None \<Rightarrow> Inr sorted)))"

section \<open>service.buildStack\<close>

datatype build_err = EmptyLayers | UnknownLayer string | DuplicateLayer string | OrderErr order_err
  | ParseErr string string | BuildErr string string | NotTransport string
  | TopNotServer | TopNotClient | ClientKeyErr string

fun resolveLayers ::
  "('n, 'c) registry \<Rightarrow> (string \<times> 'n) list \<Rightarrow> ('n, 'c) Descriptor list \<Rightarrow> (string \<Rightarrow> 'n option)
    \<Rightarrow> (build_err, ('n, 'c) Descriptor list \<times> (string \<Rightarrow> 'n option)) result" where
  "resolveLayers reg [] descs node = Inr (descs, node)"
| "resolveLayers reg ((name, nd) # ls) descs node =
    (case Lookup reg name of
       None \<Rightarrow> Inl (UnknownLayer name)
     | Some d \<Rightarrow>
         if node name \<noteq> None then Inl (DuplicateLayer name)
         else resolveLayers reg ls (descs @ [d]) (node(name \<mapsto> nd)))"

definition buildLayer :: "(string \<Rightarrow> 'n option) \<Rightarrow> ('n, 'c) Descriptor \<Rightarrow> (build_err, Built) result" where
  "buildLayer node d =
    (case the (Parse d) (the (node (Name d))) of
       Inl e \<Rightarrow> Inl (ParseErr (Name d) e)
     | Inr cfg \<Rightarrow>
         (case the (Build d) cfg of Inl e \<Rightarrow> Inl (BuildErr (Name d) e) | Inr b \<Rightarrow> Inr b))"

text \<open>The loop from the bottom to the top; \<open>first\<close> holds in the first iteration.\<close>

fun buildLayers ::
  "(string \<Rightarrow> 'n option) \<Rightarrow> bool \<Rightarrow> Built option \<Rightarrow> Built list \<Rightarrow> ('n, 'c) Descriptor list
    \<Rightarrow> (build_err, Built option \<times> Built list \<times> Built option) result" where
  "buildLayers node first base below [] = Inr (base, below, None)"
| "buildLayers node first base below (d # ds) =
    res_bind (buildLayer node d) (\<lambda>built.
      if ds = [] then Inr (base, below, Some built)
      else if first \<and> asBaseTransport built then buildLayers node False (Some built) below ds
      else if \<not> asStreamTransport built then Inl (NotTransport (Name d))
      else buildLayers node False base (below @ [built]) ds)"

definition buildStack ::
  "('n, 'c) registry \<Rightarrow> (string \<times> 'n) list \<Rightarrow> (build_err, Built option \<times> Built list \<times> Built option) result" where
  "buildStack reg layers =
    (if layers = [] then Inl EmptyLayers
     else res_bind (resolveLayers reg layers [] (\<lambda>_. None)) (\<lambda>(descs, node).
       case Order descs of
         Inl e \<Rightarrow> Inl (OrderErr e)
       | Inr ordered \<Rightarrow> buildLayers node True None [] ordered))"

definition BuildInbound ::
  "('n, 'c) registry \<Rightarrow> (string \<times> 'n) list \<Rightarrow> (build_err, (Built list \<times> Built) \<times> Built option) result" where
  "BuildInbound reg layers =
    res_bind (buildStack reg layers) (\<lambda>(base, below, top).
      case top of
        Some srv \<Rightarrow> if asServer srv then Inr ((below, srv), base) else Inl TopNotServer
      | None \<Rightarrow> Inl TopNotServer)"

definition BuildOutbound ::
  "('n, 'c) registry \<Rightarrow> (string \<times> 'n) list \<Rightarrow> string
    \<Rightarrow> (build_err, Built list \<times> Built \<times> bytes \<times> Built option) result" where
  "BuildOutbound reg layers secret =
    res_bind (buildStack reg layers) (\<lambda>(base, below, top).
      case top of
        Some cli \<Rightarrow>
          if asClient cli then
            (case asCredentialCodec cli of
               None \<Rightarrow> Inr (below, cli, bytes_of_string secret, base)
             | Some cc \<Rightarrow>
                 (case cc secret of Inl e \<Rightarrow> Inl (ClientKeyErr e) | Inr k \<Rightarrow> Inr (below, cli, k, base)))
          else Inl TopNotClient
      | None \<Rightarrow> Inl TopNotClient)"

section \<open>Ordering is determined by the bands\<close>

definition layerOK :: "('n, 'c) Descriptor list \<Rightarrow> nat \<Rightarrow> bool" where
  "layerOK s i =
    ((0 < i \<and> In (s ! i) \<noteq> [] \<longrightarrow> Out (s ! (i - 1)) \<in> set (In (s ! i)))
     \<and> (\<forall>c \<in> set (RequiresAdjacent (s ! i)). 0 < i \<and> c \<in> set (Provides (s ! (i - 1))))
     \<and> (\<forall>c \<in> set (Requires (s ! i)). \<exists>j < i. c \<in> set (Provides (s ! j))))"

definition validStack :: "('n, 'c) Descriptor list \<Rightarrow> bool" where
  "validStack s = (s \<noteq> [] \<and> sorted_wrt (<) (map Band s) \<and> (\<forall>i < length s. layerOK s i))"

lemma bandConflict_None: "sorted (map Band ds) \<Longrightarrow> bandConflict ds = None \<longleftrightarrow> sorted_wrt (<) (map Band ds)"
proof (induction ds rule: bandConflict.induct)
  case (1 a b ds)
  then show ?case by (auto simp: less_le_trans order.strict_iff_order)
qed auto

lemma all_from_step:
  "n < m \<Longrightarrow> (\<forall>i. n \<le> i \<and> i < m \<longrightarrow> P i) \<longleftrightarrow> P n \<and> (\<forall>i. Suc n \<le> i \<and> i < m \<longrightarrow> P i)" for n m :: nat
  using le_eq_less_or_eq [of n] Suc_le_eq [of n] by auto

text \<open>\<open>pre\<close> are the layers below; the loop checks the rest against them.\<close>

lemma checkLayers_None:
  assumes "lower = (if pre = [] then None else Some (last pre))"
    and "provided = (\<Union>d \<in> set pre. set (Provides d))"
  shows "checkLayers lower provided ds = None \<longleftrightarrow>
    (\<forall>i. length pre \<le> i \<and> i < length (pre @ ds) \<longrightarrow> layerOK (pre @ ds) i)"
  using assms
proof (induction ds arbitrary: pre lower provided)
  case Nil
  then show ?case by (simp add: not_less [symmetric])
next
  case (Cons d ds)
  let ?s = "pre @ d # ds"
  have prev: "?s ! (length pre - 1) = last pre" if "pre \<noteq> []"
    using that by (simp add: nth_append last_conv_nth)
  have reach: "(\<exists>j < length pre. c \<in> set (Provides (?s ! j))) \<longleftrightarrow> c \<in> provided" for c
  proof -
    have "(\<exists>j < length pre. c \<in> set (Provides (?s ! j))) \<longleftrightarrow> (\<exists>j < length pre. c \<in> set (Provides (pre ! j)))"
      by (rule ex_cong) (simp add: nth_append)
    then show ?thesis unfolding Cons.prems(2) set_conv_nth [of pre] by blast
  qed
  have here: "layerOK ?s (length pre) \<longleftrightarrow> \<not> shapeBad lower d
      \<and> List.find (adjacentMissing lower) (RequiresAdjacent d) = None
      \<and> List.find (\<lambda>i. i \<notin> provided) (Requires d) = None"
    unfolding layerOK_def reach find_None_iff using prev Cons.prems(1)
    by (cases "pre = []") (auto simp: shapeBad_def adjacentMissing_def)
  have split: "(\<forall>i. length pre \<le> i \<and> i < length ?s \<longrightarrow> layerOK ?s i) \<longleftrightarrow>
      layerOK ?s (length pre) \<and> (\<forall>i. length (pre @ [d]) \<le> i \<and> i < length ((pre @ [d]) @ ds) \<longrightarrow> layerOK ((pre @ [d]) @ ds) i)"
    using all_from_step [of "length pre" "length ?s" "layerOK ?s"] by simp
  have IH: "checkLayers (Some d) (provided \<union> set (Provides d)) ds = None \<longleftrightarrow>
      (\<forall>i. length (pre @ [d]) \<le> i \<and> i < length ((pre @ [d]) @ ds) \<longrightarrow> layerOK ((pre @ [d]) @ ds) i)"
    by (rule Cons.IH) (use Cons.prems in auto)
  show ?case unfolding split here IH [symmetric] by (auto split: option.split)
qed

lemma Order_Inr: "Order layers = Inr s \<longleftrightarrow> s = sort_key Band layers \<and> validStack s"
proof -
  let ?s = "sort_key Band layers"
  have c: "checkLayers None {} ?s = None \<longleftrightarrow> (\<forall>i < length ?s. layerOK ?s i)"
    using checkLayers_None [of None "[]" "{}" ?s] by simp
  have b: "bandConflict ?s = None \<longleftrightarrow> sorted_wrt (<) (map Band ?s)"
    by (rule bandConflict_None) simp
  have e: "?s = [] \<longleftrightarrow> layers = []" by (metis length_0_conv length_sort)
  show ?thesis
    unfolding Order_def Let_def validStack_def using c b e by (auto split: option.splits)
qed

lemma sorted_bands_unique:
  assumes "mset s = mset t" "sorted_wrt (<) (map Band s)" "sorted (map Band t)"
  shows "s = t"
proof -
  have d: "inj_on Band (set s)"
    using assms(2) strict_sorted_iff distinct_map by (metis strict_sorted_imp_sorted)
  have "sort (map Band t) = map Band s"
    by (rule properties_for_sort) (use assms(1,2) strict_sorted_imp_sorted in auto)
  then have "map Band s = map Band t" using assms(3) by (simp add: sorted_sort_id)
  moreover have "set s = set t" using assms(1) mset_eq_setD by blast
  ultimately show ?thesis using d by (metis inj_on_map_eq_map sup.idem)
qed

text \<open>
  C3: The compiler of a layer set succeeds with a stack exactly when that stack is a rearrangement of
  the set in strictly increasing band order in which every layer accepts the shape of the layer below
  it, finds each capability it needs adjacently in the layer directly below, and finds each capability
  it needs in some layer below.
\<close>

theorem Order_iff:
  "Order layers = Inr s \<longleftrightarrow> mset s = mset layers \<and> validStack s"
proof
  assume "Order layers = Inr s"
  then show "mset s = mset layers \<and> validStack s" by (auto simp: Order_Inr)
next
  assume a: "mset s = mset layers \<and> validStack s"
  then have "s = sort_key Band layers"
    by (intro sorted_bands_unique) (auto simp: validStack_def)
  with a show "Order layers = Inr s" by (simp add: Order_Inr)
qed

text \<open>
  The order in which the layers are written has no influence: two listings of the same layers
  compile to the same stack.
\<close>

theorem Order_ignores_writing_order:
  assumes "mset layers = mset layers'"
  shows "Order layers = Inr s \<longleftrightarrow> Order layers' = Inr s"
proof -
  have "Order l' = Inr s" if "mset l = mset l'" "Order l = Inr s" for l l' :: "('a, 'b) Descriptor list"
  proof -
    from that have "validStack s" "mset s = mset l'" by (auto simp: Order_Inr)
    moreover from this have "s = sort_key Band l'"
      by (intro sorted_bands_unique) (auto simp: validStack_def)
    ultimately show ?thesis by (simp add: Order_Inr)
  qed
  then show ?thesis using assms by metis
qed

section \<open>The registry\<close>

definition descOK :: "string \<Rightarrow> ('n, 'c) Descriptor \<Rightarrow> bool" where
  "descOK n d = (Name d = n \<and> n \<noteq> [] \<and> Parse d \<noteq> None \<and> Build d \<noteq> None)"

definition sessOK :: "string \<Rightarrow> Session \<Rightarrow> bool" where
  "sessOK n s = (s_Name s = n \<and> n \<noteq> [] \<and> (s_NewOutbound s \<or> HasInbound s) \<and> \<not> (s_NewInbound s \<and> s_NewHandler s))"

definition regOK :: "('n, 'c) registry \<Rightarrow> bool" where
  "regOK reg = (\<forall>n.
     pred_option (descOK n) (reg_m reg n) \<and> pred_option (sessOK n) (reg_sessions reg n)
     \<and> (reg_m reg n = None \<or> reg_sessions reg n = None))"

definition emptyRegistry :: "('n, 'c) registry" where
  "emptyRegistry = \<lparr> reg_m = (\<lambda>_. None), reg_sessions = (\<lambda>_. None) \<rparr>"

text \<open>The registries the \<open>init\<close> functions of the plugins can build: no panic on the way.\<close>

inductive registered :: "('n, 'c) registry \<Rightarrow> bool" where
  reg_start: "registered emptyRegistry"
| reg_layer: "registered reg \<Longrightarrow> Register d reg = Inr reg' \<Longrightarrow> registered reg'"
| reg_session: "registered reg \<Longrightarrow> RegisterSession s reg = Inr reg' \<Longrightarrow> registered reg'"

lemma regOK_Register: "regOK reg \<Longrightarrow> Register d reg = Inr reg' \<Longrightarrow> regOK reg'"
  by (auto simp: Register_def Make_def regOK_def descOK_def [of "Name d" d] split: if_splits)
    (metis option.distinct(1))

lemma regOK_RegisterSession: "regOK reg \<Longrightarrow> RegisterSession s reg = Inr reg' \<Longrightarrow> regOK reg'"
  by (auto simp: RegisterSession_def regOK_def sessOK_def [of "s_Name s" s] HasInbound_def split: if_splits)

lemma regOK_Lookup: "regOK reg \<Longrightarrow> Lookup reg n = Some d \<Longrightarrow> descOK n d \<and> LookupSession reg n = None"
  unfolding regOK_def Lookup_def LookupSession_def by (metis option.distinct(1) option.pred_inject(2))

lemma regOK_LookupSession: "regOK reg \<Longrightarrow> LookupSession reg n = Some s \<Longrightarrow> sessOK n s \<and> Lookup reg n = None"
  unfolding regOK_def Lookup_def LookupSession_def by (metis option.distinct(1) option.pred_inject(2))

lemma registered_regOK: "registered reg \<Longrightarrow> regOK reg"
proof (induction rule: registered.induct)
  case reg_start
  then show ?case by (simp add: regOK_def emptyRegistry_def)
qed (auto intro: regOK_Register regOK_RegisterSession)

text \<open>
  In every registry the plugins can build without a panic, a name finds a descriptor of that name
  with a parser and a builder, or a session of that name, and never both.
\<close>

theorem registry_names:
  assumes "registered reg"
  shows "(Lookup reg n = Some d \<longrightarrow> Name d = n \<and> Parse d \<noteq> None \<and> Build d \<noteq> None \<and> LookupSession reg n = None)
    \<and> (LookupSession reg n = Some s \<longrightarrow> s_Name s = n \<and> (s_NewOutbound s \<or> HasInbound s) \<and> Lookup reg n = None)"
  using regOK_Lookup [OF registered_regOK [OF assms], of n d]
    regOK_LookupSession [OF registered_regOK [OF assms], of n s]
  by (auto simp: descOK_def sessOK_def)

section \<open>Built stacks\<close>

lemma resolveLayers_ok:
  assumes "regOK reg"
  shows "resolveLayers reg ls descs node = Inr (descs', node') \<Longrightarrow>
    \<exists>new. descs' = descs @ new \<and> map (Lookup reg) (map fst ls) = map Some new \<and> map Name new = map fst ls
      \<and> (\<forall>n x. (n, x) \<in> set ls \<longrightarrow> node' n = Some x) \<and> (\<forall>n. node n \<noteq> None \<longrightarrow> node' n = node n)"
proof (induction ls arbitrary: descs node)
  case (Cons l ls)
  obtain name nd where l: "l = (name, nd)" by (cases l)
  from Cons.prems obtain d where d: "Lookup reg name = Some d" "node name = None"
      and rest: "resolveLayers reg ls (descs @ [d]) (node(name \<mapsto> nd)) = Inr (descs', node')"
    by (auto simp: l split: option.splits if_splits)
  from Cons.IH [OF rest] obtain new where new: "descs' = (descs @ [d]) @ new"
      "map (Lookup reg) (map fst ls) = map Some new" "map Name new = map fst ls"
      "\<forall>n x. (n, x) \<in> set ls \<longrightarrow> node' n = Some x" "\<forall>n. (node(name \<mapsto> nd)) n \<noteq> None \<longrightarrow> node' n = (node(name \<mapsto> nd)) n"
    by blast
  have nm: "Name d = name" using regOK_Lookup [OF assms d(1)] by (simp add: descOK_def)
  have "node' name = Some nd" "\<forall>n. node n \<noteq> None \<longrightarrow> node' n = node n"
    using new(5) d(2) by (auto split: if_splits)
  with new nm d(1) l show ?case by (intro exI [of _ "d # new"]) auto
qed simp

lemma buildLayers_ok:
  "buildLayers node first base below ds = Inr (base', below', tp) \<Longrightarrow> ds \<noteq> [] \<Longrightarrow>
    \<exists>bs. map (buildLayer node) ds = map Inr bs \<and> tp = Some (last bs)
      \<and> (if first \<and> 2 \<le> length bs \<and> asBaseTransport (hd bs)
         then base' = Some (hd bs) \<and> below' = below @ tl (butlast bs) \<and> list_all asStreamTransport (tl (butlast bs))
         else base' = base \<and> below' = below @ butlast bs \<and> list_all asStreamTransport (butlast bs))"
proof (induction ds arbitrary: first base below)
  case (Cons d ds)
  from Cons.prems(1) obtain b where b: "buildLayer node d = Inr b"
    by (auto simp: res_bind_Inr_iff)
  show ?case
  proof (cases "ds = []")
    case True
    with Cons.prems b show ?thesis by (intro exI [of _ "[b]"]) auto
  next
    case False
    define base1 where "base1 = (if first \<and> asBaseTransport b then Some b else base)"
    define below1 where "below1 = (if first \<and> asBaseTransport b then below else below @ [b])"
    have st: "(first \<and> asBaseTransport b) \<or> asStreamTransport b"
      and rest: "buildLayers node False base1 below1 ds = Inr (base', below', tp)"
      using Cons.prems(1) b False by (auto simp: base1_def below1_def split: if_splits)
    from Cons.IH [OF rest False] obtain bs where bs: "map (buildLayer node) ds = map Inr bs" "tp = Some (last bs)"
        "base' = base1" "below' = below1 @ butlast bs" "list_all asStreamTransport (butlast bs)"
      by auto
    have ne: "bs \<noteq> []" using bs(1) False by auto
    then have "2 \<le> length (b # bs)" by (cases bs) auto
    with bs b st ne show ?thesis
      by (intro exI [of _ "b # bs"]) (auto simp: base1_def below1_def)
  qed
qed simp

text \<open>What a built stack is: every layer built from its own node, in band order.\<close>

definition stackOf ::
  "('n, 'c) registry \<Rightarrow> (string \<times> 'n) list \<Rightarrow> ('n, 'c) Descriptor list \<Rightarrow> Built list \<Rightarrow> bool" where
  "stackOf reg layers ordered bs =
    (validStack ordered \<and> mset (map Name ordered) = mset (map fst layers)
     \<and> list_all2 (\<lambda>d b. Lookup reg (Name d) = Some d
          \<and> (\<exists>x cfg. (Name d, x) \<in> set layers \<and> the (Parse d) x = Inr cfg \<and> the (Build d) cfg = Inr b)) ordered bs)"

text \<open>
  C4: A stack that \<open>buildStack\<close> returns consists of the objects built from every named
  layer and its own node, in a valid band order: the last one is the terminal, the first one is the
  base transport when it is one, and all between are stream transports.
\<close>

theorem buildStack_correct:
  assumes "registered reg" and "buildStack reg layers = Inr (base, below, tp)"
  shows "\<exists>ordered bs. stackOf reg layers ordered bs \<and> tp = Some (last bs)
    \<and> (if 2 \<le> length bs \<and> asBaseTransport (hd bs)
       then base = Some (hd bs) \<and> below = tl (butlast bs) \<and> list_all asStreamTransport (tl (butlast bs))
       else base = None \<and> below = butlast bs \<and> list_all asStreamTransport (butlast bs))"
proof -
  have ok: "regOK reg" by (rule registered_regOK [OF assms(1)])
  from assms(2) obtain descs node where
      r: "resolveLayers reg layers [] (\<lambda>_. None) = Inr (descs, node)"
      and rest: "(case Order descs of Inl e \<Rightarrow> Inl (OrderErr e)
        | Inr ordered \<Rightarrow> buildLayers node True None [] ordered) = Inr (base, below, tp)"
    by (auto simp: buildStack_def res_bind_Inr_iff split: if_splits)
  from rest obtain ordered where o: "Order descs = Inr ordered"
      and b: "buildLayers node True None [] ordered = Inr (base, below, tp)"
    by (cases "Order descs") auto
  from resolveLayers_ok [OF ok r] have look: "map (Lookup reg) (map fst layers) = map Some descs"
      and names: "map Name descs = map fst layers" and nodes: "\<And>n x. (n, x) \<in> set layers \<Longrightarrow> node n = Some x"
    by auto
  from o have ord: "ordered = sort_key Band descs" and valid: "validStack ordered" by (auto simp: Order_Inr)
  then have ms: "mset ordered = mset descs" by simp
  from valid have "ordered \<noteq> []" by (simp add: validStack_def)
  from buildLayers_ok [OF b this] obtain bs where bs: "map (buildLayer node) ordered = map Inr bs" "tp = Some (last bs)"
      "if 2 \<le> length bs \<and> asBaseTransport (hd bs)
       then base = Some (hd bs) \<and> below = tl (butlast bs) \<and> list_all asStreamTransport (tl (butlast bs))
       else base = None \<and> below = butlast bs \<and> list_all asStreamTransport (butlast bs)"
    by auto
  have each: "Lookup reg (Name d) = Some d \<and> (\<exists>x. (Name d, x) \<in> set layers \<and> node (Name d) = Some x)"
    if "d \<in> set ordered" for d
  proof -
    have d: "d \<in> set descs" using that ms mset_eq_setD by blast
    then have "Some d \<in> set (map (Lookup reg) (map fst layers))" by (simp only: look) simp
    then obtain n x where nx: "(n, x) \<in> set layers" "Lookup reg n = Some d" by force
    then have "Name d = n" using regOK_Lookup [OF ok] by (auto simp: descOK_def)
    with nx nodes show ?thesis by blast
  qed
  have bl: "\<exists>x cfg. (Name d, x) \<in> set layers \<and> the (Parse d) x = Inr cfg \<and> the (Build d) cfg = Inr y"
    if "d \<in> set ordered" "buildLayer node d = Inr y" for d y
    using each [OF that(1)] that(2) by (auto simp: buildLayer_def split: sum.splits)
  have "list_all2 (\<lambda>d b. buildLayer node d = Inr b) ordered bs"
    using bs(1) by (simp add: list_all2_conv_all_nth) (metis length_map nth_map)
  then have l2: "list_all2 (\<lambda>d b. Lookup reg (Name d) = Some d
          \<and> (\<exists>x cfg. (Name d, x) \<in> set layers \<and> the (Parse d) x = Inr cfg \<and> the (Build d) cfg = Inr b)) ordered bs"
    by (rule list.rel_mono_strong) (use each bl in blast)
  have "mset (map Name ordered) = mset (map fst layers)" using ms names by (metis mset_map)
  with valid l2 have "stackOf reg layers ordered bs" by (simp add: stackOf_def)
  with bs show ?thesis by blast
qed

section \<open>A sample stack\<close>

text \<open>TLS (band 20, provides capability 7, the secure carrier) under Trojan (band 60, requires it).\<close>

definition sampleLayer :: "string \<Rightarrow> u8 \<Rightarrow> Sort list \<Rightarrow> u16 list \<Rightarrow> u16 list \<Rightarrow> bool \<Rightarrow> (unit, unit) Descriptor" where
  "sampleLayer name band i reqs provs isTop =
    \<lparr> Name = name, Display = name, Band = band, In = i, Out = SortStream, Requires = reqs,
      RequiresAdjacent = [], Provides = provs, Reload = ReloadDrain, Parse = Some Inr,
      Build = Some (\<lambda>_. Inr \<lparr> asBaseTransport = False, asStreamTransport = \<not> isTop, asServer = isTop,
        asClient = isTop, asCredentialCodec = None \<rparr>) \<rparr>"

definition sampleTLS :: "(unit, unit) Descriptor" where
  "sampleTLS = sampleLayer ''tls'' 20 [SortStream] [] [7] False"

definition sampleTrojan :: "(unit, unit) Descriptor" where
  "sampleTrojan = sampleLayer ''trojan'' 60 [SortStream] [7] [] True"

definition sampleReg :: "(unit, unit) registry" where
  "sampleReg = projr (res_bind (Register sampleTLS emptyRegistry) (Register sampleTrojan))"

lemmas sample_defs = sampleReg_def sampleTLS_def sampleTrojan_def sampleLayer_def emptyRegistry_def
  Register_def Make_def

lemma sampleReg_registered: "registered sampleReg"
proof -
  have "Register sampleTLS emptyRegistry = Inr (projr (Register sampleTLS emptyRegistry))"
    by (simp add: sample_defs)
  moreover have "Register sampleTrojan (projr (Register sampleTLS emptyRegistry)) = Inr sampleReg"
    by (simp add: sample_defs)
  ultimately show ?thesis by (meson reg_layer reg_start)
qed

theorem Order_ignores_writing_order_witness:
  "mset [sampleTrojan, sampleTLS] = mset [sampleTLS, sampleTrojan]
   \<and> Order [sampleTLS, sampleTrojan] = Inr [sampleTLS, sampleTrojan]
   \<and> Order [sampleTrojan, sampleTLS] = Inr [sampleTLS, sampleTrojan]"
proof -
  have m: "mset [sampleTrojan, sampleTLS] = mset [sampleTLS, sampleTrojan]" by simp
  have "Order [sampleTLS, sampleTrojan] = Inr [sampleTLS, sampleTrojan]"
    by (simp add: Order_def Let_def sample_defs shapeBad_def)
  with m show ?thesis using Order_ignores_writing_order [OF m] by blast
qed

theorem registry_names_witness:
  "registered sampleReg \<and> Lookup sampleReg ''tls'' = Some sampleTLS \<and> LookupSession sampleReg ''tls'' = None"
proof -
  have l: "Lookup sampleReg ''tls'' = Some sampleTLS" by (simp add: Lookup_def sample_defs)
  with registry_names [OF sampleReg_registered, of "''tls''" sampleTLS] sampleReg_registered
  show ?thesis by blast
qed

theorem buildStack_correct_witness:
  "\<exists>base below tp. buildStack sampleReg [(''trojan'', ()), (''tls'', ())] = Inr (base, below, tp)
     \<and> (\<exists>ordered bs. stackOf sampleReg [(''trojan'', ()), (''tls'', ())] ordered bs \<and> tp = Some (last bs))"
proof -
  have "\<not> isl (buildStack sampleReg [(''trojan'', ()), (''tls'', ())])" by code_simp
  then obtain base below tp where b: "buildStack sampleReg [(''trojan'', ()), (''tls'', ())] = Inr (base, below, tp)"
    by (cases "buildStack sampleReg [(''trojan'', ()), (''tls'', ())]") auto
  with buildStack_correct [OF sampleReg_registered b] show ?thesis by blast
qed

end
