(* ===== verification/Alists.thy ===== *)
theory Alists
  imports Main "HOL-Library.AList"
begin

text \<open>
  Association lists with distinct keys as Go maps: what an update of a present or an absent key and a
  deletion do to the list, to its length and to the number of entries with a property.
\<close>

definition keys :: "('k \<times> 'v) list \<Rightarrow> 'k set" where
  "keys al = fst ` set al"

definition countIf :: "('k \<Rightarrow> 'v \<Rightarrow> bool) \<Rightarrow> ('k \<times> 'v) list \<Rightarrow> nat" where
  "countIf P al = length (filter (\<lambda>(k, v). P k v) al)"

lemma keys_simps [simp]: "keys [] = {}" "keys ((k, v) # al) = insert k (keys al)"
  by (simp_all add: keys_def)

lemma map_of_None_keys: "map_of al k = None \<longleftrightarrow> k \<notin> keys al"
  by (simp add: keys_def map_of_eq_None_iff)

lemma map_of_keysI: "map_of al k = Some v \<Longrightarrow> k \<in> keys al"
  by (metis map_of_None_keys option.distinct(1))

lemma keys_map_of: "k \<in> keys al \<Longrightarrow> \<exists>v. map_of al k = Some v"
  using map_of_None_keys by fastforce

lemma map_of_update [simp]: "map_of (AList.update k v al) = (map_of al)(k \<mapsto> v)"
  by (rule update_conv')

lemma map_of_delete [simp]: "map_of (AList.delete k al) = (map_of al)(k := None)"
  by (rule delete_conv')

lemma keys_update [simp]: "keys (AList.update k v al) = insert k (keys al)"
  by (induction al) (auto simp: keys_def)

lemma keys_delete [simp]: "keys (AList.delete k al) = keys al - {k}"
  by (induction al) (auto simp: keys_def)

lemma distinct_keys_update [simp]: "distinct (map fst al) \<Longrightarrow> distinct (map fst (AList.update k v al))"
  by (rule distinct_update)

lemma distinct_keys_delete [simp]: "distinct (map fst al) \<Longrightarrow> distinct (map fst (AList.delete k al))"
  by (rule distinct_delete)

lemma update_fresh: "k \<notin> keys al \<Longrightarrow> AList.update k v al = al @ [(k, v)]"
  by (induction al) auto

lemma update_same: "map_of al k = Some v \<Longrightarrow> AList.update k v al = al"
  by (induction al) auto

lemma update_twice [simp]: "AList.update k v (AList.update k w al) = AList.update k v al"
  by (induction al) auto

lemma delete_fresh: "k \<notin> keys al \<Longrightarrow> AList.delete k al = al"
  by (induction al) auto

lemma delete_update_fresh: "k \<notin> keys al \<Longrightarrow> AList.delete k (AList.update k v al) = al"
  by (simp add: update_fresh AList.delete_eq) (induction al, auto)

lemma length_update_present: "k \<in> keys al \<Longrightarrow> length (AList.update k v al) = length al"
  by (induction al) auto

lemma length_delete_present:
  "distinct (map fst al) \<Longrightarrow> k \<in> keys al \<Longrightarrow> length (AList.delete k al) = length al - 1"
proof (induction al)
  case (Cons kv al)
  obtain k' v' where [simp]: "kv = (k', v')" by (cases kv)
  show ?case
  proof (cases "k' = k")
    case True
    with Cons.prems have "k \<notin> keys al" by (auto simp: keys_def)
    with True show ?thesis by (simp add: delete_fresh)
  next
    case False
    with Cons.prems have "k \<in> keys al" by simp
    then have "length (AList.delete k al) = length al - 1" "al \<noteq> []" using Cons by auto
    with False show ?thesis by simp
  qed
qed simp

lemma countIf_fresh:
  "k \<notin> keys al \<Longrightarrow> countIf P (AList.update k v al) = countIf P al + (if P k v then 1 else 0)"
  by (simp add: countIf_def update_fresh)

lemma countIf_present:
  "map_of al k = Some w \<Longrightarrow> P k v = P k w \<Longrightarrow> distinct (map fst al) \<Longrightarrow> countIf P (AList.update k v al) = countIf P al"
proof (induction al)
  case (Cons kv al)
  then show ?case by (cases kv) (auto simp: countIf_def)
qed simp

lemma countIf_delete:
  "distinct (map fst al) \<Longrightarrow> map_of al k = Some v \<Longrightarrow>
    countIf P (AList.delete k al) = countIf P al - (if P k v then 1 else 0)"
proof (induction al)
  case (Cons kv al)
  obtain k' v' where [simp]: "kv = (k', v')" by (cases kv)
  show ?case
  proof (cases "k' = k")
    case True
    with Cons.prems have "k \<notin> keys al" "v' = v" by (auto simp: keys_def)
    with True show ?thesis by (simp add: countIf_def delete_fresh)
  next
    case False
    have "P k v \<Longrightarrow> countIf P al > 0"
      using Cons.prems False by (auto simp: countIf_def filter_empty_conv dest!: map_of_SomeD)
    with Cons False show ?thesis by (auto simp: countIf_def)
  qed
qed simp

lemma countIf_delete_pos:
  "distinct (map fst al) \<Longrightarrow> map_of al k = Some v \<Longrightarrow> P k v \<Longrightarrow> 0 < countIf P al"
  by (auto simp: countIf_def filter_empty_conv dest!: map_of_SomeD)

lemma countIf_cong: "(\<And>k v. (k, v) \<in> set al \<Longrightarrow> P k v = Q k v) \<Longrightarrow> countIf P al = countIf Q al"
  unfolding countIf_def by (rule arg_cong [where f = length], rule filter_cong) auto

lemma countIf_zero: "countIf P al = 0 \<longleftrightarrow> (\<forall>(k, v) \<in> set al. \<not> P k v)"
  by (auto simp: countIf_def filter_empty_conv)

lemma map_of_distinct_iff: "distinct (map fst al) \<Longrightarrow> (k, v) \<in> set al \<longleftrightarrow> map_of al k = Some v"
  using map_of_SomeD by fastforce

end
