(* ===== verification/Meter.thy ===== *)
theory Meter
  imports GoNet Alists
begin

text \<open>
  The metering subsystem (\<open>meter/meter.go\<close>, \<open>meter/limits.go\<close>): billing cells with byte and
  connection counters, limits per cell and per user, the hot switch, and the operations of the
  registry.  Pointers to shared objects (source-address gates and per-user limits) are indexes into
  the registry's stores.  The meters of open connections are part of the state: a connection's
  \<open>done\<close> closure is the operation \<open>closeConn\<close> on its meter.  A Go map is an association list with
  distinct keys.  Counters that only ever grow by one are natural numbers; the byte counters wrap as
  64-bit words.  Every operation is atomic, as its mutex or its compare-and-swap makes it.
\<close>

section \<open>Gates\<close>

text \<open>The connection gate of the process or of one inbound; \<open>None\<close> is the nil gate.\<close>

record Gate =
  gt_maxConns :: int
  gt_live :: int
  gt_rejected :: nat

definition NewGate :: "int \<Rightarrow> bool \<Rightarrow> Gate option" where
  "NewGate maxConns hasRate =
    (if maxConns = 0 \<and> \<not> hasRate then None
     else Some \<lparr> gt_maxConns = maxConns, gt_live = 0, gt_rejected = 0 \<rparr>)"

definition TryAcquire :: "Gate \<Rightarrow> bool \<times> Gate" where
  "TryAcquire g =
    (if gt_maxConns g = 0 then (True, g\<lparr>gt_live := gt_live g + 1\<rparr>)
     else if gt_live g \<ge> gt_maxConns g then (False, g\<lparr>gt_rejected := gt_rejected g + 1\<rparr>)
     else (True, g\<lparr>gt_live := gt_live g + 1\<rparr>))"

definition Release :: "Gate \<Rightarrow> Gate" where
  "Release g = g\<lparr>gt_live := gt_live g - 1\<rparr>"

text \<open>The gate on distinct source addresses.\<close>

record ipGate =
  g_ips :: "(Addr \<times> int) list"
  g_cap :: int
  g_rejected :: nat

definition newIPGate :: "int \<Rightarrow> ipGate" where
  "newIPGate c = \<lparr> g_ips = [], g_cap = c, g_rejected = 0 \<rparr>"

definition ipg_acquire :: "ipGate \<Rightarrow> Addr \<Rightarrow> bool \<times> ipGate" where
  "ipg_acquire g ip =
    (case map_of (g_ips g) ip of
       Some n \<Rightarrow> (True, g\<lparr>g_ips := AList.update ip (n + 1) (g_ips g)\<rparr>)
     | None \<Rightarrow>
         if g_cap g \<noteq> 0 \<and> int (length (g_ips g)) \<ge> g_cap g
         then (False, g\<lparr>g_rejected := g_rejected g + 1\<rparr>)
         else (True, g\<lparr>g_ips := AList.update ip 1 (g_ips g)\<rparr>))"

definition ipg_release :: "ipGate \<Rightarrow> Addr \<Rightarrow> ipGate" where
  "ipg_release g ip =
    (case map_of (g_ips g) ip of
       Some n \<Rightarrow> if n > 1 then g\<lparr>g_ips := AList.update ip (n - 1) (g_ips g)\<rparr>
                 else g\<lparr>g_ips := AList.delete ip (g_ips g)\<rparr>
     | None \<Rightarrow> g\<lparr>g_ips := AList.delete ip (g_ips g)\<rparr>)"

section \<open>Cells\<close>

record sharedLimit =
  s_maxConns :: int
  s_live :: int
  s_rejected :: nat
  s_ipg :: "nat option"

record connHandle =
  h_lastActive :: int
  h_src :: Addr

record Cell =
  c_up :: u64
  c_down :: u64
  c_connsTotal :: nat
  c_connsLive :: int
  c_disabled :: bool
  c_live :: "(nat \<times> connHandle) list"
  c_maxConns :: int
  c_rejectedConns :: nat
  c_ipg :: "nat option"
  c_shared :: "nat option"

definition newCell :: Cell where
  "newCell = \<lparr> c_up = 0, c_down = 0, c_connsTotal = 0, c_connsLive = 0, c_disabled = False, c_live = [],
     c_maxConns = 0, c_rejectedConns = 0, c_ipg = None, c_shared = None \<rparr>"

text \<open>\<open>Cell.addGuarded\<close>: the check of the switch and the registration under one lock.\<close>

definition addGuarded :: "nat \<Rightarrow> connHandle \<Rightarrow> Cell \<Rightarrow> bool \<times> Cell" where
  "addGuarded connID h c =
    (if c_disabled c then (False, c) else (True, c\<lparr>c_live := AList.update connID h (c_live c)\<rparr>))"

definition removeLive :: "nat \<Rightarrow> Cell \<Rightarrow> Cell" where
  "removeLive connID c = c\<lparr>c_live := AList.delete connID (c_live c)\<rparr>"

text \<open>\<open>killAll\<close> returns the connections whose kill function it starts.\<close>

definition killAll :: "Cell \<Rightarrow> nat list \<times> Cell" where
  "killAll c = (map fst (c_live c), c\<lparr>c_live := []\<rparr>)"

text \<open>The acquisition of a connection slot, with the shared limit of the user when there is one.\<close>

definition tryAcquireConn :: "Cell \<times> sharedLimit option \<Rightarrow> bool \<times> (Cell \<times> sharedLimit option)" where
  "tryAcquireConn = (\<lambda>(c, sh).
    let own =
      (if c_maxConns c = 0 then (True, (c\<lparr>c_connsLive := c_connsLive c + 1\<rparr>, sh))
       else if c_connsLive c \<ge> c_maxConns c then (False, (c\<lparr>c_rejectedConns := c_rejectedConns c + 1\<rparr>, sh))
       else (True, (c\<lparr>c_connsLive := c_connsLive c + 1\<rparr>, sh)))
    in case sh of
         None \<Rightarrow> own
       | Some s \<Rightarrow>
           if s_maxConns s > 0 then
             (if s_live s \<ge> s_maxConns s
              then (False, (c\<lparr>c_rejectedConns := c_rejectedConns c + 1\<rparr>, Some (s\<lparr>s_rejected := s_rejected s + 1\<rparr>)))
              else (True, (c\<lparr>c_connsLive := c_connsLive c + 1\<rparr>, Some (s\<lparr>s_live := s_live s + 1\<rparr>))))
           else own)"

definition releaseConn :: "Cell \<times> sharedLimit option \<Rightarrow> Cell \<times> sharedLimit option" where
  "releaseConn = (\<lambda>(c, sh).
    (c\<lparr>c_connsLive := c_connsLive c - 1\<rparr>,
     case sh of None \<Rightarrow> None
     | Some s \<Rightarrow> if s_maxConns s > 0 then Some (s\<lparr>s_live := s_live s - 1\<rparr>) else Some s))"

section \<open>The registry\<close>

record Meter =
  mt_cell :: nat
  mt_src :: Addr
  mt_localUp :: u64
  mt_localDn :: u64

record Registry =
  r_cells :: "(nat \<times> Cell) list"
  r_ipgs :: "ipGate list"
  r_shareds :: "sharedLimit list"
  r_connSeq :: nat
  r_idx :: "(nat \<times> nat) list"
  r_meters :: "(nat \<times> Meter) list"
  r_bills :: "(string \<times> nat) list"
  r_labels :: "(nat \<times> string) list"
  r_nextID :: nat

definition UserBase :: nat where
  "UserBase = 2 ^ 20"

definition drainThreshold :: nat where
  "drainThreshold = 128 * 1024"

definition NewRegistry :: Registry where
  "NewRegistry = \<lparr> r_cells = [], r_ipgs = [], r_shareds = [], r_connSeq = 0, r_idx = [], r_meters = [],
     r_bills = [], r_labels = [], r_nextID = UserBase + 1 \<rparr>"

definition IDForBill :: "string \<Rightarrow> Registry \<Rightarrow> nat \<times> Registry" where
  "IDForBill bill r =
    (case map_of (r_bills r) bill of
       Some i \<Rightarrow> (i, r)
     | None \<Rightarrow>
         (let i = r_nextID r in
          (i, r\<lparr>r_nextID := i + 1, r_bills := AList.update bill i (r_bills r),
                r_labels := AList.update i bill (r_labels r)\<rparr>)))"

definition IDByBill :: "string \<Rightarrow> Registry \<Rightarrow> nat option" where
  "IDByBill bill r = map_of (r_bills r) bill"

definition Bill :: "nat \<Rightarrow> Registry \<Rightarrow> string" where
  "Bill i r = (case map_of (r_labels r) i of None \<Rightarrow> [] | Some b \<Rightarrow> b)"

text \<open>\<open>Registry.cell\<close>: the cell of an identity, made when it is not there.\<close>

definition getCell :: "Registry \<Rightarrow> nat \<Rightarrow> Cell" where
  "getCell r i = (case map_of (r_cells r) i of None \<Rightarrow> newCell | Some c \<Rightarrow> c)"

definition putCell :: "nat \<Rightarrow> Cell \<Rightarrow> Registry \<Rightarrow> Registry" where
  "putCell i c r = r\<lparr>r_cells := AList.update i c (r_cells r)\<rparr>"

definition ensureCell :: "nat \<Rightarrow> Registry \<Rightarrow> Registry" where
  "ensureCell i r = (case map_of (r_cells r) i of None \<Rightarrow> putCell i newCell r | Some _ \<Rightarrow> r)"

definition sharedOf :: "Registry \<Rightarrow> Cell \<Rightarrow> sharedLimit option" where
  "sharedOf r c = map_option (\<lambda>p. r_shareds r ! p) (c_shared c)"

text \<open>Writing back a cell and the shared limit it points to.\<close>

definition putConn :: "nat \<Rightarrow> Cell \<times> sharedLimit option \<Rightarrow> Registry \<Rightarrow> Registry" where
  "putConn i cs r =
    (let r1 = putCell i (fst cs) r in
     case (c_shared (fst cs), snd cs) of
       (Some p, Some s) \<Rightarrow> r1\<lparr>r_shareds := (r_shareds r1)[p := s]\<rparr>
     | _ \<Rightarrow> r1)"

definition releaseIP :: "nat \<Rightarrow> Addr \<Rightarrow> Registry \<Rightarrow> Registry" where
  "releaseIP i src r =
    (case c_ipg (getCell r i) of
       None \<Rightarrow> r
     | Some g \<Rightarrow> r\<lparr>r_ipgs := (r_ipgs r)[g := ipg_release (r_ipgs r ! g) src]\<rparr>)"

definition acquireIP :: "nat \<Rightarrow> Addr \<Rightarrow> Registry \<Rightarrow> bool \<times> Registry" where
  "acquireIP i src r =
    (case c_ipg (getCell r i) of
       None \<Rightarrow> (True, r)
     | Some g \<Rightarrow>
         (case ipg_acquire (r_ipgs r ! g) src of
            (ok, g') \<Rightarrow> (ok, r\<lparr>r_ipgs := (r_ipgs r)[g := g']\<rparr>)))"

definition acquireConn :: "nat \<Rightarrow> Registry \<Rightarrow> bool \<times> Registry" where
  "acquireConn i r =
    (case tryAcquireConn (getCell r i, sharedOf r (getCell r i)) of (ok, cs) \<Rightarrow> (ok, putConn i cs r))"

definition dropConn :: "nat \<Rightarrow> Registry \<Rightarrow> Registry" where
  "dropConn i r = putConn i (releaseConn (getCell r i, sharedOf r (getCell r i))) r"

definition Open :: "nat \<Rightarrow> Addr \<Rightarrow> int \<Rightarrow> Registry \<Rightarrow> nat option \<times> Registry" where
  "Open i src now r =
    (case acquireIP i src (ensureCell i r) of
       (False, r1) \<Rightarrow> (None, r1)
     | (True, r1) \<Rightarrow>
         (case acquireConn i r1 of
            (False, r2) \<Rightarrow> (None, releaseIP i src r2)
          | (True, r2) \<Rightarrow>
              (let connID = r_connSeq r2 + 1; r3 = r2\<lparr>r_connSeq := connID\<rparr> in
               case addGuarded connID \<lparr> h_lastActive = now, h_src = src \<rparr> (getCell r3 i) of
                 (False, _) \<Rightarrow> (None, releaseIP i src (dropConn i r3))
               | (True, c) \<Rightarrow>
                   (Some connID,
                    (putCell i (c\<lparr>c_connsTotal := c_connsTotal c + 1\<rparr>) r3)
                      \<lparr>r_idx := AList.update connID i (r_idx r3),
                       r_meters := AList.update connID \<lparr> mt_cell = i, mt_src = src, mt_localUp = 0, mt_localDn = 0 \<rparr>
                         (r_meters r3)\<rparr>))))"

section \<open>Counting bytes\<close>

text \<open>\<open>Meter.touch\<close> stamps the handle, which outlives its registration in the cell.\<close>

definition touch :: "nat \<Rightarrow> nat \<Rightarrow> int \<Rightarrow> Registry \<Rightarrow> Registry" where
  "touch i connID now r =
    (case map_of (c_live (getCell r i)) connID of
       None \<Rightarrow> r
     | Some h \<Rightarrow>
         putCell i ((getCell r i)\<lparr>c_live := AList.update connID (h\<lparr>h_lastActive := now\<rparr>) (c_live (getCell r i))\<rparr>) r)"

definition AddUp :: "nat \<Rightarrow> int \<Rightarrow> int \<Rightarrow> Registry \<Rightarrow> Registry" where
  "AddUp connID n now r =
    (case map_of (r_meters r) connID of
       None \<Rightarrow> r
     | Some m \<Rightarrow>
         if n \<le> 0 then r
         else
           (let l = mt_localUp m + word_of_int n in
            if l \<ge> word_of_nat drainThreshold then
              (let r1 = touch (mt_cell m) connID now r; c = getCell r1 (mt_cell m) in
               (putCell (mt_cell m) (c\<lparr>c_up := c_up c + l\<rparr>) r1)
                 \<lparr>r_meters := AList.update connID (m\<lparr>mt_localUp := 0\<rparr>) (r_meters r1)\<rparr>)
            else r\<lparr>r_meters := AList.update connID (m\<lparr>mt_localUp := l\<rparr>) (r_meters r)\<rparr>))"

definition AddDown :: "nat \<Rightarrow> int \<Rightarrow> int \<Rightarrow> Registry \<Rightarrow> Registry" where
  "AddDown connID n now r =
    (case map_of (r_meters r) connID of
       None \<Rightarrow> r
     | Some m \<Rightarrow>
         if n \<le> 0 then r
         else
           (let l = mt_localDn m + word_of_int n in
            if l \<ge> word_of_nat drainThreshold then
              (let r1 = touch (mt_cell m) connID now r; c = getCell r1 (mt_cell m) in
               (putCell (mt_cell m) (c\<lparr>c_down := c_down c + l\<rparr>) r1)
                 \<lparr>r_meters := AList.update connID (m\<lparr>mt_localDn := 0\<rparr>) (r_meters r1)\<rparr>)
            else r\<lparr>r_meters := AList.update connID (m\<lparr>mt_localDn := l\<rparr>) (r_meters r)\<rparr>))"

definition Flush :: "Meter \<Rightarrow> Registry \<Rightarrow> Registry" where
  "Flush m r =
    (let c = getCell r (mt_cell m) in
     putCell (mt_cell m) (c\<lparr>c_up := c_up c + mt_localUp m, c_down := c_down c + mt_localDn m\<rparr>) r)"

text \<open>The closure \<open>done\<close> that \<open>Open\<close> returns.\<close>

definition closeConn :: "nat \<Rightarrow> Registry \<Rightarrow> Registry" where
  "closeConn connID r =
    (case map_of (r_meters r) connID of
       None \<Rightarrow> r
     | Some m \<Rightarrow>
         (let i = mt_cell m; r1 = releaseIP i (mt_src m) (dropConn i (Flush m r)) in
          (putCell i (removeLive connID (getCell r1 i)) r1)
            \<lparr>r_idx := AList.delete connID (r_idx r1), r_meters := AList.delete connID (r_meters r1)\<rparr>))"

section \<open>The hot switch and the reapers\<close>

definition Disable :: "nat \<Rightarrow> Registry \<Rightarrow> (nat list \<times> bool) \<times> Registry" where
  "Disable i r =
    (case map_of (r_cells r) i of
       None \<Rightarrow> (([], False), r)
     | Some c \<Rightarrow>
         (case killAll (c\<lparr>c_disabled := True\<rparr>) of (ks, c') \<Rightarrow> ((ks, True), putCell i c' r)))"

definition Enable :: "nat \<Rightarrow> Registry \<Rightarrow> bool \<times> Registry" where
  "Enable i r =
    (case map_of (r_cells r) i of
       None \<Rightarrow> (False, r)
     | Some c \<Rightarrow> (True, putCell i (c\<lparr>c_disabled := False\<rparr>) r))"

definition KillConn :: "nat \<Rightarrow> Registry \<Rightarrow> nat list \<times> Registry" where
  "KillConn connID r =
    (case map_of (r_idx r) connID of
       None \<Rightarrow> ([], r)
     | Some i \<Rightarrow>
         (let c = getCell r i in
          (case map_of (c_live c) connID of None \<Rightarrow> [] | Some _ \<Rightarrow> [connID],
           putCell i (removeLive connID c) r)))"

definition KillIP :: "nat \<Rightarrow> Addr \<Rightarrow> Registry \<Rightarrow> nat list \<times> Registry" where
  "KillIP i ip r =
    (case map_of (r_cells r) i of
       None \<Rightarrow> ([], r)
     | Some c \<Rightarrow>
         (map fst (filter (\<lambda>(k, h). h_src h = ip) (c_live c)),
          putCell i (c\<lparr>c_live := filter (\<lambda>(k, h). h_src h \<noteq> ip) (c_live c)\<rparr>) r))"

text \<open>The loop both reapers end with: remove each candidate that is still registered, and kill it.\<close>

fun reapLoop :: "int option \<Rightarrow> (nat \<times> nat) list \<Rightarrow> nat list \<Rightarrow> Registry \<Rightarrow> nat list \<times> Registry" where
  "reapLoop lim [] killed r = (killed, r)"
| "reapLoop lim ((i, connID) # es) killed r =
    (if (case lim of None \<Rightarrow> False | Some n \<Rightarrow> int (length killed) \<ge> n) then (killed, r)
     else
       (let c = getCell r i in
        case map_of (c_live c) connID of
          None \<Rightarrow> reapLoop lim es killed r
        | Some h \<Rightarrow> reapLoop lim es (killed @ [connID]) (putCell i (removeLive connID c) r)))"

definition liveEntries :: "Registry \<Rightarrow> (nat \<times> nat \<times> int) list" where
  "liveEntries r = concat (map (\<lambda>(i, c). map (\<lambda>(k, h). (i, k, h_lastActive h)) (c_live c)) (r_cells r))"

definition evictIdle :: "int \<Rightarrow> Registry \<Rightarrow> nat list \<times> Registry" where
  "evictIdle n r =
    (if n \<le> 0 then ([], r)
     else reapLoop (Some n) (map (\<lambda>(i, k, l). (i, k)) (sort_key (\<lambda>(i, k, l). l) (liveEntries r))) [] r)"

definition ReapIdle :: "int \<Rightarrow> int \<Rightarrow> Registry \<Rightarrow> nat list \<times> Registry" where
  "ReapIdle idle now r =
    (if idle \<le> 0 then ([], r)
     else reapLoop None (map (\<lambda>(i, k, l). (i, k)) (filter (\<lambda>(i, k, l). l < now - idle) (liveEntries r))) [] r)"

section \<open>Configuration\<close>

record Limits =
  l_MaxConns :: int
  l_MaxIPs :: int

definition SetLimits :: "nat \<Rightarrow> Limits \<Rightarrow> Registry \<Rightarrow> Registry" where
  "SetLimits i l r =
    (let r0 = ensureCell i r; c = (getCell r0 i)\<lparr>c_maxConns := l_MaxConns l\<rparr> in
     if l_MaxIPs l > 0 then
       (putCell i (c\<lparr>c_ipg := Some (length (r_ipgs r0))\<rparr>) r0)\<lparr>r_ipgs := r_ipgs r0 @ [newIPGate (l_MaxIPs l)]\<rparr>
     else putCell i c r0)"

definition SetLimitsShared :: "nat list \<Rightarrow> Limits \<Rightarrow> Registry \<Rightarrow> Registry" where
  "SetLimitsShared is l r =
    (let g = (if l_MaxIPs l > 0 then Some (length (r_ipgs r)) else None);
         s = \<lparr> s_maxConns = l_MaxConns l, s_live = 0, s_rejected = 0, s_ipg = g \<rparr>;
         p = length (r_shareds r);
         r1 = r\<lparr>r_shareds := r_shareds r @ [s],
                r_ipgs := (if l_MaxIPs l > 0 then r_ipgs r @ [newIPGate (l_MaxIPs l)] else r_ipgs r)\<rparr>
     in fold (\<lambda>i r. let r0 = ensureCell i r in
          putCell i ((getCell r0 i)\<lparr>c_shared := Some p, c_ipg := g, c_maxConns := 0\<rparr>) r0) is r1)"

section \<open>Reports\<close>

text \<open>\<open>Cell.cellRejected\<close> and the rows of \<open>Snapshot\<close> (the sampled rates excepted).\<close>

definition cellRejected :: "Registry \<Rightarrow> Cell \<Rightarrow> nat" where
  "cellRejected r c =
    c_rejectedConns c +
    (case sharedOf r c of
       Some s \<Rightarrow> s_rejected s + (case s_ipg s of None \<Rightarrow> 0 | Some g \<Rightarrow> g_rejected (r_ipgs r ! g))
     | None \<Rightarrow> (case c_ipg c of None \<Rightarrow> 0 | Some g \<Rightarrow> g_rejected (r_ipgs r ! g)))"

record UserStat =
  us_ID :: nat
  us_Bill :: string
  us_Up :: u64
  us_Down :: u64
  us_ConnsTotal :: nat
  us_ConnsLive :: int
  us_Disabled :: bool
  us_MaxConns :: int
  us_Rejected :: nat
  us_RejectedIP :: nat

definition Snapshot :: "Registry \<Rightarrow> UserStat list" where
  "Snapshot r = sort_key us_ID (map (\<lambda>(i, c).
    \<lparr> us_ID = i, us_Bill = Bill i r, us_Up = c_up c, us_Down = c_down c, us_ConnsTotal = c_connsTotal c,
      us_ConnsLive = c_connsLive c, us_Disabled = c_disabled c,
      us_MaxConns = (case sharedOf r c of None \<Rightarrow> c_maxConns c | Some s \<Rightarrow> s_maxConns s),
      us_Rejected = c_rejectedConns c,
      us_RejectedIP =
        (case Option.bind (sharedOf r c) s_ipg of
           Some g \<Rightarrow> g_rejected (r_ipgs r ! g)
         | None \<Rightarrow> (case c_ipg c of None \<Rightarrow> 0 | Some g \<Rightarrow> g_rejected (r_ipgs r ! g))) \<rparr>) (r_cells r))"

end
