(* ===== verification/MeterInv.thy ===== *)
theory MeterInv
  imports Meter
begin

text \<open>
  The guarantees of the metering subsystem: the contract of a connection gate with its
  interpretations, the invariant of the registry that ties every counter to the open connections,
  its preservation by every operation, and what follows for limits, bytes and the hot switch.
\<close>

section \<open>Connection gates\<close>

text \<open>
  What a client relies on: a granted slot raises the count by one and never above a positive limit,
  a refusal only happens at the limit and leaves the count, a release gives the slot back.
\<close>

locale conn_gate =
  fixes acquire :: "'g \<Rightarrow> bool \<times> 'g"
    and release :: "'g \<Rightarrow> 'g"
    and slots :: "'g \<Rightarrow> int"
    and limit :: "'g \<Rightarrow> int"
    and valid :: "'g \<Rightarrow> bool"
  assumes grant: "valid g \<Longrightarrow> acquire g = (True, g') \<Longrightarrow>
      valid g' \<and> limit g' = limit g \<and> slots g' = slots g + 1 \<and> (limit g = 0 \<or> slots g < limit g)"
    and refuse: "valid g \<Longrightarrow> acquire g = (False, g') \<Longrightarrow>
      valid g' \<and> limit g' = limit g \<and> slots g' = slots g \<and> limit g \<noteq> 0 \<and> limit g \<le> slots g"
    and give_back: "valid g \<Longrightarrow> valid (release g) \<and> limit (release g) = limit g \<and> slots (release g) = slots g - 1"
begin

text \<open>A run of requests: \<open>True\<close> asks for a slot, \<open>False\<close> releases one.  The answers are counted.\<close>

fun gate_run :: "bool list \<Rightarrow> 'g \<Rightarrow> int \<times> 'g" where
  "gate_run [] g = (0, g)"
| "gate_run (True # rs) g = (case acquire g of (ok, g') \<Rightarrow>
     case gate_run rs g' of (n, g'') \<Rightarrow> (n + (if ok then 1 else 0), g''))"
| "gate_run (False # rs) g = (case gate_run rs (release g) of (n, g'') \<Rightarrow> (n - 1, g''))"

lemma gate_run_count:
  "valid g \<Longrightarrow> gate_run rs g = (n, g') \<Longrightarrow> valid g' \<and> limit g' = limit g \<and> slots g' = slots g + n"
proof (induction rs g arbitrary: n g' rule: gate_run.induct)
  case (2 rs g)
  obtain ok g1 where a: "acquire g = (ok, g1)" by (cases "acquire g")
  obtain n1 g2 where b: "gate_run rs g1 = (n1, g2)" by (cases "gate_run rs g1")
  have v: "valid g1 \<and> limit g1 = limit g \<and> slots g1 = slots g + (if ok then 1 else 0)"
    using grant [OF 2(2)] refuse [OF 2(2)] a by (cases ok) auto
  show ?case using 2(1) [OF a [symmetric], of n1 g2] 2(3) a b v by auto
next
  case (3 rs g)
  obtain n1 g2 where b: "gate_run rs (release g) = (n1, g2)" by (cases "gate_run rs (release g)")
  show ?case using 3(1) [OF _ b] give_back [OF 3(2)] 3(3) b by auto
qed simp

lemma gate_run_bounded:
  "valid g \<Longrightarrow> 0 < limit g \<Longrightarrow> slots g \<le> limit g \<Longrightarrow> gate_run rs g = (n, g') \<Longrightarrow> slots g' \<le> limit g'"
proof (induction rs g arbitrary: n g' rule: gate_run.induct)
  case (2 rs g)
  obtain ok g1 where a: "acquire g = (ok, g1)" by (cases "acquire g")
  obtain n1 g2 where b: "gate_run rs g1 = (n1, g2)" by (cases "gate_run rs g1")
  have "valid g1 \<and> 0 < limit g1 \<and> slots g1 \<le> limit g1"
    using grant [OF 2(2)] refuse [OF 2(2)] a 2(3,4) by (cases ok) auto
  with 2(1) [OF a [symmetric], of n1 g2] 2(5) a b show ?case by auto
next
  case (3 rs g)
  obtain n1 g2 where b: "gate_run rs (release g) = (n1, g2)" by (cases "gate_run rs (release g)")
  have "valid (release g) \<and> 0 < limit (release g) \<and> slots (release g) \<le> limit (release g)"
    using give_back [OF 3(2)] 3(3,4) by auto
  with 3(1) [OF _ _ _ b] 3(5) b show ?case by auto
qed simp

end

interpretation gate: conn_gate TryAcquire Release gt_live gt_maxConns "\<lambda>_. True"
  by unfold_locales (auto simp: TryAcquire_def Release_def split: if_splits)

definition sharedActive :: "sharedLimit option \<Rightarrow> bool" where
  "sharedActive sh = (case sh of None \<Rightarrow> False | Some s \<Rightarrow> s_maxConns s > 0)"

interpretation own_gate: conn_gate tryAcquireConn releaseConn
  "\<lambda>(c, sh). c_connsLive c" "\<lambda>(c, sh). c_maxConns c" "\<lambda>(c, sh). \<not> sharedActive sh"
  by unfold_locales
    (auto simp: tryAcquireConn_def releaseConn_def sharedActive_def Let_def split: if_splits option.splits prod.splits)

interpretation shared_gate: conn_gate tryAcquireConn releaseConn
  "\<lambda>(c, sh). s_live (the sh)" "\<lambda>(c, sh). s_maxConns (the sh)" "\<lambda>(c, sh). sharedActive sh"
  by unfold_locales
    (auto simp: tryAcquireConn_def releaseConn_def sharedActive_def Let_def split: if_splits option.splits prod.splits)

section \<open>Reading and writing the registry\<close>

lemma getCell_putCell [simp]: "getCell (putCell i c r) j = (if j = i then c else getCell r j)"
  by (simp add: getCell_def putCell_def)

lemma putCell_frame [simp]:
  "r_ipgs (putCell i c r) = r_ipgs r" "r_shareds (putCell i c r) = r_shareds r"
  "r_connSeq (putCell i c r) = r_connSeq r" "r_idx (putCell i c r) = r_idx r"
  "r_meters (putCell i c r) = r_meters r" "r_bills (putCell i c r) = r_bills r"
  "r_labels (putCell i c r) = r_labels r" "r_nextID (putCell i c r) = r_nextID r"
  "r_cells (putCell i c r) = AList.update i c (r_cells r)"
  by (simp_all add: putCell_def)

lemma getCell_frame [simp]:
  "getCell (r\<lparr>r_ipgs := a\<rparr>) i = getCell r i" "getCell (r\<lparr>r_shareds := b\<rparr>) i = getCell r i"
  "getCell (r\<lparr>r_connSeq := d\<rparr>) i = getCell r i" "getCell (r\<lparr>r_idx := e\<rparr>) i = getCell r i"
  "getCell (r\<lparr>r_meters := f\<rparr>) i = getCell r i"
  by (simp_all add: getCell_def)

lemma getCell_map_of: "map_of (r_cells r) i = Some c \<Longrightarrow> getCell r i = c"
  by (simp add: getCell_def)

lemma getCell_in_keys: "i \<in> keys (r_cells r) \<Longrightarrow> map_of (r_cells r) i = Some (getCell r i)"
  using keys_map_of by (fastforce simp: getCell_def)

lemma getCell_fresh: "i \<notin> keys (r_cells r) \<Longrightarrow> getCell r i = newCell"
  using map_of_None_keys [of "r_cells r" i] by (simp add: getCell_def)

lemma ensureCell_simps [simp]:
  "getCell (ensureCell i r) j = getCell r j" "r_ipgs (ensureCell i r) = r_ipgs r"
  "r_shareds (ensureCell i r) = r_shareds r" "r_connSeq (ensureCell i r) = r_connSeq r"
  "r_idx (ensureCell i r) = r_idx r" "r_meters (ensureCell i r) = r_meters r"
  "keys (r_cells (ensureCell i r)) = insert i (keys (r_cells r))"
  by (auto simp: ensureCell_def getCell_def putCell_def map_of_keysI split: option.splits)

section \<open>The invariant\<close>

definition nOf :: "Registry \<Rightarrow> nat \<Rightarrow> nat" where
  "nOf r i = countIf (\<lambda>k m. mt_cell m = i) (r_meters r)"

definition nIP :: "Registry \<Rightarrow> nat \<Rightarrow> Addr \<Rightarrow> nat" where
  "nIP r g ip = countIf (\<lambda>k m. c_ipg (getCell r (mt_cell m)) = Some g \<and> mt_src m = ip) (r_meters r)"

definition nSh :: "Registry \<Rightarrow> nat \<Rightarrow> nat" where
  "nSh r p = countIf (\<lambda>k m. c_shared (getCell r (mt_cell m)) = Some p) (r_meters r)"

definition liveOK :: "Registry \<Rightarrow> nat \<Rightarrow> (nat \<times> connHandle) list \<Rightarrow> bool" where
  "liveOK r i al = (\<forall>k h. map_of al k = Some h \<longrightarrow>
     (\<exists>m. map_of (r_meters r) k = Some m \<and> mt_cell m = i \<and> mt_src m = h_src h))"

definition liveSub :: "(nat \<times> connHandle) list \<Rightarrow> (nat \<times> connHandle) list \<Rightarrow> bool" where
  "liveSub al al' = (\<forall>k h'. map_of al' k = Some h' \<longrightarrow> (\<exists>h. map_of al k = Some h \<and> h_src h' = h_src h))"

definition cellInv :: "Registry \<Rightarrow> nat \<Rightarrow> Cell \<Rightarrow> bool" where
  "cellInv r i c =
    (c_connsLive c = int (nOf r i)
     \<and> (0 < c_maxConns c \<and> \<not> sharedActive (sharedOf r c) \<longrightarrow> c_connsLive c \<le> c_maxConns c)
     \<and> distinct (map fst (c_live c))
     \<and> liveOK r i (c_live c)
     \<and> pred_option (\<lambda>g. g < length (r_ipgs r)) (c_ipg c)
     \<and> pred_option (\<lambda>p. p < length (r_shareds r)) (c_shared c))"

definition gateInv :: "Registry \<Rightarrow> nat \<Rightarrow> ipGate \<Rightarrow> bool" where
  "gateInv r g gt =
    (distinct (map fst (g_ips gt))
     \<and> (\<forall>ip. map_of (g_ips gt) ip = (if nIP r g ip = 0 then None else Some (int (nIP r g ip))))
     \<and> (0 < g_cap gt \<longrightarrow> int (length (g_ips gt)) \<le> g_cap gt))"

definition sharedInv :: "Registry \<Rightarrow> nat \<Rightarrow> sharedLimit \<Rightarrow> bool" where
  "sharedInv r p s = (0 < s_maxConns s \<longrightarrow> s_live s = int (nSh r p) \<and> s_live s \<le> s_maxConns s)"

definition metersInv :: "Registry \<Rightarrow> bool" where
  "metersInv r =
    (distinct (map fst (r_cells r)) \<and> distinct (map fst (r_meters r))
     \<and> (\<forall>k m. map_of (r_meters r) k = Some m \<longrightarrow> mt_cell m \<in> keys (r_cells r) \<and> k \<le> r_connSeq r)
     \<and> (\<forall>k. map_of (r_idx r) k = map_option mt_cell (map_of (r_meters r) k)))"

definition regInv :: "Registry \<Rightarrow> bool" where
  "regInv r =
    (metersInv r
     \<and> (\<forall>i \<in> keys (r_cells r). cellInv r i (getCell r i))
     \<and> (\<forall>g < length (r_ipgs r). gateInv r g (r_ipgs r ! g))
     \<and> (\<forall>p < length (r_shareds r). sharedInv r p (r_shareds r ! p)))"

text \<open>A cell that differs only in its byte counters, its switch and its statistics, and registers no more.\<close>

definition calmer :: "Cell \<Rightarrow> Cell \<Rightarrow> bool" where
  "calmer c c' =
    (c_connsLive c' = c_connsLive c \<and> c_maxConns c' = c_maxConns c \<and> c_ipg c' = c_ipg c
     \<and> c_shared c' = c_shared c \<and> distinct (map fst (c_live c'))
     \<and> liveSub (c_live c) (c_live c'))"

lemma liveSub_liveOK: "liveSub al al' \<Longrightarrow> liveOK r i al \<Longrightarrow> liveOK r i al'"
  unfolding liveSub_def liveOK_def by metis

lemma liveOK_cong: "r_meters r' = r_meters r \<Longrightarrow> liveOK r' i al = liveOK r i al"
  by (simp add: liveOK_def)

lemma gateInv_cong: "nIP r' = nIP r \<Longrightarrow> gateInv r' g gt = gateInv r g gt"
  by (simp add: gateInv_def)

lemma sharedInv_cong: "nSh r' = nSh r \<Longrightarrow> sharedInv r' p s = sharedInv r p s"
  by (simp add: sharedInv_def)

lemma cellInv_cong:
  "nOf r' = nOf r \<Longrightarrow> r_shareds r' = r_shareds r \<Longrightarrow> length (r_ipgs r') = length (r_ipgs r) \<Longrightarrow>
    (\<And>al. liveOK r' i al = liveOK r i al) \<Longrightarrow> cellInv r' i c = cellInv r i c"
  by (simp add: cellInv_def sharedOf_def)

lemma counts_putCell:
  assumes "c_ipg c = c_ipg (getCell r i)" "c_shared c = c_shared (getCell r i)"
  shows "nOf (putCell i c r) = nOf r" "nIP (putCell i c r) = nIP r" "nSh (putCell i c r) = nSh r"
  using assms by (auto simp: fun_eq_iff nOf_def nIP_def nSh_def intro!: countIf_cong)

lemma regInv_putCell:
  assumes "regInv r" "i \<in> keys (r_cells r)" "calmer (getCell r i) c"
  shows "regInv (putCell i c r)"
proof -
  have p: "c_ipg c = c_ipg (getCell r i)" "c_shared c = c_shared (getCell r i)"
    using assms(3) by (auto simp: calmer_def)
  note cn = counts_putCell [OF p]
  have m: "metersInv (putCell i c r)"
    using assms(1,2) by (auto simp: regInv_def metersInv_def)
  have c0: "cellInv r i (getCell r i)" using assms(1,2) by (auto simp: regInv_def)
  have "cellInv (putCell i c r) j (getCell (putCell i c r) j)" if "j \<in> keys (r_cells r)" for j
  proof (cases "j = i")
    case True
    with c0 assms(3) cn p show ?thesis
      by (auto simp: cellInv_def calmer_def sharedOf_def liveOK_cong [of "putCell i c r" r] dest: liveSub_liveOK)
  next
    case False
    have "cellInv r j (getCell r j)" using assms(1) that by (auto simp: regInv_def)
    with False show ?thesis using cn by (auto simp: cellInv_def sharedOf_def liveOK_cong [of "putCell i c r" r])
  qed
  moreover have "keys (r_cells (putCell i c r)) = keys (r_cells r)" using assms(2) by auto
  ultimately show ?thesis
    using assms(1) m by (simp add: regInv_def gateInv_cong [OF cn(2)] sharedInv_cong [OF cn(3)])
qed

lemma regInv_keys: "regInv r \<Longrightarrow> map_of (r_meters r) k = Some m \<Longrightarrow> mt_cell m \<in> keys (r_cells r) \<and> k \<le> r_connSeq r"
  by (auto simp: regInv_def metersInv_def)

lemma regInv_cell: "regInv r \<Longrightarrow> i \<in> keys (r_cells r) \<Longrightarrow> cellInv r i (getCell r i)"
  by (auto simp: regInv_def)

text \<open>Changing the private counters of a meter.\<close>

lemma regInv_meter:
  assumes "regInv r" "map_of (r_meters r) k = Some m" "mt_cell m' = mt_cell m" "mt_src m' = mt_src m"
  shows "regInv (r\<lparr>r_meters := AList.update k m' (r_meters r)\<rparr>)"
proof -
  let ?r = "r\<lparr>r_meters := AList.update k m' (r_meters r)\<rparr>"
  have d: "distinct (map fst (r_meters r))" using assms(1) by (simp add: regInv_def metersInv_def)
  have cn: "nOf ?r = nOf r" "nIP ?r = nIP r" "nSh ?r = nSh r"
    using assms(2-4) d by (auto simp: fun_eq_iff nOf_def nIP_def nSh_def countIf_present)
  have lv: "liveOK ?r i al = liveOK r i al" for i al
  proof -
    have "(\<exists>x. map_of (r_meters ?r) j = Some x \<and> mt_cell x = i \<and> mt_src x = a) \<longleftrightarrow>
        (\<exists>x. map_of (r_meters r) j = Some x \<and> mt_cell x = i \<and> mt_src x = a)" for j a
      using assms(2-4) by (cases "j = k") auto
    then show ?thesis by (simp only: liveOK_def)
  qed
  have cl: "cellInv ?r i c = cellInv r i c" for i c
    by (rule cellInv_cong) (simp_all add: cn lv)
  have "metersInv ?r"
    using assms unfolding regInv_def metersInv_def by (auto simp: fun_eq_iff)
  then show ?thesis
    using assms(1) by (simp add: regInv_def cl gateInv_cong [OF cn(2)] sharedInv_cong [OF cn(3)])
qed

lemma calmer_refl: "distinct (map fst (c_live c)) \<Longrightarrow> calmer c c"
  by (simp add: calmer_def liveSub_def)

lemma calmer_live:
  "distinct (map fst al) \<Longrightarrow> liveSub (c_live c) al \<Longrightarrow> calmer c (c\<lparr>c_live := al\<rparr>)"
  by (simp add: calmer_def)

lemma liveSub_update: "map_of al k = Some h \<Longrightarrow> h_src h' = h_src h \<Longrightarrow> liveSub al (AList.update k h' al)"
  by (auto simp: liveSub_def)

lemma regInv_touch: "regInv r \<Longrightarrow> i \<in> keys (r_cells r) \<Longrightarrow> regInv (touch i k now r)"
proof (cases "map_of (c_live (getCell r i)) k")
  case (Some h)
  assume inv: "regInv r" and i: "i \<in> keys (r_cells r)"
  have "distinct (map fst (c_live (getCell r i)))" using regInv_cell [OF inv i] by (simp add: cellInv_def)
  then show ?thesis
    unfolding touch_def Some option.case
    by (intro regInv_putCell [OF inv i] calmer_live distinct_keys_update liveSub_update [OF Some]) auto
qed (simp add: touch_def)

lemma touch_frame [simp]: "r_meters (touch i k now r) = r_meters r"
  by (auto simp: touch_def split: option.split)

lemma touch_keys: "i \<in> keys (r_cells r) \<Longrightarrow> keys (r_cells (touch i k now r)) = keys (r_cells r)"
  by (auto simp: touch_def split: option.split)

lemma regInv_AddUp: "regInv r \<Longrightarrow> regInv (AddUp k n now r)"
proof -
  assume inv: "regInv r"
  show ?thesis
  proof (cases "map_of (r_meters r) k")
    case (Some m)
    have i: "mt_cell m \<in> keys (r_cells r)" using regInv_keys [OF inv Some] by simp
    let ?r1 = "touch (mt_cell m) k now r"
    let ?c = "getCell ?r1 (mt_cell m)"
    have inv1: "regInv ?r1" by (rule regInv_touch [OF inv i])
    have i1: "mt_cell m \<in> keys (r_cells ?r1)" using i by (simp add: touch_keys)
    have "regInv (putCell (mt_cell m) (?c\<lparr>c_up := c_up ?c + l\<rparr>) ?r1)" for l
      by (rule regInv_putCell [OF inv1 i1]) (use regInv_cell [OF inv1 i1] in \<open>simp add: calmer_def liveSub_def cellInv_def\<close>)
    then have "regInv ((putCell (mt_cell m) (?c\<lparr>c_up := c_up ?c + l\<rparr>) ?r1)\<lparr>r_meters := AList.update k (m\<lparr>mt_localUp := 0\<rparr>) (r_meters ?r1)\<rparr>)" for l
      using regInv_meter [of "putCell (mt_cell m) (?c\<lparr>c_up := c_up ?c + l\<rparr>) ?r1" k m "m\<lparr>mt_localUp := 0\<rparr>"] Some by simp
    then show ?thesis
      using Some inv regInv_meter [OF inv Some] by (simp add: AddUp_def Let_def)
  qed (simp add: AddUp_def inv)
qed

lemma regInv_AddDown: "regInv r \<Longrightarrow> regInv (AddDown k n now r)"
proof -
  assume inv: "regInv r"
  show ?thesis
  proof (cases "map_of (r_meters r) k")
    case (Some m)
    have i: "mt_cell m \<in> keys (r_cells r)" using regInv_keys [OF inv Some] by simp
    let ?r1 = "touch (mt_cell m) k now r"
    let ?c = "getCell ?r1 (mt_cell m)"
    have inv1: "regInv ?r1" by (rule regInv_touch [OF inv i])
    have i1: "mt_cell m \<in> keys (r_cells ?r1)" using i by (simp add: touch_keys)
    have "regInv (putCell (mt_cell m) (?c\<lparr>c_down := c_down ?c + l\<rparr>) ?r1)" for l
      by (rule regInv_putCell [OF inv1 i1]) (use regInv_cell [OF inv1 i1] in \<open>simp add: calmer_def liveSub_def cellInv_def\<close>)
    then have "regInv ((putCell (mt_cell m) (?c\<lparr>c_down := c_down ?c + l\<rparr>) ?r1)\<lparr>r_meters := AList.update k (m\<lparr>mt_localDn := 0\<rparr>) (r_meters ?r1)\<rparr>)" for l
      using regInv_meter [of "putCell (mt_cell m) (?c\<lparr>c_down := c_down ?c + l\<rparr>) ?r1" k m "m\<lparr>mt_localDn := 0\<rparr>"] Some by simp
    then show ?thesis
      using Some inv regInv_meter [OF inv Some] by (simp add: AddDown_def Let_def)
  qed (simp add: AddDown_def inv)
qed

section \<open>The switch and the reapers keep the invariant\<close>

lemma liveSub_delete: "liveSub al (AList.delete k al)"
  by (auto simp: liveSub_def split: if_splits)

lemma regInv_removeLive:
  assumes "regInv r" "i \<in> keys (r_cells r)"
  shows "regInv (putCell i (removeLive k (getCell r i)) r)"
  using assms regInv_cell [OF assms]
  by (intro regInv_putCell) (auto simp: removeLive_def cellInv_def intro!: calmer_live liveSub_delete)

lemma regInv_Disable: "regInv r \<Longrightarrow> regInv (snd (Disable i r))"
  by (auto simp: Disable_def killAll_def calmer_def liveSub_def map_of_keysI split: option.split intro!: regInv_putCell
      dest: getCell_map_of)

lemma regInv_Enable: "regInv r \<Longrightarrow> regInv (snd (Enable i r))"
proof (cases "map_of (r_cells r) i")
  case (Some c)
  assume inv: "regInv r"
  have "i \<in> keys (r_cells r)" using Some by (rule map_of_keysI)
  from regInv_cell [OF inv this] show ?thesis
    using inv Some by (auto simp: Enable_def calmer_def liveSub_def cellInv_def map_of_keysI getCell_map_of intro!: regInv_putCell)
qed (simp add: Enable_def)

lemma regInv_KillConn: "regInv r \<Longrightarrow> regInv (snd (KillConn k r))"
proof (cases "map_of (r_idx r) k")
  case (Some i)
  assume inv: "regInv r"
  then obtain m where "map_of (r_meters r) k = Some m" "mt_cell m = i"
    using Some by (auto simp: regInv_def metersInv_def)
  then have "i \<in> keys (r_cells r)" using regInv_keys [OF inv] by auto
  with inv Some show ?thesis by (simp add: KillConn_def Let_def regInv_removeLive)
qed (simp add: KillConn_def)

lemma map_of_filter_Some: "distinct (map fst al) \<Longrightarrow> map_of (filter P al) k = Some v \<Longrightarrow> map_of al k = Some v"
  by (metis distinct_map_filter filter_is_subset map_of_SomeD map_of_eq_Some_iff subset_iff)

lemma regInv_KillIP: "regInv r \<Longrightarrow> regInv (snd (KillIP i ip r))"
proof (cases "map_of (r_cells r) i")
  case (Some c)
  assume inv: "regInv r"
  have i: "i \<in> keys (r_cells r)" using Some by (rule map_of_keysI)
  have c: "getCell r i = c" using Some by (rule getCell_map_of)
  have d: "distinct (map fst (c_live c))" using regInv_cell [OF inv i] c by (simp add: cellInv_def)
  have "calmer c (c\<lparr>c_live := filter (\<lambda>(k, h). h_src h \<noteq> ip) (c_live c)\<rparr>)"
    by (rule calmer_live) (use d in \<open>auto simp: liveSub_def distinct_map_filter dest: map_of_filter_Some\<close>)
  then show ?thesis using regInv_putCell [OF inv i] c Some by (simp add: KillIP_def)
qed (simp add: KillIP_def)

lemma regInv_reapLoop:
  "regInv r \<Longrightarrow> \<forall>(i, k) \<in> set es. i \<in> keys (r_cells r) \<Longrightarrow> regInv (snd (reapLoop lim es ks r))"
proof (induction lim es ks r rule: reapLoop.induct)
  case (2 lim i k es ks r)
  let ?r' = "putCell i (removeLive k (getCell r i)) r"
  have i: "i \<in> keys (r_cells r)" using 2(4) by auto
  have "regInv ?r'" by (rule regInv_removeLive [OF 2(3) i])
  moreover have "\<forall>(i, k) \<in> set es. i \<in> keys (r_cells ?r')" using 2(4) i by auto
  ultimately show ?case
    using 2 by (auto simp: Let_def split: option.splits)
qed simp

lemma liveEntries_keys: "(i, k, l) \<in> set (liveEntries r) \<Longrightarrow> i \<in> keys (r_cells r)"
  by (force simp: liveEntries_def keys_def)

lemma regInv_evictIdle: "regInv r \<Longrightarrow> regInv (snd (evictIdle n r))"
  unfolding evictIdle_def by (auto intro!: regInv_reapLoop dest: liveEntries_keys)

lemma regInv_ReapIdle: "regInv r \<Longrightarrow> regInv (snd (ReapIdle idle now r))"
  unfolding ReapIdle_def by (auto intro!: regInv_reapLoop dest: liveEntries_keys)

section \<open>Opening and closing a connection\<close>

definition bump :: "int \<Rightarrow> sharedLimit \<Rightarrow> sharedLimit" where
  "bump d s = (if s_maxConns s > 0 then s\<lparr>s_live := s_live s + d\<rparr> else s)"

definition sharedsAfter :: "Registry \<Rightarrow> nat \<Rightarrow> int \<Rightarrow> sharedLimit list" where
  "sharedsAfter r i d = (case c_shared (getCell r i) of None \<Rightarrow> r_shareds r
     | Some p \<Rightarrow> (r_shareds r)[p := bump d (r_shareds r ! p)])"

definition ipgsAfter :: "Registry \<Rightarrow> nat \<Rightarrow> (ipGate \<Rightarrow> ipGate) \<Rightarrow> ipGate list" where
  "ipgsAfter r i f = (case c_ipg (getCell r i) of None \<Rightarrow> r_ipgs r | Some g \<Rightarrow> (r_ipgs r)[g := f (r_ipgs r ! g)])"

lemma acquireIP_eq:
  "acquireIP i src r = (ok, r1) \<Longrightarrow> r1 = r\<lparr>r_ipgs := ipgsAfter r i (\<lambda>g. snd (ipg_acquire g src))\<rparr>
    \<and> (ok \<longleftrightarrow> (\<forall>g. c_ipg (getCell r i) = Some g \<longrightarrow> fst (ipg_acquire (r_ipgs r ! g) src)))"
  by (auto simp: acquireIP_def ipgsAfter_def split: option.splits prod.splits)

lemma releaseIP_eq: "releaseIP i src r = r\<lparr>r_ipgs := ipgsAfter r i (\<lambda>g. ipg_release g src)\<rparr>"
  by (simp add: releaseIP_def ipgsAfter_def split: option.split)

text \<open>The condition under which a slot is granted.\<close>

definition hasSlot :: "Registry \<Rightarrow> Cell \<Rightarrow> bool" where
  "hasSlot r c = (case sharedOf r c of
     Some s \<Rightarrow> if s_maxConns s > 0 then s_live s < s_maxConns s else c_maxConns c = 0 \<or> c_connsLive c < c_maxConns c
   | None \<Rightarrow> c_maxConns c = 0 \<or> c_connsLive c < c_maxConns c)"

lemma acquireConn_True:
  "acquireConn i r = (True, r2) \<Longrightarrow>
    r2 = (putCell i ((getCell r i)\<lparr>c_connsLive := c_connsLive (getCell r i) + 1\<rparr>) r)\<lparr>r_shareds := sharedsAfter r i 1\<rparr>
    \<and> hasSlot r (getCell r i)"
  by (cases "c_shared (getCell r i)")
    (auto simp: acquireConn_def tryAcquireConn_def sharedOf_def putConn_def sharedsAfter_def bump_def hasSlot_def Let_def
      split: if_splits)

lemma dropConn_eq:
  "dropConn i r = (putCell i ((getCell r i)\<lparr>c_connsLive := c_connsLive (getCell r i) - 1\<rparr>) r)\<lparr>r_shareds := sharedsAfter r i (- 1)\<rparr>"
  by (cases "c_shared (getCell r i)")
    (auto simp: dropConn_def releaseConn_def sharedOf_def putConn_def sharedsAfter_def bump_def Let_def)

lemma sharedsAfter_cong:
  "c_shared (getCell r' i) = c_shared (getCell r i) \<Longrightarrow> r_shareds r' = r_shareds r \<Longrightarrow> sharedsAfter r' i d = sharedsAfter r i d"
  by (simp add: sharedsAfter_def split: option.split)

lemma ipgsAfter_cong:
  "c_ipg (getCell r' i) = c_ipg (getCell r i) \<Longrightarrow> r_ipgs r' = r_ipgs r \<Longrightarrow> ipgsAfter r' i f = ipgsAfter r i f"
  by (simp add: ipgsAfter_def split: option.split)

lemma hasSlot_cong: "r_shareds r' = r_shareds r \<Longrightarrow> hasSlot r' c = hasSlot r c"
  by (simp add: hasSlot_def sharedOf_def)

lemma Open_SomeD:
  assumes "Open i src now r = (Some k, r')"
  shows "k = r_connSeq r + 1 \<and> r_connSeq r' = k
    \<and> r_meters r' = AList.update k \<lparr> mt_cell = i, mt_src = src, mt_localUp = 0, mt_localDn = 0 \<rparr> (r_meters r)
    \<and> r_idx r' = AList.update k i (r_idx r)
    \<and> keys (r_cells r') = insert i (keys (r_cells r))
    \<and> (distinct (map fst (r_cells r)) \<longrightarrow> distinct (map fst (r_cells r')))
    \<and> (let c = getCell r i in
        getCell r' = (getCell r)(i := c\<lparr>c_connsLive := c_connsLive c + 1, c_connsTotal := c_connsTotal c + 1,
          c_live := AList.update k \<lparr> h_lastActive = now, h_src = src \<rparr> (c_live c)\<rparr>)
        \<and> \<not> c_disabled c \<and> hasSlot r c
        \<and> (\<forall>g. c_ipg c = Some g \<longrightarrow> fst (ipg_acquire (r_ipgs r ! g) src)))
    \<and> r_ipgs r' = ipgsAfter r i (\<lambda>g. snd (ipg_acquire g src))
    \<and> r_shareds r' = sharedsAfter r i 1"
proof -
  let ?r0 = "ensureCell i r"
  obtain ok1 r1 where a: "acquireIP i src ?r0 = (ok1, r1)" by (cases "acquireIP i src ?r0")
  have ok1: "ok1" using assms a by (cases ok1) (auto simp: Open_def)
  obtain ok2 r2 where b: "acquireConn i r1 = (ok2, r2)" by (cases "acquireConn i r1")
  have ok2: "ok2" using assms a b ok1 by (cases ok2) (auto simp: Open_def)
  note A = acquireIP_eq [OF a] and B = acquireConn_True [OF b [unfolded ok2 [THEN eqTrueI]]]
  have g1: "getCell r1 j = getCell r j" for j using A by simp
  have "r_shareds r1 = r_shareds r" using A by simp
  then have sh: "sharedsAfter r1 i d = sharedsAfter r i d" "hasSlot r1 c = hasSlot r c" for d c
    using sharedsAfter_cong [of r1 i r] hasSlot_cong [of r1 r] g1 by simp_all
  have ip: "ipgsAfter ?r0 i f = ipgsAfter r i f" for f by (rule ipgsAfter_cong) simp_all
  have r2: "r2 = (putCell i ((getCell r i)\<lparr>c_connsLive := c_connsLive (getCell r i) + 1\<rparr>) r1)\<lparr>r_shareds := sharedsAfter r i 1\<rparr>"
    "hasSlot r (getCell r i)"
    using B g1 sh by simp_all
  have nd: "\<not> c_disabled (getCell r i)"
    using assms a b ok1 ok2 r2 by (auto simp: Open_def Let_def addGuarded_def split: if_splits)
  have dd: "distinct (map fst (r_cells r)) \<Longrightarrow> distinct (map fst (r_cells ?r0))"
    by (auto simp: ensureCell_def split: option.splits)
  show ?thesis
    using assms a b ok1 ok2 nd r2 A ip dd
    by (auto simp: Open_def Let_def addGuarded_def fun_eq_iff)
qed

lemma closeConn_eq:
  assumes "map_of (r_meters r) k = Some m"
  defines "i \<equiv> mt_cell m" and "c \<equiv> getCell r (mt_cell m)"
  shows "r_connSeq (closeConn k r) = r_connSeq r
    \<and> r_meters (closeConn k r) = AList.delete k (r_meters r)
    \<and> r_idx (closeConn k r) = AList.delete k (r_idx r)
    \<and> keys (r_cells (closeConn k r)) = insert i (keys (r_cells r))
    \<and> (distinct (map fst (r_cells r)) \<longrightarrow> distinct (map fst (r_cells (closeConn k r))))
    \<and> getCell (closeConn k r) = (getCell r)(i := c\<lparr>c_up := c_up c + mt_localUp m, c_down := c_down c + mt_localDn m,
          c_connsLive := c_connsLive c - 1, c_live := AList.delete k (c_live c)\<rparr>)
    \<and> r_ipgs (closeConn k r) = ipgsAfter r i (\<lambda>g. ipg_release g (mt_src m))
    \<and> r_shareds (closeConn k r) = sharedsAfter r i (- 1)"
proof -
  let ?r1 = "Flush m r"
  have f: "getCell ?r1 j = (if j = i then c\<lparr>c_up := c_up c + mt_localUp m, c_down := c_down c + mt_localDn m\<rparr> else getCell r j)" for j
    by (simp add: Flush_def Let_def i_def c_def)
  have fr: "r_ipgs ?r1 = r_ipgs r" "r_shareds ?r1 = r_shareds r" "r_meters ?r1 = r_meters r" "r_idx ?r1 = r_idx r"
    "r_connSeq ?r1 = r_connSeq r" "keys (r_cells ?r1) = insert i (keys (r_cells r))"
    "distinct (map fst (r_cells r)) \<Longrightarrow> distinct (map fst (r_cells ?r1))"
    by (simp_all add: Flush_def Let_def i_def)
  have sh: "sharedsAfter ?r1 i d = sharedsAfter r i d" for d
    by (rule sharedsAfter_cong) (simp_all add: f fr c_def i_def)
  let ?r2 = "dropConn i ?r1"
  have ip: "ipgsAfter ?r2 i g = ipgsAfter r i g" for g
    by (rule ipgsAfter_cong) (simp_all add: dropConn_eq f fr c_def i_def)
  show ?thesis
    unfolding closeConn_def assms(1) option.case Let_def i_def [symmetric] releaseIP_eq ip
    using fr by (auto simp: dropConn_eq sh f removeLive_def fun_eq_iff)
qed

lemma sharedsAfter_props [simp]:
  "length (sharedsAfter r i d) = length (r_shareds r)"
  "p < length (r_shareds r) \<Longrightarrow> sharedsAfter r i d ! p =
     (if c_shared (getCell r i) = Some p then bump d (r_shareds r ! p) else r_shareds r ! p)"
  by (auto simp: sharedsAfter_def nth_list_update split: option.split)

lemma ipgsAfter_props [simp]:
  "length (ipgsAfter r i f) = length (r_ipgs r)"
  "g < length (r_ipgs r) \<Longrightarrow> ipgsAfter r i f ! g =
     (if c_ipg (getCell r i) = Some g then f (r_ipgs r ! g) else r_ipgs r ! g)"
  by (auto simp: ipgsAfter_def nth_list_update split: option.split)

lemma bump_props [simp]: "s_maxConns (bump d s) = s_maxConns s" "s_live (bump d s) = (if s_maxConns s > 0 then s_live s + d else s_live s)"
  by (simp_all add: bump_def)

text \<open>Counting when the pointers of the cells stay and one meter comes or goes.\<close>

lemma counts_pointers:
  assumes "\<And>j. c_ipg (getCell r' j) = c_ipg (getCell r j)" "\<And>j. c_shared (getCell r' j) = c_shared (getCell r j)"
  shows "nIP r' g ip = countIf (\<lambda>k m. c_ipg (getCell r (mt_cell m)) = Some g \<and> mt_src m = ip) (r_meters r')"
    and "nSh r' p = countIf (\<lambda>k m. c_shared (getCell r (mt_cell m)) = Some p) (r_meters r')"
  by (simp_all add: nIP_def nSh_def assms)

lemma sharedOf_pointer:
  assumes "c_shared c' = c_shared c" "pred_option (\<lambda>p. p < length (r_shareds r)) (c_shared c)"
    and "r_shareds r' = sharedsAfter r i d"
  shows "sharedActive (sharedOf r' c') = sharedActive (sharedOf r c)"
  using assms by (cases "c_shared c") (auto simp: sharedOf_def sharedActive_def)

lemma gateInv_acquire:
  assumes "gateInv r g gt" "fst (ipg_acquire gt src)"
    and "\<And>ip. nIP r' g ip = nIP r g ip + (if ip = src then 1 else 0)"
  shows "gateInv r' g (snd (ipg_acquire gt src))"
proof (cases "map_of (g_ips gt) src")
  case None
  then have k: "src \<notin> keys (g_ips gt)" by (simp add: map_of_None_keys)
  from None assms(2) have cap: "0 < g_cap gt \<longrightarrow> int (length (g_ips gt)) + 1 \<le> g_cap gt"
    by (auto simp: ipg_acquire_def split: if_splits)
  have "nIP r g src = 0" using assms(1) None by (auto simp: gateInv_def split: if_splits)
  have len: "length (AList.update src n (g_ips gt)) = length (g_ips gt) + 1" for n by (simp add: update_fresh [OF k])
  have "snd (ipg_acquire gt src) = gt\<lparr>g_ips := AList.update src 1 (g_ips gt)\<rparr>"
    using None assms(2) by (auto simp: ipg_acquire_def split: if_splits)
  with assms(1,3) cap len \<open>nIP r g src = 0\<close> show ?thesis
    by (simp add: gateInv_def add.commute)
next
  case (Some n)
  then have "n = int (nIP r g src)" "nIP r g src \<noteq> 0" using assms(1) by (auto simp: gateInv_def split: if_splits)
  with Some assms show ?thesis
    by (auto simp: gateInv_def ipg_acquire_def length_update_present [OF map_of_keysI [OF Some]])
qed

lemma gateInv_release:
  assumes "gateInv r g gt" "0 < nIP r g src"
    and "\<And>ip. nIP r' g ip = nIP r g ip - (if ip = src then 1 else 0)"
  shows "gateInv r' g (ipg_release gt src)"
proof -
  have Some: "map_of (g_ips gt) src = Some (int (nIP r g src))" using assms(1,2) by (auto simp: gateInv_def)
  note k = map_of_keysI [OF Some]
  have d: "distinct (map fst (g_ips gt))" using assms(1) by (simp add: gateInv_def)
  show ?thesis
  proof (cases "nIP r g src = 1")
    case True
    with Some assms d show ?thesis
      by (auto simp: gateInv_def ipg_release_def length_delete_present [OF d k])
  next
    case False
    with assms(2) have "1 < nIP r g src" by simp
    with Some assms show ?thesis
      by (auto simp: gateInv_def ipg_release_def length_update_present [OF k] of_nat_diff)
  qed
qed

lemma liveOK_mono:
  "(\<And>k m. map_of (r_meters r) k = Some m \<Longrightarrow> map_of (r_meters r') k = Some m) \<Longrightarrow> liveOK r j al \<Longrightarrow> liveOK r' j al"
  unfolding liveOK_def by blast

text \<open>One connection of cell \<open>i\<close> comes or goes: everything else keeps its part of the invariant.\<close>

lemma regInv_change:
  assumes inv: "regInv r" and ms: "metersInv r'" and ks: "keys (r_cells r') \<subseteq> insert i (keys (r_cells r))"
    and oth: "\<And>j. j \<noteq> i \<Longrightarrow> getCell r' j = getCell r j" "\<And>j. j \<noteq> i \<Longrightarrow> nOf r' j = nOf r j"
      "\<And>j al. j \<noteq> i \<Longrightarrow> liveOK r j al \<Longrightarrow> liveOK r' j al"
    and me: "cellInv r' i (getCell r' i)"
    and ips: "r_ipgs r' = ipgsAfter r i f" and shs: "r_shareds r' = sharedsAfter r i d"
    and gi: "\<And>g. c_ipg (getCell r i) = Some g \<Longrightarrow> g < length (r_ipgs r) \<Longrightarrow> gateInv r' g (f (r_ipgs r ! g))"
    and go: "\<And>g. c_ipg (getCell r i) \<noteq> Some g \<Longrightarrow> nIP r' g = nIP r g"
    and si: "\<And>p. c_shared (getCell r i) = Some p \<Longrightarrow> p < length (r_shareds r) \<Longrightarrow> sharedInv r' p (bump d (r_shareds r ! p))"
    and so: "\<And>p. c_shared (getCell r i) \<noteq> Some p \<Longrightarrow> nSh r' p = nSh r p"
  shows "regInv r'"
proof -
  have "cellInv r' j (getCell r' j)" if "j \<in> keys (r_cells r')" for j
  proof (cases "j = i")
    case False
    have b: "cellInv r j (getCell r j)" using inv that ks False by (auto simp: regInv_def)
    have "sharedActive (sharedOf r' (getCell r j)) = sharedActive (sharedOf r (getCell r j))"
      by (rule sharedOf_pointer [OF _ _ shs]) (use b in \<open>auto simp: cellInv_def\<close>)
    with b False show ?thesis by (auto simp: cellInv_def oth ips shs)
  qed (use me in simp)
  moreover have "gateInv r' g (r_ipgs r' ! g)" if "g < length (r_ipgs r')" for g
    using that inv gi [of g] go [of g] by (auto simp: ips regInv_def gateInv_def [of r'] gateInv_def [of r])
  moreover have "sharedInv r' p (r_shareds r' ! p)" if "p < length (r_shareds r')" for p
    using that inv si [of p] so [of p] by (auto simp: shs regInv_def sharedInv_def)
  ultimately show ?thesis using ms unfolding regInv_def by blast
qed

lemma metersInv_add:
  assumes inv: "regInv r" and k: "r_connSeq r < k" "r_connSeq r' = k"
    and ms: "r_meters r' = AList.update k m (r_meters r)" "r_idx r' = AList.update k (mt_cell m) (r_idx r)"
    and ks: "keys (r_cells r') = insert (mt_cell m) (keys (r_cells r))" "distinct (map fst (r_cells r'))"
  shows "metersInv r'"
  unfolding metersInv_def
proof (intro conjI allI impI)
  have d: "distinct (map fst (r_meters r))" and ix: "map_of (r_idx r) j = map_option mt_cell (map_of (r_meters r) j)" for j
    using inv by (auto simp: regInv_def metersInv_def)
  show "distinct (map fst (r_cells r'))" "distinct (map fst (r_meters r'))" using ks ms d by auto
  fix j
  show "map_of (r_idx r') j = map_option mt_cell (map_of (r_meters r') j)"
    using ix [of j] by (simp add: ms)
  fix x
  assume "map_of (r_meters r') j = Some x"
  then have mj: "((map_of (r_meters r))(k \<mapsto> m)) j = Some x" by (simp only: ms map_of_update)
  have "mt_cell x \<in> insert (mt_cell m) (keys (r_cells r)) \<and> j \<le> k"
  proof (cases "j = k")
    case False
    with mj have "map_of (r_meters r) j = Some x" by simp
    from regInv_keys [OF inv this] k show ?thesis by simp
  qed (use mj in simp)
  then show "mt_cell x \<in> keys (r_cells r')" "j \<le> r_connSeq r'" by (simp_all add: ks k)
qed

lemma cellInv_base: "regInv r \<Longrightarrow> cellInv r j (getCell r j)"
proof (cases "j \<in> keys (r_cells r)")
  case False
  assume inv: "regInv r"
  have "distinct (map fst (r_meters r))" using inv by (simp add: regInv_def metersInv_def)
  then have "mt_cell m \<in> keys (r_cells r)" if "(k, m) \<in> set (r_meters r)" for k m
    using regInv_keys [OF inv] map_of_distinct_iff that by metis
  with False have "nOf r j = 0" by (fastforce simp: nOf_def countIf_zero)
  with False show ?thesis by (simp add: cellInv_def getCell_fresh newCell_def liveOK_def)
qed (auto simp: regInv_def)

lemma regInv_Open_Some:
  assumes inv: "regInv r" and op: "Open i src now r = (Some k, r')"
  shows "regInv r'"
proof -
  let ?c = "getCell r i"
  let ?m = "\<lparr> mt_cell = i, mt_src = src, mt_localUp = 0, mt_localDn = 0 \<rparr> :: Meter"
  note O = Open_SomeD [OF op, unfolded Let_def]
  have kk: "k = r_connSeq r + 1" "r_connSeq r' = k" using O by auto
  have kf: "k \<notin> keys (r_meters r)"
    using regInv_keys [OF inv] kk keys_map_of [of k "r_meters r"] by fastforce
  have ms: "r_meters r' = AList.update k ?m (r_meters r)" and gc: "getCell r' = (getCell r)(i := ?c\<lparr>c_connsLive := c_connsLive ?c + 1,
      c_connsTotal := c_connsTotal ?c + 1, c_live := AList.update k \<lparr> h_lastActive = now, h_src = src \<rparr> (c_live ?c)\<rparr>)"
    and ips: "r_ipgs r' = ipgsAfter r i (\<lambda>g. snd (ipg_acquire g src))" and shs: "r_shareds r' = sharedsAfter r i 1"
    and ks: "keys (r_cells r') = insert i (keys (r_cells r))" and slot: "hasSlot r ?c"
    and acq: "\<And>g. c_ipg ?c = Some g \<Longrightarrow> fst (ipg_acquire (r_ipgs r ! g) src)"
    using O by auto
  have ptr: "c_ipg (getCell r' j) = c_ipg (getCell r j)" "c_shared (getCell r' j) = c_shared (getCell r j)" for j
    by (simp_all add: gc)
  have n1: "nOf r' j = nOf r j + (if j = i then 1 else 0)" for j
    by (simp add: nOf_def ms countIf_fresh [OF kf])
  have n2: "nIP r' g ip = nIP r g ip + (if c_ipg ?c = Some g \<and> src = ip then 1 else 0)" for g ip
    unfolding counts_pointers(1) [of r' r, OF ptr] ms countIf_fresh [OF kf] by (simp add: nIP_def)
  have n3: "nSh r' p = nSh r p + (if c_shared ?c = Some p then 1 else 0)" for p
    unfolding counts_pointers(2) [of r' r, OF ptr] ms countIf_fresh [OF kf] by (simp add: nSh_def)
  have live: "liveOK r' j al" if "liveOK r j al" for j al
    by (rule liveOK_mono [OF _ that]) (use kf in \<open>auto simp: ms dest: map_of_keysI\<close>)
  have b: "cellInv r i ?c" by (rule cellInv_base [OF inv])
  have act: "sharedActive (sharedOf r' (getCell r' i)) = sharedActive (sharedOf r ?c)"
    by (rule sharedOf_pointer [OF _ _ shs]) (use b ptr in \<open>auto simp: cellInv_def\<close>)
  have l: "liveOK r' i (AList.update k \<lparr> h_lastActive = now, h_src = src \<rparr> (c_live ?c))"
    using live [of i "c_live ?c"] b unfolding liveOK_def cellInv_def by (auto simp: ms)
  show ?thesis
  proof (rule regInv_change [OF inv, where i = i])
    show "metersInv r'"
      by (rule metersInv_add [OF inv]) (use O inv in \<open>auto simp: regInv_def metersInv_def\<close>)
    show "cellInv r' i (getCell r' i)"
      using b act l slot n1 [of i]
      by (auto simp: cellInv_def gc ips shs hasSlot_def sharedActive_def split: option.splits)
    show "gateInv r' g (snd (ipg_acquire (r_ipgs r ! g) src))" if "c_ipg ?c = Some g" "g < length (r_ipgs r)" for g
      by (rule gateInv_acquire [OF _ acq [OF that(1)]]) (use inv that n2 in \<open>auto simp: regInv_def\<close>)
    show "sharedInv r' p (bump 1 (r_shareds r ! p))" if "c_shared ?c = Some p" "p < length (r_shareds r)" for p
      using inv that n3 [of p] slot by (auto simp: regInv_def sharedInv_def hasSlot_def sharedOf_def)
  qed (use ks ips shs live n1 n2 n3 in \<open>auto simp: gc fun_eq_iff\<close>)
qed

lemma regInv_closeConn:
  assumes inv: "regInv r"
  shows "regInv (closeConn k r)"
proof (cases "map_of (r_meters r) k")
  case None
  then show ?thesis using inv by (simp add: closeConn_def)
next
  case (Some m)
  let ?i = "mt_cell m" and ?c = "getCell r (mt_cell m)" and ?r = "closeConn k r"
  note C = closeConn_eq [OF Some]
  have ms: "r_meters ?r = AList.delete k (r_meters r)" and gc: "getCell ?r = (getCell r)(?i := ?c\<lparr>c_up := c_up ?c + mt_localUp m,
      c_down := c_down ?c + mt_localDn m, c_connsLive := c_connsLive ?c - 1, c_live := AList.delete k (c_live ?c)\<rparr>)"
    and ips: "r_ipgs ?r = ipgsAfter r ?i (\<lambda>g. ipg_release g (mt_src m))" and shs: "r_shareds ?r = sharedsAfter r ?i (- 1)"
    and ks: "keys (r_cells ?r) = insert ?i (keys (r_cells r))"
    using C by auto
  have i: "?i \<in> keys (r_cells r)" using regInv_keys [OF inv Some] by simp
  have d: "distinct (map fst (r_meters r))" using inv by (simp add: regInv_def metersInv_def)
  have ptr: "c_ipg (getCell ?r j) = c_ipg (getCell r j)" "c_shared (getCell ?r j) = c_shared (getCell r j)" for j
    by (simp_all add: gc)
  have n1: "nOf ?r j = nOf r j - (if j = ?i then 1 else 0)" for j
    by (simp add: nOf_def ms countIf_delete [OF d Some])
  have p1: "0 < nOf r ?i" unfolding nOf_def by (rule countIf_delete_pos [OF d Some]) simp
  have n2: "nIP ?r g ip = nIP r g ip - (if c_ipg ?c = Some g \<and> mt_src m = ip then 1 else 0)" for g ip
    unfolding counts_pointers(1) [of ?r r, OF ptr] ms countIf_delete [OF d Some] by (simp add: nIP_def)
  have p2: "0 < nIP r g (mt_src m)" if "c_ipg ?c = Some g" for g
    unfolding nIP_def by (rule countIf_delete_pos [OF d Some]) (use that in simp)
  have n3: "nSh ?r p = nSh r p - (if c_shared ?c = Some p then 1 else 0)" for p
    unfolding counts_pointers(2) [of ?r r, OF ptr] ms countIf_delete [OF d Some] by (simp add: nSh_def)
  have p3: "0 < nSh r p" if "c_shared ?c = Some p" for p
    unfolding nSh_def by (rule countIf_delete_pos [OF d Some]) (use that in simp)
  have b: "cellInv r ?i ?c" by (rule cellInv_base [OF inv])
  have act: "sharedActive (sharedOf ?r (getCell ?r ?i)) = sharedActive (sharedOf r ?c)"
    by (rule sharedOf_pointer [OF _ _ shs]) (use b ptr in \<open>auto simp: cellInv_def\<close>)
  have live: "liveOK ?r j al" if "liveOK r j al" "j \<noteq> ?i \<or> map_of al k = None" for j al
    unfolding liveOK_def
  proof (intro allI impI)
    fix x h
    assume x: "map_of al x = Some h"
    with that(1) obtain y where y: "map_of (r_meters r) x = Some y" "mt_cell y = j" "mt_src y = h_src h"
      unfolding liveOK_def by blast
    have "x \<noteq> k" using that(2) x y Some by auto
    with y show "\<exists>m. map_of (r_meters ?r) x = Some m \<and> mt_cell m = j \<and> mt_src m = h_src h" by (simp add: ms)
  qed
  have "liveOK r ?i (AList.delete k (c_live ?c))"
    by (rule liveSub_liveOK [OF liveSub_delete]) (use b in \<open>simp add: cellInv_def\<close>)
  then have l: "liveOK ?r ?i (AList.delete k (c_live ?c))" by (rule live) simp
  show ?thesis
  proof (rule regInv_change [OF inv, where i = ?i])
    show "metersInv ?r"
      using C inv Some i unfolding regInv_def metersInv_def by (auto simp: insert_absorb split: if_splits)
    show "cellInv ?r ?i (getCell ?r ?i)"
      using b act l n1 [of ?i] p1 by (auto simp: cellInv_def gc ips shs)
    show "gateInv ?r g (ipg_release (r_ipgs r ! g) (mt_src m))" if "c_ipg ?c = Some g" "g < length (r_ipgs r)" for g
      by (rule gateInv_release [OF _ p2 [OF that(1)]]) (use inv that n2 in \<open>auto simp: regInv_def\<close>)
    show "sharedInv ?r p (bump (- 1) (r_shareds r ! p))" if "c_shared ?c = Some p" "p < length (r_shareds r)" for p
      using inv that n3 [of p] p3 [of p] by (auto simp: regInv_def sharedInv_def of_nat_diff)
  qed (use ks ips shs live n1 n2 n3 in \<open>auto simp: gc fun_eq_iff\<close>)
qed

section \<open>A refused connection\<close>

definition sameGate :: "ipGate \<Rightarrow> ipGate \<Rightarrow> bool" where
  "sameGate a b = (g_ips b = g_ips a \<and> g_cap b = g_cap a)"

definition sameShared :: "sharedLimit \<Rightarrow> sharedLimit \<Rightarrow> bool" where
  "sameShared a b = (s_maxConns b = s_maxConns a \<and> s_live b = s_live a \<and> s_ipg b = s_ipg a)"

text \<open>Two registries that differ in their rejection counters and in the sequence number only.\<close>

definition sameButStats :: "Registry \<Rightarrow> Registry \<Rightarrow> bool" where
  "sameButStats r r' =
    (r_meters r' = r_meters r \<and> r_idx r' = r_idx r \<and> r_connSeq r \<le> r_connSeq r'
     \<and> r_bills r' = r_bills r \<and> r_labels r' = r_labels r \<and> r_nextID r' = r_nextID r
     \<and> list_all2 sameGate (r_ipgs r) (r_ipgs r') \<and> list_all2 sameShared (r_shareds r) (r_shareds r')
     \<and> (\<forall>j. \<exists>n. getCell r' j = (getCell r j)\<lparr>c_rejectedConns := n\<rparr>))"

lemma list_all2_update: "(\<And>x. R x x) \<Longrightarrow> (p < length xs \<Longrightarrow> R (xs ! p) y) \<Longrightarrow> list_all2 R xs (xs[p := y])"
  by (cases "p < length xs") (auto simp: list_all2_conv_all_nth nth_list_update)

lemma sameGate_refl [simp]: "sameGate g g" and sameShared_refl [simp]: "sameShared s s"
  by (simp_all add: sameGate_def sameShared_def)

lemma ipgsAfter_sameGate:
  "(\<And>g. c_ipg (getCell r i) = Some g \<Longrightarrow> g < length (r_ipgs r) \<Longrightarrow> sameGate (r_ipgs r ! g) (f (r_ipgs r ! g)))
    \<Longrightarrow> list_all2 sameGate (r_ipgs r) (ipgsAfter r i f)"
  by (auto simp: ipgsAfter_def list.rel_refl split: option.split intro!: list_all2_update)

lemma ipg_acquire_fail: "ipg_acquire g src = (False, g') \<Longrightarrow> sameGate g g'"
  by (auto simp: ipg_acquire_def sameGate_def split: option.splits if_splits)

lemma gateInv_round_trip:
  assumes "gateInv r g gt" "ipg_acquire gt src = (True, gt')"
  shows "ipg_release gt' src = gt"
proof (cases "map_of (g_ips gt) src")
  case None
  then have "gt' = gt\<lparr>g_ips := AList.update src 1 (g_ips gt)\<rparr>"
    using assms(2) by (auto simp: ipg_acquire_def split: if_splits)
  then show ?thesis
    using None by (simp add: ipg_release_def delete_update_fresh map_of_None_keys)
next
  case (Some n)
  then have gt': "gt' = gt\<lparr>g_ips := AList.update src (n + 1) (g_ips gt)\<rparr>"
    using assms(2) by (auto simp: ipg_acquire_def)
  have "map_of (g_ips gt) src = (if nIP r g src = 0 then None else Some (int (nIP r g src)))"
    using assms(1) by (simp only: gateInv_def)
  with Some have "1 < n + 1" by (simp split: if_splits)
  then show ?thesis by (simp add: gt' ipg_release_def update_same [OF Some])
qed

lemma ipgs_round_trip:
  assumes "\<And>g. c_ipg (getCell r i) = Some g \<Longrightarrow> g < length (r_ipgs r) \<and> gateInv r g (r_ipgs r ! g) \<and> fst (ipg_acquire (r_ipgs r ! g) src)"
    and "c_ipg (getCell r' i) = c_ipg (getCell r i)" "r_ipgs r' = ipgsAfter r i (\<lambda>g. snd (ipg_acquire g src))"
  shows "ipgsAfter r' i (\<lambda>g. ipg_release g src) = r_ipgs r"
proof (cases "c_ipg (getCell r i)")
  case None
  then show ?thesis using assms by (simp add: ipgsAfter_def)
next
  case (Some g)
  note A = assms(1) [OF Some]
  obtain gt' where "ipg_acquire (r_ipgs r ! g) src = (True, gt')" using A by (cases "ipg_acquire (r_ipgs r ! g) src") auto
  with gateInv_round_trip [of r g "r_ipgs r ! g" src gt'] A have "ipg_release gt' src = r_ipgs r ! g" by simp
  with \<open>ipg_acquire (r_ipgs r ! g) src = (True, gt')\<close> A Some assms(2,3) show ?thesis
    by (simp add: ipgsAfter_def)
qed

lemma acquireConn_False:
  "acquireConn i r = (False, r2) \<Longrightarrow>
    r_meters r2 = r_meters r \<and> r_idx r2 = r_idx r \<and> r_connSeq r2 = r_connSeq r \<and> r_bills r2 = r_bills r
    \<and> r_labels r2 = r_labels r \<and> r_nextID r2 = r_nextID r \<and> r_ipgs r2 = r_ipgs r
    \<and> keys (r_cells r2) = insert i (keys (r_cells r))
    \<and> list_all2 sameShared (r_shareds r) (r_shareds r2)
    \<and> (\<forall>j. \<exists>n. getCell r2 j = (getCell r j)\<lparr>c_rejectedConns := n\<rparr>)"
proof -
  assume a: "acquireConn i r = (False, r2)"
  have e: "\<exists>n. getCell r j = (getCell r j)\<lparr>c_rejectedConns := n\<rparr>" for j
    by (rule exI [of _ "c_rejectedConns (getCell r j)"]) simp
  show ?thesis
    using a
    by (cases "c_shared (getCell r i)")
      (auto simp: acquireConn_def tryAcquireConn_def sharedOf_def putConn_def Let_def sameShared_def list.rel_refl e
        intro!: list_all2_update split: if_splits)
qed

lemma acquireConn_distinct:
  "acquireConn i r = (ok, r2) \<Longrightarrow> distinct (map fst (r_cells r)) \<Longrightarrow> distinct (map fst (r_cells r2))"
  by (auto simp: acquireConn_def putConn_def Let_def split: prod.splits option.splits)

lemma dropConn_undo:
  assumes "acquireConn i r = (True, r2)" "pred_option (\<lambda>p. p < length (r_shareds r)) (c_shared (getCell r i))"
    "getCell r3 = getCell r2" "r_shareds r3 = r_shareds r2"
  shows "r_shareds (dropConn i r3) = r_shareds r \<and> getCell (dropConn i r3) = getCell r"
proof -
  note A = acquireConn_True [OF assms(1)]
  have c: "getCell r3 i = (getCell r i)\<lparr>c_connsLive := c_connsLive (getCell r i) + 1\<rparr>" using A assms(3) by simp
  have s: "r_shareds r3 = sharedsAfter r i 1" using A assms(4) by simp
  have b: "bump (- 1) (bump 1 x) = x" for x by (simp add: bump_def)
  have "sharedsAfter r3 i (- 1) = r_shareds r"
    using c s assms(2) by (cases "c_shared (getCell r i)") (auto simp: sharedsAfter_def b)
  moreover have "getCell (dropConn i r3) = getCell r"
    using A assms(3) by (simp add: dropConn_eq c fun_eq_iff)
  ultimately show ?thesis by (simp add: dropConn_eq)
qed

lemma Open_None_same:
  assumes inv: "regInv r" and op: "Open i src now r = (None, r')"
  shows "sameButStats r r' \<and> keys (r_cells r') = insert i (keys (r_cells r))
    \<and> (distinct (map fst (r_cells r)) \<longrightarrow> distinct (map fst (r_cells r')))"
proof -
  let ?r0 = "ensureCell i r"
  have e: "\<exists>n. getCell r j = (getCell r j)\<lparr>c_rejectedConns := n\<rparr>" for j
    by (rule exI [of _ "c_rejectedConns (getCell r j)"]) simp
  have f0: "r_bills ?r0 = r_bills r" "r_labels ?r0 = r_labels r" "r_nextID ?r0 = r_nextID r"
    "distinct (map fst (r_cells r)) \<Longrightarrow> distinct (map fst (r_cells ?r0))"
    by (auto simp: ensureCell_def split: option.splits)
  have b: "cellInv r i (getCell r i)" by (rule cellInv_base [OF inv])
  obtain ok1 r1 where a: "acquireIP i src ?r0 = (ok1, r1)" by (cases "acquireIP i src ?r0")
  have r1: "r1 = ?r0\<lparr>r_ipgs := ipgsAfter r i (\<lambda>g. snd (ipg_acquire g src))\<rparr>"
    "ok1 \<longleftrightarrow> (\<forall>g. c_ipg (getCell r i) = Some g \<longrightarrow> fst (ipg_acquire (r_ipgs r ! g) src))"
    using acquireIP_eq [OF a] ipgsAfter_cong [of ?r0 i r] by auto
  show ?thesis
  proof (cases ok1)
    case False
    then have "r' = r1" using op a by (auto simp: Open_def)
    moreover have "list_all2 sameGate (r_ipgs r) (ipgsAfter r i (\<lambda>g. snd (ipg_acquire g src)))"
    proof (rule ipgsAfter_sameGate)
      fix g
      assume "c_ipg (getCell r i) = Some g"
      with False r1(2) have "\<not> fst (ipg_acquire (r_ipgs r ! g) src)" by auto
      then show "sameGate (r_ipgs r ! g) (snd (ipg_acquire (r_ipgs r ! g) src))"
        using ipg_acquire_fail by (metis prod.collapse)
    qed
    ultimately show ?thesis using r1(1) f0 e by (simp add: sameButStats_def list.rel_refl)
  next
    case True
    have undo: "ipgsAfter x i (\<lambda>g. ipg_release g src) = r_ipgs r"
      if "c_ipg (getCell x i) = c_ipg (getCell r i)" "r_ipgs x = r_ipgs r1" for x
    proof (rule ipgs_round_trip [OF _ that(1)])
      show "r_ipgs x = ipgsAfter r i (\<lambda>g. snd (ipg_acquire g src))" using that r1 by simp
    qed (use True r1(2) b inv in \<open>auto simp: cellInv_def regInv_def\<close>)
    obtain ok2 r2 where c: "acquireConn i r1 = (ok2, r2)" by (cases "acquireConn i r1")
    have g1: "getCell r1 = getCell r" "r_shareds r1 = r_shareds r" using r1(1) by (simp_all add: fun_eq_iff)
    show ?thesis
    proof (cases ok2)
      case False
      have c': "acquireConn i r1 = (False, r2)" using c False by simp
      note F = acquireConn_False [OF c']
      have r': "r' = releaseIP i src r2" using op a c True False by (auto simp: Open_def)
      have cells: "\<exists>n. getCell r2 j = (getCell r j)\<lparr>c_rejectedConns := n\<rparr>" for j using F g1 by simp
      from cells [of i] have "c_ipg (getCell r2 i) = c_ipg (getCell r i)" by auto
      then have "r_ipgs r' = r_ipgs r" using undo F r' by (simp add: releaseIP_eq)
      then show ?thesis
        using r' F r1(1) f0 cells g1 acquireConn_distinct [OF c]
        by (auto simp: releaseIP_eq sameButStats_def list.rel_refl)
    next
      case True2: True
      have c': "acquireConn i r1 = (True, r2)" using c True2 by simp
      note T = acquireConn_True [OF c']
      let ?r3 = "r2\<lparr>r_connSeq := r_connSeq r2 + 1\<rparr>"
      have r': "r' = releaseIP i src (dropConn i ?r3)"
        using op a c True True2 by (auto simp: Open_def Let_def split: prod.splits bool.splits)
      have D: "r_shareds (dropConn i ?r3) = r_shareds r" "getCell (dropConn i ?r3) = getCell r"
        using dropConn_undo [OF c', of ?r3] b g1 by (auto simp: cellInv_def fun_eq_iff)
      have "r_ipgs (dropConn i ?r3) = r_ipgs r1" using T by (simp add: dropConn_eq)
      then have "r_ipgs r' = r_ipgs r" using undo [of "dropConn i ?r3"] D r' by (simp add: releaseIP_eq)
      then show ?thesis
        using r' D T r1(1) f0 e
        by (auto simp: releaseIP_eq sameButStats_def list.rel_refl dropConn_eq)
    qed
  qed
qed

lemma regInv_stats:
  assumes inv: "regInv r" and s: "sameButStats r r'" and ks: "keys (r_cells r') = insert i (keys (r_cells r))"
    and d: "distinct (map fst (r_cells r'))"
  shows "regInv r'"
proof -
  have ms: "r_meters r' = r_meters r" "r_idx r' = r_idx r" "r_connSeq r \<le> r_connSeq r'"
    and gs: "list_all2 sameGate (r_ipgs r) (r_ipgs r')" and ss: "list_all2 sameShared (r_shareds r) (r_shareds r')"
    and cs: "\<And>j. \<exists>n. getCell r' j = (getCell r j)\<lparr>c_rejectedConns := n\<rparr>"
    using s by (auto simp: sameButStats_def)
  have c: "c_connsLive (getCell r' j) = c_connsLive (getCell r j)" "c_maxConns (getCell r' j) = c_maxConns (getCell r j)"
    "c_live (getCell r' j) = c_live (getCell r j)" "c_ipg (getCell r' j) = c_ipg (getCell r j)"
    "c_shared (getCell r' j) = c_shared (getCell r j)" for j
    using cs [of j] by auto
  have n: "nOf r' = nOf r" "nIP r' = nIP r" "nSh r' = nSh r"
    by (simp_all add: fun_eq_iff nOf_def nIP_def nSh_def ms c)
  have lg: "length (r_ipgs r') = length (r_ipgs r)" "length (r_shareds r') = length (r_shareds r)"
    using gs ss by (simp_all add: list_all2_lengthD)
  have "metersInv r'"
    using inv d unfolding regInv_def metersInv_def ms ks by (meson insertI2 le_trans ms(3))
  moreover have "cellInv r' j (getCell r' j)" for j
  proof -
    have b: "cellInv r j (getCell r j)" by (rule cellInv_base [OF inv])
    have "sharedActive (sharedOf r' (getCell r' j)) = sharedActive (sharedOf r (getCell r j))"
      using b ss lg by (cases "c_shared (getCell r j)")
        (auto simp: sharedOf_def sharedActive_def c cellInv_def list_all2_conv_all_nth sameShared_def)
    then show ?thesis using b unfolding cellInv_def c n lg liveOK_cong [OF ms(1)] by auto
  qed
  moreover have "gateInv r' g (r_ipgs r' ! g)" if "g < length (r_ipgs r')" for g
    using inv that gs unfolding gateInv_cong [OF n(2)]
    by (auto simp: regInv_def lg list_all2_conv_all_nth sameGate_def gateInv_def)
  moreover have "sharedInv r' p (r_shareds r' ! p)" if "p < length (r_shareds r')" for p
    using inv that ss unfolding sharedInv_cong [OF n(3)]
    by (auto simp: regInv_def lg list_all2_conv_all_nth sameShared_def sharedInv_def)
  ultimately show ?thesis unfolding regInv_def by blast
qed

lemma regInv_Open: "regInv r \<Longrightarrow> regInv (snd (Open i src now r))"
proof -
  assume inv: "regInv r"
  obtain k r' where op: "Open i src now r = (k, r')" by (cases "Open i src now r")
  show ?thesis
  proof (cases k)
    case None
    have "distinct (map fst (r_cells r))" using inv by (simp add: regInv_def metersInv_def)
    with Open_None_same [OF inv op [unfolded None]] regInv_stats [OF inv, of r' i] op show ?thesis by simp
  next
    case (Some x)
    with regInv_Open_Some [OF inv op [unfolded Some]] op show ?thesis by simp
  qed
qed

section \<open>Configuration\<close>

lemma regInv_no_meters:
  assumes "r_meters r = []"
  shows "regInv r \<longleftrightarrow> distinct (map fst (r_cells r)) \<and> (\<forall>k. map_of (r_idx r) k = None)
    \<and> (\<forall>i \<in> keys (r_cells r). c_connsLive (getCell r i) = 0 \<and> c_live (getCell r i) = []
        \<and> pred_option (\<lambda>g. g < length (r_ipgs r)) (c_ipg (getCell r i))
        \<and> pred_option (\<lambda>p. p < length (r_shareds r)) (c_shared (getCell r i)))
    \<and> (\<forall>g < length (r_ipgs r). g_ips (r_ipgs r ! g) = [])
    \<and> (\<forall>p < length (r_shareds r). s_maxConns (r_shareds r ! p) > 0 \<longrightarrow> s_live (r_shareds r ! p) = 0)"
proof -
  have n: "nOf r i = 0" "nIP r g ip = 0" "nSh r p = 0" for i g ip p
    by (simp_all add: nOf_def nIP_def nSh_def countIf_def assms)
  have e: "(\<forall>k. map_of al k = None) \<longleftrightarrow> al = []" for al :: "('x \<times> 'y) list"
    by (cases al) auto
  have l: "liveOK r i al \<longleftrightarrow> al = []" for i al
    by (simp add: liveOK_def assms e [symmetric])
  have "cellInv r i c \<longleftrightarrow> c_connsLive c = 0 \<and> c_live c = [] \<and> pred_option (\<lambda>g. g < length (r_ipgs r)) (c_ipg c)
        \<and> pred_option (\<lambda>p. p < length (r_shareds r)) (c_shared c)" for i c
    by (auto simp: cellInv_def n l)
  moreover have "gateInv r g gt \<longleftrightarrow> g_ips gt = []" for g gt
    by (auto simp: gateInv_def n e)
  moreover have "sharedInv r p s \<longleftrightarrow> (s_maxConns s > 0 \<longrightarrow> s_live s = 0)" for p s
    by (auto simp: sharedInv_def n)
  ultimately show ?thesis by (simp add: regInv_def metersInv_def assms)
qed

lemma regInv_ensureCell:
  assumes "r_meters r = []" "regInv r"
  shows "regInv (ensureCell i r)"
  using assms
  by (auto simp: regInv_no_meters ensureCell_def newCell_def split: option.splits)

lemma regInv_config_cell:
  assumes "r_meters r = []" "regInv r"
    and "c_connsLive c = 0" "c_live c = []" "pred_option (\<lambda>g. g < length (r_ipgs r)) (c_ipg c)"
      "pred_option (\<lambda>p. p < length (r_shareds r)) (c_shared c)"
  shows "regInv (putCell i c r)"
  using assms by (auto simp: regInv_no_meters)

lemma regInv_grow:
  assumes "r_meters r = []" "regInv r" "\<forall>g \<in> set gs. g_ips g = []" "\<forall>s \<in> set ss. s_live s = 0"
  shows "regInv (r\<lparr>r_ipgs := r_ipgs r @ gs, r_shareds := r_shareds r @ ss\<rparr>)"
proof -
  have "pred_option (\<lambda>g. g < length (r_ipgs r) + length gs) x" if "pred_option (\<lambda>g. g < length (r_ipgs r)) x" for x
    using that by (cases x) auto
  moreover have "pred_option (\<lambda>g. g < length (r_shareds r) + length ss) x" if "pred_option (\<lambda>g. g < length (r_shareds r)) x" for x
    using that by (cases x) auto
  ultimately show ?thesis
    using assms by (simp add: regInv_no_meters nth_append)
qed

lemma cell_no_meters:
  assumes "r_meters r = []" "regInv r"
  shows "c_connsLive (getCell r i) = 0" "c_live (getCell r i) = []"
    "pred_option (\<lambda>g. g < length (r_ipgs r)) (c_ipg (getCell r i))"
    "pred_option (\<lambda>p. p < length (r_shareds r)) (c_shared (getCell r i))"
proof -
  have b: "cellInv r i (getCell r i)" by (rule cellInv_base [OF assms(2)])
  then show "c_connsLive (getCell r i) = 0" "pred_option (\<lambda>g. g < length (r_ipgs r)) (c_ipg (getCell r i))"
    "pred_option (\<lambda>p. p < length (r_shareds r)) (c_shared (getCell r i))"
    using assms(1) by (auto simp: cellInv_def nOf_def countIf_def)
  have "liveOK r i (c_live (getCell r i))" using b by (simp add: cellInv_def)
  then have "map_of (c_live (getCell r i)) k = None" for k
    using assms(1) unfolding liveOK_def by (cases "map_of (c_live (getCell r i)) k") auto
  then have "keys (c_live (getCell r i)) = {}" by (auto simp: map_of_None_keys)
  then show "c_live (getCell r i) = []" by (simp add: keys_def)
qed

lemma registry_update_order:
  "r\<lparr>r_cells := a, r_ipgs := b\<rparr> = r\<lparr>r_ipgs := b, r_cells := a\<rparr>"
  "r\<lparr>r_shareds := c, r_ipgs := b\<rparr> = r\<lparr>r_ipgs := b, r_shareds := c\<rparr>"
  by (cases r, simp)+

lemma regInv_grow_ips:
  assumes "r_meters r = []" "regInv r" "\<forall>g \<in> set gs. g_ips g = []"
  shows "regInv (r\<lparr>r_ipgs := r_ipgs r @ gs\<rparr>)"
proof -
  have "r\<lparr>r_ipgs := r_ipgs r @ gs, r_shareds := r_shareds r @ []\<rparr> = r\<lparr>r_ipgs := r_ipgs r @ gs\<rparr>" by (cases r) simp
  then show ?thesis using regInv_grow [OF assms, of "[]"] by simp
qed

lemma regInv_SetLimits:
  assumes "r_meters r = []" "regInv r"
  shows "regInv (SetLimits i l r)" "r_meters (SetLimits i l r) = []"
proof -
  let ?r = "ensureCell i r"
  have e: "regInv ?r" "r_meters ?r = []" using assms regInv_ensureCell by auto
  note C = cell_no_meters [OF e(2,1), of i]
  have "regInv (putCell i ((getCell ?r i)\<lparr>c_maxConns := l_MaxConns l\<rparr>) ?r)"
    by (rule regInv_config_cell [OF e(2,1)]) (use C in simp_all)
  moreover have "regInv (putCell i ((getCell ?r i)\<lparr>c_maxConns := l_MaxConns l, c_ipg := Some (length (r_ipgs ?r))\<rparr>)
      (?r\<lparr>r_ipgs := r_ipgs ?r @ [newIPGate (l_MaxIPs l)]\<rparr>))"
    by (rule regInv_config_cell [OF _ regInv_grow_ips [OF e(2,1)]]) (use C assms in \<open>simp_all add: newIPGate_def\<close>)
  ultimately show "regInv (SetLimits i l r)"
    by (simp add: SetLimits_def Let_def putCell_def registry_update_order)
  show "r_meters (SetLimits i l r) = []" using assms by (simp add: SetLimits_def Let_def)
qed

lemma regInv_SetLimitsShared:
  assumes "r_meters r = []" "regInv r"
  shows "regInv (SetLimitsShared is l r)" "r_meters (SetLimitsShared is l r) = []"
proof -
  define g where "g = (if l_MaxIPs l > 0 then Some (length (r_ipgs r)) else None)"
  define s where "s = \<lparr> s_maxConns = l_MaxConns l, s_live = 0, s_rejected = 0, s_ipg = g \<rparr>"
  define gs where "gs = (if l_MaxIPs l > 0 then [newIPGate (l_MaxIPs l)] else [])"
  define r1 where "r1 = r\<lparr>r_ipgs := r_ipgs r @ gs, r_shareds := r_shareds r @ [s]\<rparr>"
  define f where "f = (\<lambda>i r. let r0 = ensureCell i r in
          putCell i ((getCell r0 i)\<lparr>c_shared := Some (length (r_shareds r1) - 1), c_ipg := g, c_maxConns := 0\<rparr>) r0)"
  have "regInv r1" unfolding r1_def by (rule regInv_grow [OF assms]) (auto simp: gs_def newIPGate_def s_def)
  moreover have "r_meters r1 = []" using assms by (simp add: r1_def)
  moreover have "pred_option (\<lambda>x. x < length (r_ipgs r1)) g" "0 < length (r_shareds r1)" by (auto simp: g_def r1_def gs_def)
  moreover have "regInv (fold f is x) \<and> r_meters (fold f is x) = []"
    if "regInv x" "r_meters x = []" "r_ipgs x = r_ipgs r1" "r_shareds x = r_shareds r1" for x
    using that
  proof (induction "is" arbitrary: x)
    case (Cons i js)
    let ?x = "ensureCell i x"
    have e: "regInv ?x" "r_meters ?x = []" using Cons.prems regInv_ensureCell by auto
    note C = cell_no_meters [OF e(2,1), of i]
    have "regInv (f i x)" unfolding f_def Let_def
      by (rule regInv_config_cell [OF e(2,1)]) (use C Cons.prems calculation in auto)
    then show ?case using Cons.IH [of "f i x"] Cons.prems by (simp add: f_def Let_def)
  qed simp
  ultimately have F: "regInv (fold f is r1) \<and> r_meters (fold f is r1) = []" by blast
  have "SetLimitsShared is l r = fold f is r1"
    by (simp add: SetLimitsShared_def Let_def f_def r1_def g_def gs_def s_def registry_update_order cong: if_cong)
  with F show "regInv (SetLimitsShared is l r)" "r_meters (SetLimitsShared is l r) = []" by simp_all
qed

end
