(* ===== verification/MeterRuns.thy ===== *)
theory MeterRuns
  imports MeterInv
begin

text \<open>
  Runs of the registry: a configuration followed by any sequence of the operations of the program.
  The limits hold along every run, no byte is lost or counted twice, no kill function is started
  twice, and a disabled credential stays shut.
\<close>

section \<open>Runs of the registry\<close>

text \<open>
  Limits are configured before connections arrive; after that the operations of the program happen in
  any order.  \<open>exec\<close> is one operation, \<open>kills\<close> the connections whose kill function it starts.
\<close>

datatype cfg = CfgBill string | CfgLimits nat Limits | CfgShared "nat list" Limits

fun cfgStep :: "cfg \<Rightarrow> Registry \<Rightarrow> Registry" where
  "cfgStep (CfgBill b) r = snd (IDForBill b r)"
| "cfgStep (CfgLimits i l) r = SetLimits i l r"
| "cfgStep (CfgShared is l) r = SetLimitsShared is l r"

definition configure :: "cfg list \<Rightarrow> Registry" where
  "configure cs = fold cfgStep cs NewRegistry"

datatype mop = OpBill string | OpOpen nat Addr int | OpUp nat int int | OpDown nat int int | OpClose nat
  | OpDisable nat | OpEnable nat | OpKillConn nat | OpKillIP nat Addr | OpEvict int | OpReap int int

fun exec :: "mop \<Rightarrow> Registry \<Rightarrow> Registry" where
  "exec (OpBill b) r = snd (IDForBill b r)"
| "exec (OpOpen i src now) r = snd (Open i src now r)"
| "exec (OpUp k n now) r = AddUp k n now r"
| "exec (OpDown k n now) r = AddDown k n now r"
| "exec (OpClose k) r = closeConn k r"
| "exec (OpDisable i) r = snd (Disable i r)"
| "exec (OpEnable i) r = snd (Enable i r)"
| "exec (OpKillConn k) r = snd (KillConn k r)"
| "exec (OpKillIP i ip) r = snd (KillIP i ip r)"
| "exec (OpEvict n) r = snd (evictIdle n r)"
| "exec (OpReap idle now) r = snd (ReapIdle idle now r)"

fun kills :: "mop \<Rightarrow> Registry \<Rightarrow> nat list" where
  "kills (OpDisable i) r = fst (fst (Disable i r))"
| "kills (OpKillConn k) r = fst (KillConn k r)"
| "kills (OpKillIP i ip) r = fst (KillIP i ip r)"
| "kills (OpEvict n) r = fst (evictIdle n r)"
| "kills (OpReap idle now) r = fst (ReapIdle idle now r)"
| "kills _ r = []"

lemma regInv_NewRegistry: "regInv NewRegistry"
  by (simp add: regInv_no_meters NewRegistry_def)

lemma regInv_bills: "regInv (r\<lparr>r_nextID := a, r_bills := b, r_labels := c\<rparr>) = regInv r"
proof -
  let ?r = "r\<lparr>r_nextID := a, r_bills := b, r_labels := c\<rparr>"
  have g: "getCell ?r = getCell r" by (simp add: getCell_def fun_eq_iff)
  have n: "nOf ?r = nOf r" "nIP ?r = nIP r" "nSh ?r = nSh r" by (simp_all add: fun_eq_iff nOf_def nIP_def nSh_def g)
  have "cellInv ?r i x = cellInv r i x" for i x
    by (rule cellInv_cong) (simp_all add: n liveOK_def)
  then show ?thesis by (simp add: regInv_def metersInv_def g gateInv_cong [OF n(2)] sharedInv_cong [OF n(3)])
qed

lemma regInv_IDForBill: "regInv r \<Longrightarrow> regInv (snd (IDForBill b r))"
  by (simp add: IDForBill_def Let_def regInv_bills split: option.split)

lemma IDForBill_meters [simp]: "r_meters (snd (IDForBill b r)) = r_meters r"
  by (simp add: IDForBill_def Let_def split: option.split)

lemma regInv_configure: "regInv (configure cs) \<and> r_meters (configure cs) = []"
proof -
  have "regInv (fold cfgStep cs r) \<and> r_meters (fold cfgStep cs r) = []" if "regInv r" "r_meters r = []" for r
    using that
  proof (induction cs arbitrary: r)
    case (Cons c cs)
    have "regInv (cfgStep c r) \<and> r_meters (cfgStep c r) = []"
      using Cons.prems by (cases c) (simp_all add: regInv_IDForBill regInv_SetLimits regInv_SetLimitsShared)
    then show ?case using Cons.IH by simp
  qed simp
  then show ?thesis by (simp add: configure_def regInv_NewRegistry NewRegistry_def [THEN arg_cong [where f = r_meters]])
qed

lemmas [inv_intros] = regInv_IDForBill regInv_Open regInv_AddUp regInv_AddDown regInv_closeConn regInv_Disable
  regInv_Enable regInv_KillConn regInv_KillIP regInv_evictIdle regInv_ReapIdle

lemma regInv_exec: "regInv r \<Longrightarrow> regInv (exec op r)"
  by (cases op) (simp_all add: inv_intros)

lemma regInv_run: "regInv r \<Longrightarrow> regInv (fold exec ops r)"
  by (induction ops arbitrary: r) (simp_all add: regInv_exec)

definition openSources :: "Registry \<Rightarrow> nat \<Rightarrow> Addr set" where
  "openSources r g = {mt_src m | k m. (k, m) \<in> set (r_meters r) \<and> c_ipg (getCell r (mt_cell m)) = Some g}"

lemma openSources_keys:
  assumes "gateInv r g gt"
  shows "openSources r g = keys (g_ips gt)"
proof -
  have m: "map_of (g_ips gt) ip = (if nIP r g ip = 0 then None else Some (int (nIP r g ip)))" for ip
    using assms by (simp only: gateInv_def)
  have "ip \<in> openSources r g \<longleftrightarrow> nIP r g ip \<noteq> 0" for ip
    by (auto simp: openSources_def nIP_def countIf_zero)
  moreover have "nIP r g ip \<noteq> 0 \<longleftrightarrow> ip \<in> keys (g_ips gt)" for ip
    using m [of ip] map_of_None_keys [of "g_ips gt" ip] by (auto split: if_splits)
  ultimately show ?thesis by blast
qed

lemma regInv_limits:
  assumes inv: "regInv r"
  shows "c_connsLive (getCell r i) = int (nOf r i)"
    and "0 < c_maxConns (getCell r i) \<and> c_shared (getCell r i) = None \<longrightarrow> int (nOf r i) \<le> c_maxConns (getCell r i)"
    and "c_shared (getCell r i) = Some p \<and> 0 < s_maxConns (r_shareds r ! p) \<longrightarrow> int (nSh r p) \<le> s_maxConns (r_shareds r ! p)"
    and "c_ipg (getCell r i) = Some g \<and> 0 < g_cap (r_ipgs r ! g) \<longrightarrow> int (card (openSources r g)) \<le> g_cap (r_ipgs r ! g)"
proof -
  have c: "cellInv r i (getCell r i)" by (rule cellInv_base [OF inv])
  have sh: "sharedInv r p (r_shareds r ! p)" if "p < length (r_shareds r)" using inv that by (auto simp: regInv_def)
  have gt: "gateInv r g (r_ipgs r ! g)" if "g < length (r_ipgs r)" using inv that by (auto simp: regInv_def)
  have cd: "card (openSources r g) = length (g_ips (r_ipgs r ! g))" if "gateInv r g (r_ipgs r ! g)"
  proof -
    have "distinct (map fst (g_ips (r_ipgs r ! g)))" using that by (simp add: gateInv_def)
    from distinct_card [OF this] show ?thesis unfolding openSources_keys [OF that] keys_def by simp
  qed
  show "c_connsLive (getCell r i) = int (nOf r i)"
    and "0 < c_maxConns (getCell r i) \<and> c_shared (getCell r i) = None \<longrightarrow> int (nOf r i) \<le> c_maxConns (getCell r i)"
    using c by (auto simp: cellInv_def sharedOf_def sharedActive_def)
  show "c_shared (getCell r i) = Some p \<and> 0 < s_maxConns (r_shareds r ! p) \<longrightarrow> int (nSh r p) \<le> s_maxConns (r_shareds r ! p)"
    using c sh by (auto simp: cellInv_def sharedInv_def)
  show "c_ipg (getCell r i) = Some g \<and> 0 < g_cap (r_ipgs r ! g) \<longrightarrow> int (card (openSources r g)) \<le> g_cap (r_ipgs r ! g)"
    using c gt cd by (auto simp: cellInv_def gateInv_def)
qed

text \<open>
  C5: after any configuration and any sequence of operations the live counter of a credential equals
  its number of open connections, and the open connections of a credential, the open connections of a
  user (over all its credentials) and the distinct source addresses of a gate never exceed their
  limits.
\<close>

theorem limits_respected:
  assumes "r = fold exec ops (configure cs)"
  shows "c_connsLive (getCell r i) = int (nOf r i)
    \<and> (0 < c_maxConns (getCell r i) \<and> c_shared (getCell r i) = None \<longrightarrow> int (nOf r i) \<le> c_maxConns (getCell r i))
    \<and> (c_shared (getCell r i) = Some p \<and> 0 < s_maxConns (r_shareds r ! p) \<longrightarrow> int (nSh r p) \<le> s_maxConns (r_shareds r ! p))
    \<and> (c_ipg (getCell r i) = Some g \<and> 0 < g_cap (r_ipgs r ! g) \<longrightarrow> int (card (openSources r g)) \<le> g_cap (r_ipgs r ! g))"
proof -
  have "regInv r" unfolding assms by (rule regInv_run) (simp add: regInv_configure)
  from regInv_limits [OF this] show ?thesis by blast
qed

section \<open>Bytes\<close>

text \<open>The private counters of the open connections of a cell.\<close>

definition msum :: "(Meter \<Rightarrow> u64) \<Rightarrow> (nat \<times> Meter) list \<Rightarrow> nat \<Rightarrow> u64" where
  "msum f al i = sum_list (map (\<lambda>(k, m). if mt_cell m = i then f m else 0) al)"

text \<open>What a run reports upwards and downwards for the cell \<open>i\<close>.\<close>

fun opUp :: "mop \<Rightarrow> Registry \<Rightarrow> nat \<Rightarrow> u64" where
  "opUp (OpUp k n now) r i = (case map_of (r_meters r) k of None \<Rightarrow> 0
     | Some m \<Rightarrow> if 0 < n \<and> mt_cell m = i then word_of_int n else 0)"
| "opUp _ r i = 0"

fun opDn :: "mop \<Rightarrow> Registry \<Rightarrow> nat \<Rightarrow> u64" where
  "opDn (OpDown k n now) r i = (case map_of (r_meters r) k of None \<Rightarrow> 0
     | Some m \<Rightarrow> if 0 < n \<and> mt_cell m = i then word_of_int n else 0)"
| "opDn _ r i = 0"

fun reported :: "(mop \<Rightarrow> Registry \<Rightarrow> nat \<Rightarrow> u64) \<Rightarrow> mop list \<Rightarrow> Registry \<Rightarrow> nat \<Rightarrow> u64" where
  "reported f [] r i = 0"
| "reported f (op # ops) r i = f op r i + reported f ops (exec op r) i"

lemma msum_fresh: "k \<notin> keys al \<Longrightarrow> msum f (AList.update k m al) i = msum f al i + (if mt_cell m = i then f m else 0)"
  by (simp add: msum_def update_fresh)

lemma msum_present:
  "map_of al k = Some m \<Longrightarrow> mt_cell v = mt_cell m \<Longrightarrow>
    msum f (AList.update k v al) i = msum f al i + (if mt_cell m = i then f v - f m else 0)"
proof (induction al)
  case (Cons a al)
  obtain k' m' where [simp]: "a = (k', m')" by (cases a)
  show ?case
  proof (cases "k' = k")
    case True
    with Cons.prems show ?thesis by (simp add: msum_def)
  next
    case False
    with Cons show ?thesis by (simp add: msum_def add.assoc)
  qed
qed simp

lemma msum_delete:
  "distinct (map fst al) \<Longrightarrow> map_of al k = Some m \<Longrightarrow>
    msum f (AList.delete k al) i = msum f al i - (if mt_cell m = i then f m else 0)"
proof (induction al)
  case (Cons a al)
  obtain k' m' where [simp]: "a = (k', m')" by (cases a)
  show ?case
  proof (cases "k' = k")
    case True
    with Cons.prems have "k \<notin> keys al" by (auto simp: keys_def)
    with True Cons.prems show ?thesis by (simp add: msum_def delete_fresh)
  next
    case False
    with Cons show ?thesis by (simp add: msum_def)
  qed
qed simp

definition upTotal :: "Registry \<Rightarrow> nat \<Rightarrow> u64" where
  "upTotal r i = c_up (getCell r i) + msum mt_localUp (r_meters r) i"

definition dnTotal :: "Registry \<Rightarrow> nat \<Rightarrow> u64" where
  "dnTotal r i = c_down (getCell r i) + msum mt_localDn (r_meters r) i"

lemma totals_cong:
  "r_meters r' = r_meters r \<Longrightarrow> (\<And>j. c_up (getCell r' j) = c_up (getCell r j)) \<Longrightarrow> upTotal r' i = upTotal r i"
  "r_meters r' = r_meters r \<Longrightarrow> (\<And>j. c_down (getCell r' j) = c_down (getCell r j)) \<Longrightarrow> dnTotal r' i = dnTotal r i"
  by (simp_all add: upTotal_def dnTotal_def)

lemma touch_bytes [simp]:
  "c_up (getCell (touch i k now r) j) = c_up (getCell r j)" "c_down (getCell (touch i k now r) j) = c_down (getCell r j)"
  by (simp_all add: touch_def split: option.split)

lemma totals_AddUp:
  "upTotal (AddUp k n now r) i = upTotal r i + opUp (OpUp k n now) r i" "dnTotal (AddUp k n now r) i = dnTotal r i"
  by (cases "map_of (r_meters r) k"; simp add: AddUp_def upTotal_def dnTotal_def Let_def msum_present)+

lemma totals_AddDown:
  "dnTotal (AddDown k n now r) i = dnTotal r i + opDn (OpDown k n now) r i" "upTotal (AddDown k n now r) i = upTotal r i"
  by (cases "map_of (r_meters r) k"; simp add: AddDown_def upTotal_def dnTotal_def Let_def msum_present)+

lemma totals_Open:
  assumes inv: "regInv r"
  shows "upTotal (snd (Open i src now r)) j = upTotal r j" "dnTotal (snd (Open i src now r)) j = dnTotal r j"
proof -
  obtain x r' where op: "Open i src now r = (x, r')" by (cases "Open i src now r")
  have "upTotal r' j = upTotal r j \<and> dnTotal r' j = dnTotal r j"
  proof (cases x)
    case None
    then have s: "sameButStats r r'" using Open_None_same [OF inv] op by simp
    then have "\<exists>n. getCell r' j = (getCell r j)\<lparr>c_rejectedConns := n\<rparr>" for j by (simp add: sameButStats_def)
    then have "c_up (getCell r' j) = c_up (getCell r j) \<and> c_down (getCell r' j) = c_down (getCell r j)" for j
      by (metis Cell.select_convs(1,2) Cell.surjective Cell.update_convs(8))
    with s show ?thesis using totals_cong [of r' r] by (simp add: sameButStats_def)
  next
    case (Some k)
    note O = Open_SomeD [OF op [unfolded Some], unfolded Let_def]
    have kf: "k \<notin> keys (r_meters r)"
      using regInv_keys [OF inv] O keys_map_of [of k "r_meters r"] by fastforce
    have ms: "r_meters r' = AList.update k \<lparr> mt_cell = i, mt_src = src, mt_localUp = 0, mt_localDn = 0 \<rparr> (r_meters r)"
      using O by simp
    have gc: "c_up (getCell r' j) = c_up (getCell r j) \<and> c_down (getCell r' j) = c_down (getCell r j)"
      using O by simp
    show ?thesis
      using gc by (simp add: upTotal_def dnTotal_def ms msum_fresh [OF kf])
  qed
  then show "upTotal (snd (Open i src now r)) j = upTotal r j" "dnTotal (snd (Open i src now r)) j = dnTotal r j"
    by (simp_all add: op)
qed

lemma totals_closeConn:
  assumes inv: "regInv r"
  shows "upTotal (closeConn k r) j = upTotal r j" "dnTotal (closeConn k r) j = dnTotal r j"
proof -
  have "upTotal (closeConn k r) j = upTotal r j \<and> dnTotal (closeConn k r) j = dnTotal r j"
  proof (cases "map_of (r_meters r) k")
    case (Some m)
    have d: "distinct (map fst (r_meters r))" using inv by (simp add: regInv_def metersInv_def)
    show ?thesis
      using closeConn_eq [OF Some] by (simp add: upTotal_def dnTotal_def msum_delete [OF d Some])
  qed (simp add: closeConn_def)
  then show "upTotal (closeConn k r) j = upTotal r j" "dnTotal (closeConn k r) j = dnTotal r j" by auto
qed

text \<open>The switch, the kill operations and the reapers touch no byte counter.\<close>

definition sameBytes :: "Registry \<Rightarrow> Registry \<Rightarrow> bool" where
  "sameBytes r r' = (r_meters r' = r_meters r
     \<and> (\<forall>j. c_up (getCell r' j) = c_up (getCell r j) \<and> c_down (getCell r' j) = c_down (getCell r j)))"

lemma sameBytes_refl: "sameBytes r r"
  by (simp add: sameBytes_def)

lemma sameBytes_trans: "sameBytes r r' \<Longrightarrow> sameBytes r' r'' \<Longrightarrow> sameBytes r r''"
  by (simp add: sameBytes_def)

lemma sameBytes_putCell: "c_up c = c_up (getCell r i) \<Longrightarrow> c_down c = c_down (getCell r i) \<Longrightarrow> sameBytes r (putCell i c r)"
  by (simp add: sameBytes_def)

lemma sameBytes_totals: "sameBytes r r' \<Longrightarrow> upTotal r' i = upTotal r i \<and> dnTotal r' i = dnTotal r i"
  by (simp add: sameBytes_def upTotal_def dnTotal_def)

lemma sameBytes_IDForBill: "sameBytes r (snd (IDForBill b r))"
  by (simp add: IDForBill_def Let_def sameBytes_def getCell_def split: option.split)

lemma sameBytes_Disable: "sameBytes r (snd (Disable i r))"
  by (simp add: Disable_def killAll_def sameBytes_refl sameBytes_putCell getCell_map_of split: option.split)

lemma sameBytes_Enable: "sameBytes r (snd (Enable i r))"
  by (simp add: Enable_def sameBytes_refl sameBytes_putCell getCell_map_of split: option.split)

lemma sameBytes_KillConn: "sameBytes r (snd (KillConn k r))"
  by (simp add: KillConn_def removeLive_def Let_def sameBytes_refl sameBytes_putCell split: option.split)

lemma sameBytes_KillIP: "sameBytes r (snd (KillIP i ip r))"
  by (simp add: KillIP_def sameBytes_refl sameBytes_putCell getCell_map_of split: option.split)

lemma sameBytes_reapLoop: "sameBytes r (snd (reapLoop lim es ks r))"
proof (induction lim es ks r rule: reapLoop.induct)
  case (2 lim i k es ks r)
  have "sameBytes r (putCell i (removeLive k (getCell r i)) r)" by (simp add: removeLive_def sameBytes_putCell)
  with 2 show ?case by (auto simp: Let_def sameBytes_refl split: option.split intro: sameBytes_trans)
qed (simp add: sameBytes_refl)

lemma sameBytes_evictIdle: "sameBytes r (snd (evictIdle n r))"
  by (simp add: evictIdle_def sameBytes_refl sameBytes_reapLoop)

lemma sameBytes_ReapIdle: "sameBytes r (snd (ReapIdle idle now r))"
  by (simp add: ReapIdle_def sameBytes_refl sameBytes_reapLoop)

lemmas sameBytes_ops = sameBytes_IDForBill sameBytes_Disable sameBytes_Enable sameBytes_KillConn sameBytes_KillIP
  sameBytes_evictIdle sameBytes_ReapIdle

lemma totals_exec:
  "regInv r \<Longrightarrow> upTotal (exec op r) i = upTotal r i + opUp op r i \<and> dnTotal (exec op r) i = dnTotal r i + opDn op r i"
  by (cases op) (simp_all add: totals_Open totals_AddUp totals_AddDown totals_closeConn sameBytes_ops [THEN sameBytes_totals])

lemma totals_run:
  "regInv r \<Longrightarrow> upTotal (fold exec ops r) i = upTotal r i + reported opUp ops r i
    \<and> dnTotal (fold exec ops r) i = dnTotal r i + reported opDn ops r i"
proof (induction ops arbitrary: r)
  case (Cons op ops)
  show ?case using Cons.IH [OF regInv_exec [OF Cons.prems]] totals_exec [OF Cons.prems] by (simp add: add.assoc)
qed simp

text \<open>Configuration writes no byte, and every private counter stays below the drain threshold.\<close>

lemma getCell_IDForBill [simp]: "getCell (snd (IDForBill b r)) = getCell r"
  by (simp add: IDForBill_def Let_def getCell_def fun_eq_iff split: option.split)

lemma bytes_configure: "c_up (getCell (configure cs) i) = 0 \<and> c_down (getCell (configure cs) i) = 0"
proof -
  have shared: "c_up (getCell (fold (\<lambda>i r. putCell i ((getCell r i)\<lparr>c_shared := p, c_ipg := g, c_maxConns := 0\<rparr>) (ensureCell i r)) is r) j) = c_up (getCell r j)
     \<and> c_down (getCell (fold (\<lambda>i r. putCell i ((getCell r i)\<lparr>c_shared := p, c_ipg := g, c_maxConns := 0\<rparr>) (ensureCell i r)) is r) j) = c_down (getCell r j)"
    for p g "is" j r by (induction "is" arbitrary: r) simp_all
  have step: "c_up (getCell (cfgStep c r) j) = c_up (getCell r j) \<and> c_down (getCell (cfgStep c r) j) = c_down (getCell r j)"
    for c r j
    by (cases c) (simp_all add: SetLimits_def SetLimitsShared_def Let_def shared)
  have "c_up (getCell (fold cfgStep cs r) j) = c_up (getCell r j) \<and> c_down (getCell (fold cfgStep cs r) j) = c_down (getCell r j)"
    for r j by (induction cs arbitrary: r) (simp_all add: step)
  then show ?thesis by (simp add: configure_def NewRegistry_def getCell_def newCell_def)
qed

definition lagging :: "Registry \<Rightarrow> bool" where
  "lagging r = (\<forall>m \<in> snd ` set (r_meters r).
     mt_localUp m < word_of_nat drainThreshold \<and> mt_localDn m < word_of_nat drainThreshold)"

lemma vals_update: "snd ` set (AList.update k v al) \<subseteq> insert v (snd ` set al)"
  by (induction al) auto

lemma lagging_update:
  "lagging r \<Longrightarrow> mt_localUp m < word_of_nat drainThreshold \<Longrightarrow> mt_localDn m < word_of_nat drainThreshold \<Longrightarrow>
    r_meters r' = AList.update k m (r_meters r) \<Longrightarrow> lagging r'"
  unfolding lagging_def using vals_update [of k m "r_meters r"] by (metis insert_iff subsetD)

lemma lagging_put:
  "lagging r \<Longrightarrow> mt_localUp m < word_of_nat drainThreshold \<Longrightarrow> mt_localDn m < word_of_nat drainThreshold \<Longrightarrow>
    lagging (x\<lparr>r_meters := AList.update k m (r_meters r)\<rparr>)"
  by (rule lagging_update [where r = r and k = k and m = m]) simp_all

lemma lagging_cong: "r_meters r' = r_meters r \<Longrightarrow> lagging r' = lagging r"
  by (simp add: lagging_def)

lemma lagging_meter:
  "lagging r \<Longrightarrow> map_of (r_meters r) k = Some m \<Longrightarrow>
    mt_localUp m < word_of_nat drainThreshold \<and> mt_localDn m < word_of_nat drainThreshold"
  by (auto simp: lagging_def dest!: map_of_SomeD)

lemma threshold_pos [simp]: "(0 :: u64) < word_of_nat drainThreshold"
  by (simp add: drainThreshold_def)

lemma lagging_AddUp: "lagging r \<Longrightarrow> lagging (AddUp k n now r)"
proof (cases "map_of (r_meters r) k")
  case (Some m)
  assume l: "lagging r"
  note b = lagging_meter [OF l Some]
  show ?thesis
    by (cases "n \<le> 0"; cases "mt_localUp m + word_of_int n \<ge> word_of_nat drainThreshold")
      (use l b in \<open>auto simp: AddUp_def Some Let_def not_le lagging_put [OF l]\<close>)
qed (simp add: AddUp_def)

lemma lagging_AddDown: "lagging r \<Longrightarrow> lagging (AddDown k n now r)"
proof (cases "map_of (r_meters r) k")
  case (Some m)
  assume l: "lagging r"
  note b = lagging_meter [OF l Some]
  show ?thesis
    by (cases "n \<le> 0"; cases "mt_localDn m + word_of_int n \<ge> word_of_nat drainThreshold")
      (use l b in \<open>auto simp: AddDown_def Some Let_def not_le lagging_put [OF l]\<close>)
qed (simp add: AddDown_def)

lemma lagging_Open: "regInv r \<Longrightarrow> lagging r \<Longrightarrow> lagging (snd (Open i src now r))"
proof -
  assume inv: "regInv r" and l: "lagging r"
  obtain x r' where op: "Open i src now r = (x, r')" by (cases "Open i src now r")
  show ?thesis
  proof (cases x)
    case None
    then show ?thesis using Open_None_same [OF inv, of i src now r'] op l lagging_cong [of r' r] by (simp add: sameButStats_def)
  next
    case (Some k)
    note O = Open_SomeD [OF op [unfolded Some], unfolded Let_def]
    then have "r_meters r' = AList.update k \<lparr> mt_cell = i, mt_src = src, mt_localUp = 0, mt_localDn = 0 \<rparr> (r_meters r)" by simp
    from lagging_update [OF l _ _ this] show ?thesis by (simp add: op)
  qed
qed

lemma lagging_closeConn: "lagging r \<Longrightarrow> lagging (closeConn k r)"
proof (cases "map_of (r_meters r) k")
  case (Some m)
  assume "lagging r"
  then show ?thesis using closeConn_eq [OF Some] 
    unfolding lagging_def by (auto simp: AList.delete_eq)
qed (simp add: closeConn_def)

lemma lagging_exec: "regInv r \<Longrightarrow> lagging r \<Longrightarrow> lagging (exec op r)"
proof -
  have q: "lagging r \<Longrightarrow> sameBytes r r' \<Longrightarrow> lagging r'" for r r' by (simp add: sameBytes_def lagging_def)
  show "regInv r \<Longrightarrow> lagging r \<Longrightarrow> lagging (exec op r)"
    by (cases op) (simp_all add: lagging_Open lagging_AddUp lagging_AddDown lagging_closeConn sameBytes_ops [THEN q [rotated]])
qed

lemma lagging_run: "regInv r \<Longrightarrow> lagging r \<Longrightarrow> lagging (fold exec ops r)"
  by (induction ops arbitrary: r) (simp_all add: regInv_exec lagging_exec)

text \<open>
  C6: no byte is lost or counted twice: after any run the counter of a credential plus the private
  counters of its open connections is exactly what its connections reported, in both directions and
  modulo 2^64, and every private counter stays below the drain threshold.
\<close>

theorem bytes_conserved:
  assumes "r = fold exec ops (configure cs)"
  shows "c_up (getCell r i) + msum mt_localUp (r_meters r) i = reported opUp ops (configure cs) i
    \<and> c_down (getCell r i) + msum mt_localDn (r_meters r) i = reported opDn ops (configure cs) i
    \<and> (\<forall>k m. map_of (r_meters r) k = Some m \<longrightarrow>
        mt_localUp m < word_of_nat drainThreshold \<and> mt_localDn m < word_of_nat drainThreshold)"
proof -
  have inv: "regInv (configure cs)" and nm: "r_meters (configure cs) = []" using regInv_configure by auto
  have "lagging (configure cs)" by (simp add: lagging_def nm)
  from lagging_run [OF inv this] have l: "lagging r" by (simp add: assms)
  have "upTotal (configure cs) i = 0" "dnTotal (configure cs) i = 0"
    by (simp_all add: upTotal_def dnTotal_def bytes_configure nm msum_def)
  with totals_run [OF inv, of ops i] lagging_meter [OF l] show ?thesis
    by (simp add: assms upTotal_def dnTotal_def)
qed

section \<open>Kills\<close>

text \<open>The connections that are registered in some cell.\<close>

definition liveIDs :: "Registry \<Rightarrow> nat set" where
  "liveIDs r = {k. \<exists>i. k \<in> keys (c_live (getCell r i))}"

lemma live_meter:
  assumes "regInv r" "k \<in> keys (c_live (getCell r i))"
  shows "\<exists>m. map_of (r_meters r) k = Some m \<and> mt_cell m = i \<and> k \<le> r_connSeq r"
proof -
  obtain h where "map_of (c_live (getCell r i)) k = Some h" using keys_map_of [OF assms(2)] by blast
  moreover have "liveOK r i (c_live (getCell r i))" using cellInv_base [OF assms(1), of i] by (simp add: cellInv_def)
  ultimately obtain m where "map_of (r_meters r) k = Some m" "mt_cell m = i" unfolding liveOK_def by blast
  with regInv_keys [OF assms(1)] show ?thesis by blast
qed

lemma live_unique: "regInv r \<Longrightarrow> k \<in> keys (c_live (getCell r i)) \<Longrightarrow> k \<in> keys (c_live (getCell r j)) \<Longrightarrow> i = j"
  using live_meter [of r k i] live_meter [of r k j] by auto

lemma liveIDs_putCell:
  assumes "regInv r" "K \<subseteq> keys (c_live (getCell r i))" "keys (c_live c) = keys (c_live (getCell r i)) - K"
  shows "liveIDs (putCell i c r) = liveIDs r - K"
  using assms live_unique [OF assms(1)] unfolding liveIDs_def by (auto; metis subsetD)

text \<open>What a killing operation does to the registered connections.\<close>

definition reaped :: "nat list \<Rightarrow> Registry \<Rightarrow> Registry \<Rightarrow> bool" where
  "reaped ks r r' = (distinct ks \<and> set ks \<subseteq> liveIDs r \<and> liveIDs r' = liveIDs r - set ks \<and> r_connSeq r' = r_connSeq r)"

lemma reaped_none: "reaped [] r r"
  by (simp add: reaped_def)

lemma reaped_Cons: "reaped [k] r r1 \<Longrightarrow> reaped ks r1 r' \<Longrightarrow> reaped (k # ks) r r'"
  by (auto simp: reaped_def)

lemma reaped_putCell:
  assumes "regInv r" "distinct ks" "set ks \<subseteq> keys (c_live (getCell r i))" "keys (c_live c) = keys (c_live (getCell r i)) - set ks"
  shows "reaped ks r (putCell i c r)"
  using liveIDs_putCell [OF assms(1,3,4)] assms(2,3) by (auto simp: reaped_def liveIDs_def)

lemma live_distinct: "regInv r \<Longrightarrow> distinct (map fst (c_live (getCell r i)))"
  using cellInv_base [of r i] by (simp add: cellInv_def)

lemma reaped_removeLive:
  "regInv r \<Longrightarrow> map_of (c_live (getCell r i)) k = Some h \<Longrightarrow> reaped [k] r (putCell i (removeLive k (getCell r i)) r)"
  by (rule reaped_putCell) (auto simp: removeLive_def map_of_keysI)

lemma reaped_Disable: "regInv r \<Longrightarrow> reaped (kills (OpDisable i) r) r (exec (OpDisable i) r)"
proof (cases "map_of (r_cells r) i")
  case (Some c)
  assume inv: "regInv r"
  have c: "getCell r i = c" using Some by (rule getCell_map_of)
  have "reaped (map fst (c_live c)) r (putCell i (c\<lparr>c_disabled := True, c_live := []\<rparr>) r)"
    by (rule reaped_putCell [OF inv]) (use live_distinct [OF inv, of i] in \<open>auto simp: c keys_def\<close>)
  then show ?thesis by (simp add: Disable_def killAll_def Some)
qed (simp add: Disable_def reaped_none)

lemma reaped_KillConn: "regInv r \<Longrightarrow> reaped (kills (OpKillConn k) r) r (exec (OpKillConn k) r)"
proof (cases "map_of (r_idx r) k")
  case (Some i)
  assume inv: "regInv r"
  show ?thesis
  proof (cases "map_of (c_live (getCell r i)) k")
    case None
    then have "k \<notin> keys (c_live (getCell r i))" by (simp add: map_of_None_keys)
    then have "reaped [] r (putCell i (removeLive k (getCell r i)) r)"
      by (intro reaped_putCell [OF inv]) (auto simp: removeLive_def)
    then show ?thesis by (simp add: KillConn_def Some None Let_def)
  next
    case (Some h)
    from reaped_removeLive [OF inv this] show ?thesis by (simp add: KillConn_def \<open>map_of (r_idx r) k = Some i\<close> Some Let_def)
  qed
qed (simp add: KillConn_def reaped_none)

lemma keys_filter_not:
  "distinct (map fst al) \<Longrightarrow> keys (filter (\<lambda>(k, h). \<not> P h) al) = keys al - set (map fst (filter (\<lambda>(k, h). P h) al))"
proof (induction al)
  case (Cons a al)
  obtain k h where [simp]: "a = (k, h)" by (cases a)
  have "k \<notin> set (map fst (filter (\<lambda>(k, h). P h) al))" "k \<notin> keys (filter (\<lambda>(k, h). \<not> P h) al)"
    using Cons.prems by (auto simp: keys_def)
  with Cons show ?case by (auto simp: keys_def)
qed simp

lemma reaped_KillIP: "regInv r \<Longrightarrow> reaped (kills (OpKillIP i ip) r) r (exec (OpKillIP i ip) r)"
proof (cases "map_of (r_cells r) i")
  case (Some c)
  assume inv: "regInv r"
  have c: "getCell r i = c" using Some by (rule getCell_map_of)
  have d: "distinct (map fst (c_live c))" using live_distinct [OF inv, of i] c by simp
  have "reaped (map fst (filter (\<lambda>(k, h). h_src h = ip) (c_live c))) r
          (putCell i (c\<lparr>c_live := filter (\<lambda>(k, h). h_src h \<noteq> ip) (c_live c)\<rparr>) r)"
    by (rule reaped_putCell [OF inv]) (auto simp: c keys_filter_not [OF d] distinct_map_filter [OF d] keys_def dest: eq_key_imp_eq_value [OF d])
  then show ?thesis by (simp add: KillIP_def Some)
qed (simp add: KillIP_def reaped_none)

lemma reapLoop_reaped:
  "regInv r \<Longrightarrow> \<forall>(i, k) \<in> set es. i \<in> keys (r_cells r) \<Longrightarrow>
    \<exists>new. fst (reapLoop lim es ks r) = ks @ new \<and> reaped new r (snd (reapLoop lim es ks r))"
proof (induction lim es ks r rule: reapLoop.induct)
  case (2 lim i k es ks r)
  let ?r1 = "putCell i (removeLive k (getCell r i)) r"
  have i: "i \<in> keys (r_cells r)" using 2(4) by auto
  have inv1: "regInv ?r1" by (rule regInv_removeLive [OF 2(3) i])
  have es: "\<forall>(i, k) \<in> set es. i \<in> keys (r_cells r)" "\<forall>(i, k) \<in> set es. i \<in> keys (r_cells ?r1)" using 2(4) by auto
  show ?case
  proof (cases "case lim of None \<Rightarrow> False | Some n \<Rightarrow> int (length ks) \<ge> n")
    case True
    then show ?thesis by (auto simp: reaped_none)
  next
    case stop: False
    show ?thesis
    proof (cases "map_of (c_live (getCell r i)) k")
      case None
      then show ?thesis using 2(1) [OF stop refl None 2(3) es(1)] stop by (simp add: Let_def)
    next
      case (Some h)
      from 2(2) [OF stop refl Some inv1 es(2)] obtain new where
        "fst (reapLoop lim es (ks @ [k]) ?r1) = (ks @ [k]) @ new" "reaped new ?r1 (snd (reapLoop lim es (ks @ [k]) ?r1))" by blast
      then show ?thesis using stop Some reaped_Cons [OF reaped_removeLive [OF 2(3) Some]]
        by (simp add: Let_def)
    qed
  qed
qed (simp add: reaped_none)

lemma reaped_reapers:
  assumes "regInv r"
  shows "reaped (kills (OpEvict n) r) r (exec (OpEvict n) r)" "reaped (kills (OpReap idle now) r) r (exec (OpReap idle now) r)"
proof -
  have l: "reaped (fst (reapLoop lim es [] r)) r (snd (reapLoop lim es [] r))"
    if "\<forall>(i, k) \<in> set es. i \<in> keys (r_cells r)" for lim es
    using reapLoop_reaped [OF assms that, of lim "[]"] by auto
  show "reaped (kills (OpEvict n) r) r (exec (OpEvict n) r)" "reaped (kills (OpReap idle now) r) r (exec (OpReap idle now) r)"
    by (auto simp: evictIdle_def ReapIdle_def reaped_none intro!: l dest: liveEntries_keys)
qed

lemma liveIDs_cong: "(\<And>j. keys (c_live (getCell r' j)) = keys (c_live (getCell r j))) \<Longrightarrow> liveIDs r' = liveIDs r"
  by (simp add: liveIDs_def)

lemma touch_live [simp]: "keys (c_live (getCell (touch i k now r) j)) = keys (c_live (getCell r j))"
  by (auto simp: touch_def map_of_keysI split: option.split)

lemma touch_seq [simp]: "r_connSeq (touch i k now r) = r_connSeq r"
  by (simp add: touch_def split: option.split)

lemma live_Add [simp]:
  "keys (c_live (getCell (AddUp k n now r) j)) = keys (c_live (getCell r j))"
  "keys (c_live (getCell (AddDown k n now r) j)) = keys (c_live (getCell r j))"
  by (simp_all add: AddUp_def AddDown_def Let_def split: option.split)

lemma liveIDs_Add:
  "liveIDs (AddUp k n now r) = liveIDs r" "r_connSeq (AddUp k n now r) = r_connSeq r"
  "liveIDs (AddDown k n now r) = liveIDs r" "r_connSeq (AddDown k n now r) = r_connSeq r"
  by (simp_all add: liveIDs_def) (simp_all add: AddUp_def AddDown_def Let_def split: option.split)

lemma live_Enable [simp]: "c_live (getCell (snd (Enable i r)) j) = c_live (getCell r j)"
  by (simp add: Enable_def getCell_map_of split: option.split)

lemma liveIDs_Enable: "liveIDs (snd (Enable i r)) = liveIDs r" "r_connSeq (snd (Enable i r)) = r_connSeq r"
  by (simp add: liveIDs_def) (simp add: Enable_def split: option.split)

lemma liveIDs_closeConn: "liveIDs (closeConn k r) \<subseteq> liveIDs r" "r_connSeq (closeConn k r) = r_connSeq r"
proof -
  have "liveIDs (closeConn k r) \<subseteq> liveIDs r \<and> r_connSeq (closeConn k r) = r_connSeq r"
  proof (cases "map_of (r_meters r) k")
    case (Some m)
    then show ?thesis using closeConn_eq [OF Some] by (auto simp: liveIDs_def split: if_splits)
  qed (simp add: closeConn_def)
  then show "liveIDs (closeConn k r) \<subseteq> liveIDs r" "r_connSeq (closeConn k r) = r_connSeq r" by auto
qed

lemma liveIDs_Open:
  assumes "regInv r"
  shows "liveIDs (snd (Open i src now r)) \<subseteq> liveIDs r \<union> {k. r_connSeq r < k} \<and> r_connSeq r \<le> r_connSeq (snd (Open i src now r))"
proof -
  obtain x r' where op: "Open i src now r = (x, r')" by (cases "Open i src now r")
  show ?thesis
  proof (cases x)
    case None
    then have s: "sameButStats r r'" using Open_None_same [OF assms] op by simp
    then have "\<exists>n. getCell r' j = (getCell r j)\<lparr>c_rejectedConns := n\<rparr>" for j by (simp add: sameButStats_def)
    then have "c_live (getCell r' j) = c_live (getCell r j)" for j
      by (metis Cell.select_convs(6) Cell.surjective Cell.update_convs(8))
    with s show ?thesis by (simp add: op liveIDs_def sameButStats_def)
  next
    case (Some k)
    show ?thesis using Open_SomeD [OF op [unfolded Some], unfolded Let_def] by (auto simp: op liveIDs_def)
  qed
qed

lemma kills_step:
  assumes "regInv r"
  shows "distinct (kills op r) \<and> set (kills op r) \<subseteq> liveIDs r
    \<and> liveIDs (exec op r) \<subseteq> (liveIDs r - set (kills op r)) \<union> {k. r_connSeq r < k}
    \<and> r_connSeq r \<le> r_connSeq (exec op r)"
proof -
  have q: "reaped (kills op r) r (exec op r) \<Longrightarrow> ?thesis" by (auto simp: reaped_def)
  show ?thesis
  proof (cases op)
    case (OpBill b)
    then show ?thesis by (simp add: IDForBill_def Let_def liveIDs_def getCell_def split: option.split)
  next
    case (OpOpen i src now)
    then show ?thesis using liveIDs_Open [OF assms] by simp
  next
    case (OpClose k)
    then show ?thesis using liveIDs_closeConn [of k r] by auto
  qed (use q reaped_Disable [OF assms] reaped_KillConn [OF assms] reaped_KillIP [OF assms] reaped_reapers [OF assms]
      in \<open>auto simp: liveIDs_Add liveIDs_Enable\<close>)
qed

fun runKills :: "mop list \<Rightarrow> Registry \<Rightarrow> nat list" where
  "runKills [] r = []"
| "runKills (op # ops) r = kills op r @ runKills ops (exec op r)"

lemma runKills_range:
  "regInv r \<Longrightarrow> set (runKills ops r) \<subseteq> liveIDs r \<union> {k. r_connSeq r < k}"
proof (induction ops arbitrary: r)
  case (Cons op ops)
  show ?case using Cons.IH [OF regInv_exec [OF Cons.prems]] kills_step [OF Cons.prems, of op] by fastforce
qed simp

lemma runKills_distinct: "regInv r \<Longrightarrow> distinct (runKills ops r)"
proof (induction ops arbitrary: r)
  case (Cons op ops)
  note K = kills_step [OF Cons.prems, of op]
  have "k \<le> r_connSeq r" if "k \<in> liveIDs r" for k using that live_meter [OF Cons.prems] by (auto simp: liveIDs_def)
  then have "set (kills op r) \<inter> set (runKills ops (exec op r)) = {}"
    using runKills_range [OF regInv_exec [OF Cons.prems], of ops op] K by fastforce
  then show ?case using Cons.IH [OF regInv_exec [OF Cons.prems]] K by simp
qed simp

text \<open>
  C8: along any run no kill function is started twice; an operation kills only connections that are
  registered, and none of those it kills is registered after it.
\<close>

theorem kills_at_most_once:
  assumes "r = fold exec ops (configure cs)"
  shows "distinct (runKills ops' r) \<and> (\<forall>op. set (kills op r) \<subseteq> liveIDs r \<and> liveIDs (exec op r) \<inter> set (kills op r) = {})"
proof -
  have inv: "regInv r" unfolding assms by (rule regInv_run) (simp add: regInv_configure)
  have "k \<le> r_connSeq r" if "k \<in> liveIDs r" for k using that live_meter [OF inv] by (auto simp: liveIDs_def)
  then show ?thesis using runKills_distinct [OF inv] kills_step [OF inv] by fastforce
qed

section \<open>The hot switch\<close>

definition shut :: "Registry \<Rightarrow> nat \<Rightarrow> bool" where
  "shut r i = (c_disabled (getCell r i) \<and> c_live (getCell r i) = [])"

text \<open>Operations that register nothing and leave the switches.\<close>

definition noNew :: "Registry \<Rightarrow> Registry \<Rightarrow> bool" where
  "noNew r r' = (\<forall>j. c_disabled (getCell r' j) = c_disabled (getCell r j)
     \<and> keys (c_live (getCell r' j)) \<subseteq> keys (c_live (getCell r j)))"

lemma keys_empty: "keys al = {} \<longleftrightarrow> al = []"
  by (simp add: keys_def)

lemma noNew_shut: "noNew r r' \<Longrightarrow> shut r i \<Longrightarrow> shut r' i"
  unfolding noNew_def shut_def keys_empty [symmetric] by blast

lemma noNew_refl: "noNew r r"
  by (simp add: noNew_def)

lemma noNew_trans: "noNew r r' \<Longrightarrow> noNew r' r'' \<Longrightarrow> noNew r r''"
  by (auto simp: noNew_def)

lemma noNew_putCell:
  "c_disabled c = c_disabled (getCell r i) \<Longrightarrow> keys (c_live c) \<subseteq> keys (c_live (getCell r i)) \<Longrightarrow> noNew r (putCell i c r)"
  by (simp add: noNew_def)

lemma noNew_removeLive: "noNew r (putCell i (removeLive k (getCell r i)) r)"
  by (rule noNew_putCell) (auto simp: removeLive_def)

lemma noNew_reapLoop: "noNew r (snd (reapLoop lim es ks r))"
proof (induction lim es ks r rule: reapLoop.induct)
  case (2 lim i k es ks r)
  have "noNew r (putCell i (removeLive k (getCell r i)) r)" by (rule noNew_removeLive)
  with 2 show ?case by (auto simp: Let_def noNew_refl split: option.split intro: noNew_trans)
qed (simp add: noNew_refl)

lemma noNew_Add: "noNew r (AddUp k n now r)" "noNew r (AddDown k n now r)"
proof -
  have "c_disabled (getCell (AddUp k n now r) j) = c_disabled (getCell r j)"
    "c_disabled (getCell (AddDown k n now r) j) = c_disabled (getCell r j)" for j
    by (simp_all add: AddUp_def AddDown_def touch_def Let_def split: option.split)
  then show "noNew r (AddUp k n now r)" "noNew r (AddDown k n now r)" by (simp_all add: noNew_def)
qed

lemma noNew_close: "noNew r (closeConn k r)"
proof (cases "map_of (r_meters r) k")
  case (Some m)
  then show ?thesis using closeConn_eq [OF Some] by (auto simp: noNew_def)
qed (simp add: closeConn_def noNew_refl)

lemma noNew_KillConn: "noNew r (snd (KillConn k r))"
  by (simp add: KillConn_def Let_def noNew_refl noNew_removeLive split: option.split)

lemma noNew_KillIP: "noNew r (snd (KillIP i ip r))"
  by (auto simp: KillIP_def noNew_refl keys_def getCell_map_of split: option.split intro!: noNew_putCell)

lemma shut_Open:
  assumes "regInv r" "shut r i"
  shows "fst (Open i src now r) = None" "shut (snd (Open j src now r)) i"
proof -
  show N: "fst (Open i src now r) = None" for src now
  proof (cases "Open i src now r")
    case (Pair x r')
    then show ?thesis using assms(2) Open_SomeD [of i src now r _ r'] by (cases x) (auto simp: shut_def Let_def)
  qed
  obtain x r' where op: "Open j src now r = (x, r')" by (cases "Open j src now r")
  show "shut (snd (Open j src now r)) i"
  proof (cases x)
    case None
    then have "sameButStats r r'" using Open_None_same [OF assms(1)] op by simp
    then have "\<exists>n. getCell r' i = (getCell r i)\<lparr>c_rejectedConns := n\<rparr>" by (simp add: sameButStats_def)
    then show ?thesis using assms(2) by (auto simp: op shut_def)
  next
    case (Some k)
    then have "j \<noteq> i" using N [of src now] op by auto
    then show ?thesis using Open_SomeD [OF op [unfolded Some]] assms(2) by (auto simp: op shut_def Let_def)
  qed
qed

lemma shut_exec:
  assumes "regInv r" "shut r i" "op \<noteq> OpEnable i"
  shows "shut (exec op r) i"
proof (cases op)
  case (OpDisable j)
  then show ?thesis using assms(2) by (simp add: Disable_def killAll_def shut_def split: option.split)
next
  case (OpEnable j)
  then show ?thesis using assms(2,3) by (simp add: Enable_def shut_def split: option.split)
qed (use assms(2) shut_Open [OF assms(1,2)] in \<open>simp_all add: shut_def [of "snd (IDForBill b r)" for b] evictIdle_def ReapIdle_def,
   simp_all add: shut_def [symmetric] noNew_shut [OF noNew_Add(1)] noNew_shut [OF noNew_Add(2)] noNew_shut [OF noNew_close]
    noNew_shut [OF noNew_KillConn] noNew_shut [OF noNew_KillIP] noNew_shut [OF noNew_reapLoop]\<close>)

lemma shut_run: "regInv r \<Longrightarrow> shut r i \<Longrightarrow> OpEnable i \<notin> set ops \<Longrightarrow> shut (fold exec ops r) i \<and> regInv (fold exec ops r)"
  by (induction ops arbitrary: r) (auto simp: shut_exec regInv_exec)

text \<open>
  C7: disabling a credential kills all its registered connections, and from then on, through any
  operations but its own Enable, the credential has no registered connection and every Open of it is
  refused.
\<close>

theorem disabled_stays_shut:
  assumes "r = fold exec ops (configure cs)" "i \<in> keys (r_cells r)" "OpEnable i \<notin> set ops'"
    and "r' = fold exec ops' (exec (OpDisable i) r)"
  shows "set (kills (OpDisable i) r) = keys (c_live (getCell r i))
    \<and> c_disabled (getCell r' i) \<and> c_live (getCell r' i) = [] \<and> fst (Open i src now r') = None"
proof -
  have inv: "regInv r" unfolding assms(1) by (rule regInv_run) (simp add: regInv_configure)
  note c = getCell_in_keys [OF assms(2)]
  have "shut (exec (OpDisable i) r) i" by (simp add: Disable_def killAll_def c shut_def)
  from shut_run [OF regInv_exec [OF inv] this assms(3)] have s: "shut r' i" "regInv r'" by (simp_all add: assms(4))
  then show ?thesis using shut_Open(1) [OF s(2,1)] by (simp add: Disable_def killAll_def c shut_def keys_def)
qed

end
