(* ===== verification/MeterProps.thy ===== *)
theory MeterProps
  imports MeterRuns "HOL-Library.Multiset"
begin

text \<open>
  Further properties of the registry: refused connections leave no trace, the switch under every
  interleaving of its atomic actions, the choice of the memory guard's evictions, the identities of
  billing labels, and what a reload does to the limit of a user.
\<close>

section \<open>Refusals\<close>

text \<open>
  a refused connection, whichever of its three checks refuses it, leaves every open connection,
  every source-address count, every shared counter and the live set and counters of every credential
  as they were.
\<close>

theorem refused_open_leaves_nothing:
  assumes "r = fold exec ops (configure cs)" "Open i src now r = (None, r')"
  shows "r_meters r' = r_meters r \<and> r_idx r' = r_idx r
    \<and> map g_ips (r_ipgs r') = map g_ips (r_ipgs r) \<and> map s_live (r_shareds r') = map s_live (r_shareds r)
    \<and> c_live (getCell r' j) = c_live (getCell r j) \<and> c_connsLive (getCell r' j) = c_connsLive (getCell r j)
    \<and> c_connsTotal (getCell r' j) = c_connsTotal (getCell r j)"
proof -
  have inv: "regInv r" unfolding assms(1) by (rule regInv_run) (simp add: regInv_configure)
  have s: "sameButStats r r'" using Open_None_same [OF inv assms(2)] by simp
  then obtain n where n: "getCell r' j = (getCell r j)\<lparr>c_rejectedConns := n\<rparr>" unfolding sameButStats_def by blast
  have "map g_ips ys = map g_ips xs" if "list_all2 sameGate xs ys" for xs ys
    using that by induction (auto simp: sameGate_def)
  moreover have "map s_live ys = map s_live xs" if "list_all2 sameShared xs ys" for xs ys
    using that by induction (auto simp: sameShared_def)
  ultimately show ?thesis using s unfolding sameButStats_def n by simp
qed

section \<open>The switch, action by action\<close>

text \<open>
  \<open>Disable\<close> is two atomic actions on the cell, the store of the flag and \<open>killAll\<close>; a connection is
  registered by the atomic \<open>addGuarded\<close> and leaves by \<open>removeLive\<close>.  The log holds the connections
  admitted and those killed.
\<close>

datatype cellAct = StoreDisabled | KillAll | AddConn nat connHandle | RemoveConn nat

fun act :: "cellAct \<Rightarrow> Cell \<times> nat list \<times> nat list \<Rightarrow> Cell \<times> nat list \<times> nat list" where
  "act StoreDisabled (c, adm, ks) = (c\<lparr>c_disabled := True\<rparr>, adm, ks)"
| "act KillAll (c, adm, ks) = (case killAll c of (new, c') \<Rightarrow> (c', adm, ks @ new))"
| "act (AddConn k h) (c, adm, ks) = (case addGuarded k h c of (ok, c') \<Rightarrow> (c', if ok then adm @ [k] else adm, ks))"
| "act (RemoveConn k) (c, adm, ks) = (removeLive k c, adm, ks)"

lemma Disable_acts:
  "map_of (r_cells r) i = Some c \<Longrightarrow> fold act [StoreDisabled, KillAll] (c, [], []) = (c', adm, ks) \<Longrightarrow>
    Disable i r = ((ks, True), putCell i c' r)"
  by (auto simp: Disable_def killAll_def)

definition accounted :: "nat set \<Rightarrow> Cell \<times> nat list \<times> nat list \<Rightarrow> bool" where
  "accounted gone = (\<lambda>(c, adm, ks). set adm \<subseteq> keys (c_live c) \<union> set ks \<union> gone)"

lemma accounted_act:
  "accounted gone s \<Longrightarrow> accounted (gone \<union> {k. a = RemoveConn k}) (act a s)"
  by (cases s; cases a) (auto simp: accounted_def killAll_def addGuarded_def removeLive_def keys_def [symmetric])

lemma accounted_run:
  "accounted gone s \<Longrightarrow> accounted (gone \<union> {k. RemoveConn k \<in> set as}) (fold act as s)"
proof (induction as arbitrary: gone s)
  case (Cons a as)
  have "gone \<union> {k. a = RemoveConn k} \<union> {k. RemoveConn k \<in> set as} = gone \<union> {k. RemoveConn k \<in> set (a # as)}" by auto
  with Cons.IH [OF accounted_act [OF Cons.prems, of a]] show ?case by simp
qed simp

lemma disabled_run:
  "c_disabled (fst s) \<Longrightarrow> c_disabled (fst (fold act as s)) \<and> fst (snd (fold act as s)) = fst (snd s)
    \<and> (c_live (fst s) = [] \<longrightarrow> c_live (fst (fold act as s)) = [])"
proof (induction as arbitrary: s)
  case (Cons a as)
  have "c_disabled (fst (act a s)) \<and> fst (snd (act a s)) = fst (snd s) \<and> (c_live (fst s) = [] \<longrightarrow> c_live (fst (act a s)) = [])"
    using Cons.prems by (cases s; cases a) (auto simp: killAll_def addGuarded_def removeLive_def)
  with Cons.IH show ?case by simp
qed simp

text \<open>
  under every interleaving of the two atomic actions of Disable with registrations and removals,
  no connection of the cell survives: the live set is empty at the end, nothing is admitted after the
  flag is stored, and every admitted connection has been killed or has left by itself.
\<close>

theorem disable_interleaved:
  assumes "c_live c = []"
    and "fold act (pre @ StoreDisabled # mid @ KillAll # post) (c, [], []) = (c', admitted, killed)"
  shows "c_live c' = [] \<and> admitted = fst (snd (fold act pre (c, [], [])))
    \<and> (\<forall>k \<in> set admitted. k \<in> set killed \<or> RemoveConn k \<in> set (pre @ mid @ post))"
proof -
  let ?s1 = "fold act pre (c, [], [])"
  let ?s2 = "fold act mid (act StoreDisabled ?s1)"
  have e: "fold act post (act KillAll ?s2) = (c', admitted, killed)" using assms(2) by simp
  have d1: "c_disabled (fst (act StoreDisabled ?s1))" "fst (snd (act StoreDisabled ?s1)) = fst (snd ?s1)"
    by (cases ?s1, simp)+
  have d2: "c_disabled (fst ?s2)" "fst (snd ?s2) = fst (snd ?s1)" using disabled_run [OF d1(1), of mid] d1(2) by auto
  have d3: "c_disabled (fst (act KillAll ?s2))" "fst (snd (act KillAll ?s2)) = fst (snd ?s1)" "c_live (fst (act KillAll ?s2)) = []"
    using d2 by (cases ?s2, simp add: killAll_def)+
  have l: "c_live c' = []" "admitted = fst (snd ?s1)" using disabled_run [OF d3(1), of post] d3(2,3) e by auto
  have "accounted {} (c, [], [])" by (simp add: accounted_def)
  from accounted_run [OF this, of "pre @ StoreDisabled # mid @ KillAll # post"]
  have "accounted {k. RemoveConn k \<in> set (pre @ mid @ post)} (c', admitted, killed)" using e by simp
  with l show ?thesis by (auto simp: accounted_def)
qed

section \<open>Whom the memory guard evicts\<close>

lemma reapLoop_take:
  assumes "regInv r" "distinct (map snd es)" "\<forall>(i, k) \<in> set es. k \<in> keys (c_live (getCell r i))"
  shows "fst (reapLoop (Some n) es ks r) = ks @ map snd (take (nat n - length ks) es)"
  using assms
proof (induction es arbitrary: ks r)
  case (Cons e es)
  obtain i k where e [simp]: "e = (i, k)" by (cases e)
  show ?case
  proof (cases "int (length ks) \<ge> n")
    case False
    let ?r1 = "putCell i (removeLive k (getCell r i)) r"
    have k: "k \<in> keys (c_live (getCell r i))" using Cons.prems(3) by simp
    then obtain h where h: "map_of (c_live (getCell r i)) k = Some h" using keys_map_of by fastforce
    have i: "i \<in> keys (r_cells r)" using live_meter [OF Cons.prems(1) k] regInv_keys [OF Cons.prems(1)] by blast
    have inv: "regInv ?r1" by (rule regInv_removeLive [OF Cons.prems(1) i])
    have "\<forall>(j, k') \<in> set es. k' \<in> keys (c_live (getCell ?r1 j))"
      using Cons.prems(2,3) by (force simp: removeLive_def)
    from Cons.IH [OF inv _ this] Cons.prems(2)
    have "fst (reapLoop (Some n) es (ks @ [k]) ?r1) = (ks @ [k]) @ map snd (take (nat n - length (ks @ [k])) es)" by simp
    moreover have "nat n - length ks = Suc (nat n - length (ks @ [k]))" using False by simp
    ultimately show ?thesis using False h by (simp add: Let_def)
  qed simp
qed simp

lemma liveEntries_iff:
  assumes "regInv r"
  shows "(i, k, l) \<in> set (liveEntries r) \<longleftrightarrow> (\<exists>h. map_of (c_live (getCell r i)) k = Some h \<and> h_lastActive h = l)"
proof -
  have d: "distinct (map fst (r_cells r))" using assms by (simp add: regInv_def metersInv_def)
  have "(i, k, l) \<in> set (liveEntries r) \<longleftrightarrow> (\<exists>c h. (i, c) \<in> set (r_cells r) \<and> (k, h) \<in> set (c_live c) \<and> h_lastActive h = l)"
    by (force simp: liveEntries_def)
  also have "\<dots> \<longleftrightarrow> (\<exists>c h. map_of (r_cells r) i = Some c \<and> (k, h) \<in> set (c_live (getCell r i)) \<and> h_lastActive h = l)"
    unfolding map_of_distinct_iff [OF d] by (auto simp: getCell_map_of)
  also have "\<dots> \<longleftrightarrow> (\<exists>h. (k, h) \<in> set (c_live (getCell r i)) \<and> h_lastActive h = l)"
    by (cases "map_of (r_cells r) i") (auto simp: getCell_def newCell_def)
  finally show ?thesis unfolding map_of_distinct_iff [OF live_distinct [OF assms]] .
qed

lemma liveEntries_liveIDs:
  assumes "regInv r"
  shows "set (map (\<lambda>(i, k, l). k) (liveEntries r)) = liveIDs r"
proof -
  have "k \<in> set (map (\<lambda>(i, k, l). k) (liveEntries r)) \<longleftrightarrow> (\<exists>i l. (i, k, l) \<in> set (liveEntries r))" for k by force
  moreover have "(\<exists>i l. (i, k, l) \<in> set (liveEntries r)) \<longleftrightarrow> (\<exists>i h. map_of (c_live (getCell r i)) k = Some h)" for k
    unfolding liveEntries_iff [OF assms] by blast
  moreover have "(\<exists>h. map_of (c_live (getCell r i)) k = Some h) \<longleftrightarrow> k \<in> keys (c_live (getCell r i))" for i k
    by (auto dest: map_of_keysI keys_map_of)
  ultimately show ?thesis unfolding liveIDs_def by (simp only: set_eq_iff mem_Collect_eq) simp
qed

lemma liveEntries_ids:
  "map (\<lambda>(i, k, l). k) (liveEntries r) = concat (map (\<lambda>(i, c). map fst (c_live c)) (r_cells r))"
proof -
  have m: "map (\<lambda>(i, k, l). k) (map (\<lambda>(k, h). (j, k, h_lastActive h)) al) = map fst al" for j al by auto
  show ?thesis unfolding liveEntries_def map_concat map_map by (rule arg_cong [where f = concat]) (auto simp: m [simplified])
qed

lemma liveEntries_distinct:
  assumes "regInv r"
  shows "distinct (map (\<lambda>(i, k, l). k) (liveEntries r))"
proof -
  have d: "distinct (map fst (r_cells r))" using assms by (simp add: regInv_def metersInv_def)
  have "distinct (concat (map (\<lambda>(i, c). map fst (c_live c)) cs))"
    if "distinct (map fst cs)" "set cs \<subseteq> set (r_cells r)" for cs
    using that
  proof (induction cs)
    case (Cons ic cs)
    obtain i c where ic [simp]: "ic = (i, c)" by (cases ic)
    have g: "getCell r j = c'" if "(j, c') \<in> set (ic # cs)" for j c'
    proof -
      have "(j, c') \<in> set (r_cells r)" using that Cons.prems(2) by (rule subsetD [rotated])
      then show ?thesis by (simp add: map_of_distinct_iff [OF d] getCell_map_of)
    qed
    have gi: "getCell r i = c" by (rule g) simp
    have dj: "k \<notin> fst ` set (c_live c')" if "(j, c') \<in> set cs" "k \<in> fst ` set (c_live c)" for j c' k
    proof -
      have "j \<noteq> i" using that Cons.prems(1) by force
      moreover have "getCell r j = c'" using that g by simp
      ultimately show ?thesis using live_unique [OF assms, of k i j] gi that(2) by (auto simp: keys_def)
    qed
    have "set (map fst (c_live c)) \<inter> set (concat (map (\<lambda>(i, c). map fst (c_live c)) cs)) = {}"
      using dj by (auto; blast)
    moreover have "distinct (map fst (c_live c))" using live_distinct [OF assms, of i] gi by simp
    ultimately show ?case using Cons.IH Cons.prems by simp
  qed simp
  from this [OF d] show ?thesis by (simp add: liveEntries_ids)
qed

text \<open>A surviving connection keeps its handle.\<close>

lemma reapLoop_handle:
  "map_of (c_live (getCell (snd (reapLoop lim es ks r)) j)) k = Some h \<Longrightarrow> map_of (c_live (getCell r j)) k = Some h"
proof (induction lim es ks r rule: reapLoop.induct)
  case (2 lim i k' es ks r)
  have s: "map_of (c_live (getCell (putCell i (removeLive k' (getCell r i)) r) j)) k = Some h \<Longrightarrow> map_of (c_live (getCell r j)) k = Some h"
    by (auto simp: removeLive_def split: if_splits)
  show ?case
  proof (cases "case lim of None \<Rightarrow> False | Some n \<Rightarrow> int (length ks) \<ge> n")
    case True
    then show ?thesis using 2(3) by simp
  next
    case False
    then show ?thesis using 2(1) [OF False refl] s 2(2) [OF False refl] 2(3)
      by (cases "map_of (c_live (getCell r i)) k'") (simp_all add: Let_def)
  qed
qed simp

text \<open>
  the memory guard evicts exactly the requested number of connections (or all there are), and
  every evicted one was idle at least as long as every one that remains.
\<close>

theorem evict_most_idle:
  assumes "r = fold exec ops (configure cs)" "evictIdle n r = (ks, r')" "0 \<le> n"
  shows "length ks = min (nat n) (card (liveIDs r)) \<and> distinct ks \<and> set ks \<subseteq> liveIDs r
    \<and> (\<forall>i j k k' h h'. k \<in> set ks \<longrightarrow> map_of (c_live (getCell r i)) k = Some h
         \<longrightarrow> map_of (c_live (getCell r' j)) k' = Some h' \<longrightarrow> h_lastActive h \<le> h_lastActive h')"
proof -
  have inv: "regInv r" unfolding assms(1) by (rule regInv_run) (simp add: regInv_configure)
  define S where "S = sort_key (\<lambda>(i, k, l). l) (liveEntries r)"
  let ?id = "\<lambda>(i :: nat, k :: nat, l :: int). k"
  have mS: "mset (map ?id S) = mset (map ?id (liveEntries r))" by (simp add: S_def)
  have dS: "distinct (map ?id S)" using liveEntries_distinct [OF inv] mset_eq_imp_distinct_iff [OF mS] by simp
  have iS: "set (map ?id S) = liveIDs r"
    unfolding mset_eq_setD [OF mS] by (rule liveEntries_liveIDs [OF inv])
  have es: "snd \<circ> (\<lambda>(i, k, l). (i, k)) = ?id" by (auto simp: fun_eq_iff)
  have lv: "\<forall>(i, k) \<in> set (map (\<lambda>(i, k, l). (i, k)) S). k \<in> keys (c_live (getCell r i))"
    using liveEntries_iff [OF inv] by (auto simp: S_def map_of_keysI)
  have ks: "ks = map ?id (take (nat n) S)" and r': "r' = snd (evictIdle n r)"
    using assms(2,3) reapLoop_take [OF inv, of "map (\<lambda>(i, k, l). (i, k)) S" n "[]"] lv dS
    by (auto simp: evictIdle_def S_def [symmetric] es take_map split: if_splits)
  have "length S = card (liveIDs r)" using distinct_card [OF dS] iS by simp
  moreover have "distinct ks" "set ks \<subseteq> liveIDs r"
    using dS iS set_take_subset [of "nat n" S] unfolding ks take_map [symmetric] by (auto dest: in_set_takeD)
  moreover have "h_lastActive h \<le> h_lastActive h'"
    if k: "k \<in> set ks" "map_of (c_live (getCell r i)) k = Some h" and k': "map_of (c_live (getCell r' j)) k' = Some h'" for i j k k' h h'
  proof -
    have same: "e = e'" if "e \<in> set S" "e' \<in> set S" "?id e = ?id e'" for e e'
      using that dS by (auto simp: distinct_map inj_on_def)
    have e: "(i, k, h_lastActive h) \<in> set S" using k(2) liveEntries_iff [OF inv] by (simp add: S_def)
    have h': "map_of (c_live (getCell r j)) k' = Some h'"
      using k' unfolding r' by (auto simp: evictIdle_def split: if_splits dest: reapLoop_handle)
    then have e': "(j, k', h_lastActive h') \<in> set S" using liveEntries_iff [OF inv] by (simp add: S_def)
    have k'n: "k' \<notin> set ks"
      using reaped_reapers(1) [OF inv, of n] assms(2) map_of_keysI [OF k'] by (auto simp: reaped_def liveIDs_def)
    obtain x where x: "x \<in> set (take (nat n) S)" "?id x = k" using k(1) unfolding ks by auto
    then have x': "(i, k, h_lastActive h) \<in> set (take (nat n) S)" using same [OF in_set_takeD [OF x(1)] e] by auto
    have "(j, k', h_lastActive h') \<notin> set (take (nat n) S)" using k'n unfolding ks by force
    moreover have "set S = set (take (nat n) S) \<union> set (drop (nat n) S)" by (metis append_take_drop_id set_append)
    ultimately have y: "(j, k', h_lastActive h') \<in> set (drop (nat n) S)" using e' by simp
    have "sorted (map (\<lambda>(i, k, l). l) S)" by (simp add: S_def)
    then have "sorted (map (\<lambda>(i, k, l). l) (take (nat n) S) @ map (\<lambda>(i, k, l). l) (drop (nat n) S))"
      by (simp flip: map_append)
    then show ?thesis using x' y by (force simp: sorted_append)
  qed
  ultimately show ?thesis by (auto simp: ks)
qed


section \<open>Identities of billing labels\<close>

definition billsOf :: "Registry \<Rightarrow> (string \<times> nat) list \<times> (nat \<times> string) list \<times> nat" where
  "billsOf r = (r_bills r, r_labels r, r_nextID r)"

lemma billsOf_frame [simp]:
  "billsOf (putCell i c r) = billsOf r" "billsOf (ensureCell i r) = billsOf r" "billsOf (releaseIP i src r) = billsOf r"
  "billsOf (snd (acquireIP i src r)) = billsOf r" "billsOf (putConn i cs r) = billsOf r"
  "billsOf (snd (acquireConn i r)) = billsOf r" "billsOf (dropConn i r) = billsOf r" "billsOf (touch i k now r) = billsOf r"
  "billsOf (Flush m r) = billsOf r"
  "billsOf (r\<lparr>r_meters := a\<rparr>) = billsOf r" "billsOf (r\<lparr>r_idx := b\<rparr>) = billsOf r" "billsOf (r\<lparr>r_connSeq := d\<rparr>) = billsOf r"
  "billsOf (r\<lparr>r_ipgs := e\<rparr>) = billsOf r" "billsOf (r\<lparr>r_shareds := f\<rparr>) = billsOf r"
  by (auto simp: billsOf_def ensureCell_def releaseIP_def acquireIP_def putConn_def acquireConn_def dropConn_def touch_def
      Flush_def Let_def split: option.split prod.split)

lemma billsOf_reapLoop [simp]: "billsOf (snd (reapLoop lim es ks r)) = billsOf r"
  by (induction lim es ks r rule: reapLoop.induct) (auto simp: Let_def split: option.split)

lemma billsOf_Open [simp]: "billsOf (snd (Open i src now r)) = billsOf r"
proof -
  obtain a r1 where 1: "acquireIP i src (ensureCell i r) = (a, r1)" by (cases "acquireIP i src (ensureCell i r)")
  obtain b r2 where 2: "acquireConn i r1 = (b, r2)" by (cases "acquireConn i r1")
  have "billsOf r1 = billsOf r" "billsOf r2 = billsOf r1"
    using billsOf_frame(4) [of i src "ensureCell i r"] billsOf_frame(6) [of i r1] by (simp_all add: 1 2)
  then show ?thesis by (cases a; cases b) (simp_all add: Open_def 1 2 Let_def addGuarded_def)
qed

lemma billsOf_exec: "\<nexists>b. op = OpBill b \<Longrightarrow> billsOf (exec op r) = billsOf r"
  by (cases op) (simp_all add: AddUp_def AddDown_def closeConn_def Disable_def Enable_def KillConn_def KillIP_def evictIdle_def
      ReapIdle_def killAll_def Let_def split: option.split)

definition billInv :: "Registry \<Rightarrow> bool" where
  "billInv r = ((\<forall>b i. (map_of (r_bills r) b = Some i \<longleftrightarrow> map_of (r_labels r) i = Some b)
     \<and> (map_of (r_bills r) b = Some i \<longrightarrow> UserBase < i \<and> i < r_nextID r)) \<and> UserBase < r_nextID r)"

lemma billInv_cong: "billsOf r' = billsOf r \<Longrightarrow> billInv r' = billInv r"
  by (simp add: billInv_def billsOf_def)

lemma billInv_IDForBill:
  assumes "billInv r"
  shows "billInv (snd (IDForBill b r))"
proof (cases "map_of (r_bills r) b")
  case None
  have n: "map_of (r_labels r) (r_nextID r) = None"
    using assms unfolding billInv_def by (metis less_irrefl not_Some_eq)
  have I: "map_of (r_bills r) b' = Some i \<longleftrightarrow> map_of (r_labels r) i = Some b'" and
    R: "map_of (r_bills r) b' = Some i \<Longrightarrow> UserBase < i \<and> i < r_nextID r" and U: "UserBase < r_nextID r" for b' i
    using assms by (auto simp: billInv_def)
  have "((map_of (r_bills r))(b \<mapsto> r_nextID r)) b' = Some i \<longleftrightarrow> ((map_of (r_labels r))(r_nextID r \<mapsto> b)) i = Some b'" for b' i
    using I [of b' i] n None by auto
  moreover have "UserBase < i \<and> i < r_nextID r + 1" if "((map_of (r_bills r))(b \<mapsto> r_nextID r)) b' = Some i" for b' i
    using R [of b' i] U that by (cases "b' = b") auto
  ultimately show ?thesis using less_SucI [OF U] by (simp add: billInv_def IDForBill_def None Let_def)
qed (simp add: IDForBill_def assms)

lemma billInv_exec: "billInv r \<Longrightarrow> billInv (exec op r)"
  by (cases "\<exists>b. op = OpBill b") (auto simp: billInv_IDForBill billInv_cong [OF billsOf_exec])

lemma billInv_run: "billInv r \<Longrightarrow> billInv (fold exec ops r)"
  by (induction ops arbitrary: r) (simp_all add: billInv_exec)

lemma billsOf_config: "billsOf (SetLimits i l r) = billsOf r" "billsOf (SetLimitsShared is l r) = billsOf r"
proof -
  have "billsOf (fold (\<lambda>i r. putCell i ((getCell r i)\<lparr>c_shared := p, c_ipg := g, c_maxConns := 0\<rparr>) (ensureCell i r)) is r)
    = billsOf r" for p g r by (induction "is" arbitrary: r) simp_all
  then show "billsOf (SetLimits i l r) = billsOf r" "billsOf (SetLimitsShared is l r) = billsOf r"
    by (simp_all add: SetLimits_def SetLimitsShared_def Let_def)
qed

lemma billInv_configure: "billInv (configure cs)"
proof -
  have "billInv (cfgStep c r)" if "billInv r" for c r
    using that by (cases c) (simp_all add: billInv_IDForBill billInv_cong [OF billsOf_config(1)] billInv_cong [OF billsOf_config(2)])
  then have "billInv (fold cfgStep cs r)" if "billInv r" for r using that by (induction cs arbitrary: r) simp_all
  moreover have "billInv NewRegistry" by (simp add: billInv_def NewRegistry_def)
  ultimately show ?thesis by (simp add: configure_def)
qed

text \<open>
  a billing label gets one identity above the reserved range, found again from the label and back
  from the identity; labels known before keep theirs, and no two labels share one.
\<close>

theorem bill_identity:
  assumes "r = fold exec ops (configure cs)" "IDForBill b r = (i, r')"
  shows "IDByBill b r' = Some i \<and> Bill i r' = b \<and> UserBase < i
    \<and> (\<forall>b' j. IDByBill b' r = Some j \<longrightarrow> IDByBill b' r' = Some j \<and> Bill j r' = b' \<and> (j = i \<longleftrightarrow> b' = b))"
proof -
  have inv: "billInv r" unfolding assms(1) by (rule billInv_run [OF billInv_configure])
  have inv': "billInv r'" using billInv_IDForBill [OF inv, of b] assms(2) by simp
  have l: "IDByBill x r' = Some y \<Longrightarrow> Bill y r' = x \<and> UserBase < y" for x y
    using inv' by (auto simp: billInv_def IDByBill_def Bill_def)
  have i: "IDByBill b r' = Some i" using assms(2) by (auto simp: IDForBill_def IDByBill_def Let_def split: option.splits)
  have k: "IDByBill b' r' = Some j" if "IDByBill b' r = Some j" for b' j
    using assms(2) that by (auto simp: IDForBill_def IDByBill_def Let_def split: option.splits)
  show ?thesis using i k l by (metis option.inject)
qed

section \<open>A reload and the limit of a user\<close>

text \<open>
  A reload builds the limits again on the registry of the running process.  \<open>SetLimitsShared\<close> then
  puts a fresh unit under the cells while connections counted in the old unit are open; their ends
  are counted in the new one.
\<close>

definition reloadTrace :: "nat \<Rightarrow> Limits \<Rightarrow> Addr \<Rightarrow> Registry" where
  "reloadTrace i l src =
    (let r1 = exec (OpOpen i src 0) (configure [CfgShared [i] l]);
         r2 = SetLimitsShared [i] l r1
     in fold exec [OpClose 1, OpOpen i src 0, OpOpen i src 0] r2)"

lemmas meter_eval = configure_def NewRegistry_def SetLimits_def SetLimitsShared_def ensureCell_def getCell_def putCell_def
  newCell_def Open_def acquireIP_def acquireConn_def tryAcquireConn_def sharedOf_def putConn_def addGuarded_def releaseIP_def
  dropConn_def releaseConn_def closeConn_def Flush_def removeLive_def ipg_acquire_def ipg_release_def newIPGate_def
  IDForBill_def Disable_def killAll_def

text \<open>The registries of the trace: one cell under a limit of one connection.\<close>

definition oneCell :: "nat \<Rightarrow> (nat \<times> connHandle) list \<Rightarrow> nat \<Rightarrow> nat \<Rightarrow> Cell" where
  "oneCell tot lv rej p =
    \<lparr> c_up = 0, c_down = 0, c_connsTotal = tot, c_connsLive = int (length lv), c_disabled = False, c_live = lv,
      c_maxConns = 0, c_rejectedConns = rej, c_ipg = None, c_shared = Some p \<rparr>"

definition oneReg :: "Cell \<Rightarrow> sharedLimit list \<Rightarrow> nat \<Rightarrow> nat list \<Rightarrow> Registry" where
  "oneReg c shs sq ks =
    \<lparr> r_cells = [(7, c)], r_ipgs = [], r_shareds = shs, r_connSeq = sq, r_idx = map (\<lambda>k. (k, 7)) ks,
      r_meters = map (\<lambda>k. (k, \<lparr> mt_cell = 7, mt_src = Addr4 1, mt_localUp = 0, mt_localDn = 0 \<rparr>)) ks,
      r_bills = [], r_labels = [], r_nextID = Suc UserBase \<rparr>"

definition unit1 :: "int \<Rightarrow> nat \<Rightarrow> sharedLimit" where
  "unit1 lv rej = \<lparr> s_maxConns = 1, s_live = lv, s_rejected = rej, s_ipg = None \<rparr>"

definition hd0 :: connHandle where
  "hd0 = \<lparr> h_lastActive = 0, h_src = Addr4 1 \<rparr>"

lemmas one_defs = oneCell_def oneReg_def unit1_def hd0_def

abbreviation "one_lim \<equiv> \<lparr> l_MaxConns = 1, l_MaxIPs = 0 \<rparr>"
abbreviation "one_cfg \<equiv> [CfgShared [7] one_lim]"
abbreviation "one_open \<equiv> OpOpen 7 (Addr4 1) 0"

lemma one_configure: "configure one_cfg = oneReg (oneCell 0 [] 0 0) [unit1 0 0] 0 []"
  by (simp add: meter_eval one_defs)

lemma one_open1: "exec one_open (oneReg (oneCell 0 [] 0 0) [unit1 0 0] 0 []) = oneReg (oneCell 1 [(1, hd0)] 0 0) [unit1 1 0] 1 [1]"
  by (simp add: meter_eval one_defs)

lemma one_open2: "exec one_open (oneReg (oneCell 1 [(1, hd0)] 0 0) [unit1 1 0] 1 [1]) = oneReg (oneCell 1 [(1, hd0)] 1 0) [unit1 1 1] 1 [1]"
  by (simp add: meter_eval one_defs)

lemma one_reload: "SetLimitsShared [7] one_lim (oneReg (oneCell 1 [(1, hd0)] 0 0) [unit1 1 0] 1 [1])
    = oneReg (oneCell 1 [(1, hd0)] 0 1) [unit1 1 0, unit1 0 0] 1 [1]"
  by (simp add: meter_eval one_defs)

lemma one_close: "exec (OpClose 1) (oneReg (oneCell 1 [(1, hd0)] 0 1) [unit1 1 0, unit1 0 0] 1 [1])
    = oneReg (oneCell 1 [] 0 1) [unit1 1 0, unit1 (- 1) 0] 1 []"
  by (simp add: meter_eval one_defs)

lemma one_open3: "exec one_open (oneReg (oneCell 1 [] 0 1) [unit1 1 0, unit1 (- 1) 0] 1 [])
    = oneReg (oneCell 2 [(2, hd0)] 0 1) [unit1 1 0, unit1 0 0] 2 [2]"
  by (simp add: meter_eval one_defs)

lemma one_open4: "exec one_open (oneReg (oneCell 2 [(2, hd0)] 0 1) [unit1 1 0, unit1 0 0] 2 [2])
    = oneReg (oneCell 3 [(2, hd0), (3, hd0)] 0 1) [unit1 1 0, unit1 1 0] 3 [2, 3]"
  by (simp add: meter_eval one_defs)


section \<open>Examples\<close>

abbreviation "one_ops \<equiv> [one_open, one_open]"

lemma one_run: "fold exec one_ops (configure one_cfg) = oneReg (oneCell 1 [(1, hd0)] 1 0) [unit1 1 1] 1 [1]"
  by (simp only: fold_simps one_configure one_open1 one_open2)

theorem limits_respected_witness:
  "let r = fold exec one_ops (configure one_cfg) in
     c_shared (getCell r 7) = Some 0 \<and> s_maxConns (r_shareds r ! 0) = 1 \<and> nSh r 0 = 1
     \<and> int (nSh r 0) \<le> s_maxConns (r_shareds r ! 0) \<and> c_connsLive (getCell r 7) = int (nOf r 7)"
  using limits_respected [OF refl, where i = 7 and ops = one_ops and cs = one_cfg and p = 0 and g = 0] unfolding one_run
  by (simp add: one_defs getCell_def nSh_def countIf_def)

abbreviation "one_bytes \<equiv> [one_open, OpUp 1 5 0]"

theorem bytes_conserved_witness:
  "reported opUp one_bytes (configure one_cfg) 7 = 5
    \<and> c_up (getCell (fold exec one_bytes (configure one_cfg)) 7) + msum mt_localUp (r_meters (fold exec one_bytes (configure one_cfg))) 7 = 5"
proof -
  have "reported opUp one_bytes (configure one_cfg) 7 = 5"
    by (simp only: reported.simps one_configure one_open1 opUp.simps) (simp add: one_defs)
  with bytes_conserved [OF refl, where ops = one_bytes and cs = one_cfg and i = 7, THEN conjunct1]
  show ?thesis by (simp only: simp_thms)
qed

theorem refused_open_leaves_nothing_witness:
  "fst (Open 7 (Addr4 1) 0 (fold exec [one_open] (configure one_cfg))) = None
    \<and> r_meters (exec one_open (fold exec [one_open] (configure one_cfg))) = r_meters (fold exec [one_open] (configure one_cfg))"
proof -
  obtain x r' where o: "Open 7 (Addr4 1) 0 (fold exec [one_open] (configure one_cfg)) = (x, r')"
    by (cases "Open 7 (Addr4 1) 0 (fold exec [one_open] (configure one_cfg))")
  have "x = None" using o by (simp only: fold_simps one_configure one_open1) (simp add: meter_eval one_defs)
  with o refused_open_leaves_nothing [OF refl, where i = 7 and src = "Addr4 1" and now = 0 and ops = "[one_open]" and cs = one_cfg and r' = r'] show ?thesis by simp
qed

theorem kills_at_most_once_witness:
  "kills (OpDisable 7) (fold exec one_ops (configure one_cfg)) = [1]
    \<and> distinct (runKills [OpDisable 7, OpDisable 7] (fold exec one_ops (configure one_cfg)))"
  using kills_at_most_once [OF refl, where ops' = "[OpDisable 7, OpDisable 7]" and ops = one_ops and cs = one_cfg] unfolding one_run
  by (simp add: meter_eval one_defs)

theorem disabled_stays_shut_witness:
  "fst (Open 7 (Addr4 1) 5 (fold exec [OpClose 1] (exec (OpDisable 7) (fold exec one_ops (configure one_cfg))))) = None"
proof -
  have "7 \<in> keys (r_cells (fold exec one_ops (configure one_cfg)))" unfolding one_run by (simp add: one_defs)
  from disabled_stays_shut [OF refl this _ refl, where ops' = "[OpClose 1]" and src = "Addr4 1" and now = 5] show ?thesis by simp
qed

theorem evict_most_idle_witness:
  "length (fst (evictIdle 5 (fold exec one_ops (configure one_cfg)))) = min (nat 5) (card (liveIDs (fold exec one_ops (configure one_cfg))))
    \<and> fst (evictIdle 5 (fold exec one_ops (configure one_cfg))) = [1]"
proof -
  let ?r = "fold exec one_ops (configure one_cfg)"
  obtain ks r' where e: "evictIdle 5 ?r = (ks, r')" by (cases "evictIdle 5 ?r")
  have "fst (evictIdle 5 ?r) = [1]" unfolding one_run by (simp add: evictIdle_def liveEntries_def meter_eval one_defs)
  moreover have "length ks = min (nat 5) (card (liveIDs ?r))" by (rule evict_most_idle [OF refl e, THEN conjunct1]) simp
  ultimately show ?thesis by (simp only: e fst_conv simp_thms)
qed

theorem bill_identity_witness:
  "fst (IDForBill ''ann'' NewRegistry) = Suc UserBase
    \<and> (let r = fold exec [OpBill ''ann''] (configure []) in
         IDByBill ''bob'' (snd (IDForBill ''bob'' r)) = Some (fst (IDForBill ''bob'' r)) \<and> fst (IDForBill ''bob'' r) \<noteq> Suc UserBase)"
  using bill_identity [OF refl prod.collapse [symmetric], where ops = "[OpBill ''ann'']" and cs = "[]" and b = "''bob''"]
  by (simp add: meter_eval)

theorem disable_interleaved_witness:
  "let s = fold act ([AddConn 1 hd0] @ StoreDisabled # [AddConn 2 hd0] @ KillAll # [AddConn 3 hd0]) (newCell, [], []) in
     c_live (fst s) = [] \<and> fst (snd s) = [1] \<and> snd (snd s) = [1]"
  using disable_interleaved [of newCell "[AddConn 1 hd0]" "[AddConn 2 hd0]" "[AddConn 3 hd0]"]
  by (simp add: newCell_def addGuarded_def killAll_def)

end
