(* ===== verification/Admit.thy ===== *)
theory Admit
  imports MeterRuns
begin

text \<open>
  The memory guard (\<open>meter/memguard.go\<close>) and the single entry of connections (\<open>service/admit.go\<close>):
  the guard's phase, the gates of the process and of the inbound, and the registry, asked in this
  order, with everything acquired given back on a refusal.  The gates live in a store, since the
  inbounds share the gate of the process; the gates of an inbound are indexes into it.
\<close>

section \<open>The memory guard\<close>

datatype MemPhase = MemNormal | MemSoft | MemHard

fun memLevel :: "MemPhase \<Rightarrow> nat" where
  "memLevel MemNormal = 0"
| "memLevel MemSoft = 1"
| "memLevel MemHard = 2"

instantiation MemPhase :: linorder
begin
definition less_eq_MemPhase :: "MemPhase \<Rightarrow> MemPhase \<Rightarrow> bool" where
  "less_eq_MemPhase p q = (memLevel p \<le> memLevel q)"
definition less_MemPhase :: "MemPhase \<Rightarrow> MemPhase \<Rightarrow> bool" where
  "less_MemPhase p q = (memLevel p < memLevel q)"
instance
proof
  fix p q :: MemPhase
  show "p \<le> q \<Longrightarrow> q \<le> p \<Longrightarrow> p = q" by (cases p; cases q) (simp_all add: less_eq_MemPhase_def)
qed (auto simp: less_eq_MemPhase_def less_MemPhase_def)
end

definition phaseString :: "MemPhase \<Rightarrow> string" where
  "phaseString p = (case p of MemSoft \<Rightarrow> ''soft'' | MemHard \<Rightarrow> ''hard'' | MemNormal \<Rightarrow> ''normal'')"

record MemGuard =
  mg_softBytes :: u64
  mg_hardBytes :: u64
  mg_limitBytes :: u64
  mg_interval :: int
  mg_evictBatch :: int
  mg_phase :: MemPhase
  mg_softRejected :: nat
  mg_hardEvicted :: nat
  mg_lastPhaseLog :: MemPhase

definition NewMemGuard :: "u64 \<Rightarrow> u64 \<Rightarrow> u64 \<Rightarrow> int \<Rightarrow> int \<Rightarrow> MemGuard" where
  "NewMemGuard limitBytes softBytes hardBytes interval evictBatch =
    \<lparr> mg_softBytes = softBytes, mg_hardBytes = hardBytes, mg_limitBytes = limitBytes,
      mg_interval = (if interval \<le> 0 then 500000000 else interval),
      mg_evictBatch = (if evictBatch \<le> 0 then 64 else evictBatch),
      mg_phase = MemNormal, mg_softRejected = 0, mg_hardEvicted = 0, mg_lastPhaseLog = MemNormal \<rparr>"

definition AdmitOK :: "MemGuard option \<Rightarrow> bool \<times> MemGuard option" where
  "AdmitOK g =
    (case g of
       None \<Rightarrow> (True, None)
     | Some m \<Rightarrow>
         if mg_phase m \<ge> MemSoft then (False, Some (m\<lparr>mg_softRejected := mg_softRejected m + 1\<rparr>))
         else (True, Some m))"

text \<open>\<open>setPhase\<close> also says whether it writes a line to the log.\<close>

definition setPhase :: "MemPhase \<Rightarrow> MemGuard \<Rightarrow> bool \<times> MemGuard" where
  "setPhase p m = (mg_lastPhaseLog m \<noteq> p, m\<lparr>mg_phase := p, mg_lastPhaseLog := p\<rparr>)"

text \<open>One sample: the new phase, and in the hard phase one batch of evictions from the registry.\<close>

definition memTick :: "u64 \<Rightarrow> MemGuard \<Rightarrow> Registry option \<Rightarrow> nat list \<times> MemGuard \<times> Registry option" where
  "memTick cur m reg =
    (if mg_hardBytes m > 0 \<and> cur \<ge> mg_hardBytes m then
       (let m1 = snd (setPhase MemHard m) in
        case reg of
          None \<Rightarrow> ([], m1, None)
        | Some r \<Rightarrow>
            (case evictIdle (mg_evictBatch m1) r of
               (ks, r') \<Rightarrow> (ks, (if length ks > 0 then m1\<lparr>mg_hardEvicted := mg_hardEvicted m1 + length ks\<rparr> else m1), Some r')))
     else if mg_softBytes m > 0 \<and> cur \<ge> mg_softBytes m then ([], snd (setPhase MemSoft m), reg)
     else ([], snd (setPhase MemNormal m), reg))"

record MemStat =
  ms_Phase :: string
  ms_CurrentBytes :: u64
  ms_LimitBytes :: u64
  ms_SoftBytes :: u64
  ms_HardBytes :: u64
  ms_SoftRejected :: nat
  ms_HardEvicted :: nat

definition MemGuard_Stat :: "u64 \<Rightarrow> MemGuard \<Rightarrow> MemStat" where
  "MemGuard_Stat cur m =
    \<lparr> ms_Phase = phaseString (mg_phase m), ms_CurrentBytes = cur, ms_LimitBytes = mg_limitBytes m,
      ms_SoftBytes = mg_softBytes m, ms_HardBytes = mg_hardBytes m,
      ms_SoftRejected = mg_softRejected m, ms_HardEvicted = mg_hardEvicted m \<rparr>"

section \<open>Admission\<close>

record World =
  w_guard :: "MemGuard option"
  w_gates :: "Gate list"
  w_reg :: "Registry option"

text \<open>What an admitted connection holds: its meter's identity, when metering is on, and its gates.\<close>

record Admission =
  ad_conn :: "nat option"
  ad_gates :: "nat list"

definition releaseGates :: "nat list \<Rightarrow> Gate list \<Rightarrow> Gate list" where
  "releaseGates is gs = fold (\<lambda>i gs. gs[i := Release (gs ! i)]) is gs"

fun acquireGates :: "nat list \<Rightarrow> nat list \<Rightarrow> Gate list \<Rightarrow> bool \<times> Gate list" where
  "acquireGates held [] gs = (True, gs)"
| "acquireGates held (i # is) gs =
    (case TryAcquire (gs ! i) of
       (True, g) \<Rightarrow> acquireGates (held @ [i]) is (gs[i := g])
     | (False, g) \<Rightarrow> (False, releaseGates held (gs[i := g])))"

definition AdmitConn :: "nat \<Rightarrow> Addr \<Rightarrow> int \<Rightarrow> nat list \<Rightarrow> World \<Rightarrow> Admission option \<times> World" where
  "AdmitConn who src now gates w =
    (case AdmitOK (w_guard w) of
       (False, m) \<Rightarrow> (None, w\<lparr>w_guard := m\<rparr>)
     | (True, m) \<Rightarrow>
         (case acquireGates [] gates (w_gates w) of
            (False, gs) \<Rightarrow> (None, w\<lparr>w_guard := m, w_gates := gs\<rparr>)
          | (True, gs) \<Rightarrow>
              (case w_reg w of
                 Some r \<Rightarrow>
                   (case Open who src now r of
                      (None, r') \<Rightarrow> (None, w\<lparr>w_guard := m, w_gates := releaseGates gates gs, w_reg := Some r'\<rparr>)
                    | (Some k, r') \<Rightarrow>
                        (Some \<lparr> ad_conn = Some k, ad_gates = gates \<rparr>, w\<lparr>w_guard := m, w_gates := gs, w_reg := Some r'\<rparr>))
               | None \<Rightarrow> (Some \<lparr> ad_conn = None, ad_gates = gates \<rparr>, w\<lparr>w_guard := m, w_gates := gs\<rparr>))))"

text \<open>The release function an admission returns.\<close>

definition releaseConnAdm :: "Admission \<Rightarrow> World \<Rightarrow> World" where
  "releaseConnAdm a w =
    (let w1 = (case ad_conn a of None \<Rightarrow> w | Some k \<Rightarrow> w\<lparr>w_reg := map_option (closeConn k) (w_reg w)\<rparr>)
     in w1\<lparr>w_gates := releaseGates (ad_gates a) (w_gates w1)\<rparr>)"

text \<open>The identity of a session: the label the protocol read, looked up; the ambient identity otherwise.\<close>

definition Ambient :: nat where
  "Ambient = 1"

definition sessionWho :: "(string \<rightharpoonup> nat) \<Rightarrow> string option \<Rightarrow> nat" where
  "sessionWho refs tag =
    (case tag of
       None \<Rightarrow> Ambient
     | Some t \<Rightarrow> (case refs t of Some i \<Rightarrow> i | None \<Rightarrow> Ambient))"

section \<open>Gates acquired and given back\<close>

lemma length_releaseGates [simp]: "length (releaseGates is gs) = length gs"
  by (induction "is" arbitrary: gs) (simp_all add: releaseGates_def)

lemma releaseGates_nth:
  "distinct is \<Longrightarrow> \<forall>i \<in> set is. i < length gs \<Longrightarrow> j < length gs \<Longrightarrow>
    releaseGates is gs ! j = (if j \<in> set is then Release (gs ! j) else gs ! j)"
proof (induction "is" arbitrary: gs)
  case (Cons i "is")
  have "releaseGates (i # is) gs = releaseGates is (gs[i := Release (gs ! i)])" by (simp add: releaseGates_def)
  with Cons show ?case by (auto simp: nth_list_update)
qed (simp add: releaseGates_def)

text \<open>The gates that a granted acquisition leaves, seen one by one.\<close>

definition taken :: "nat set \<Rightarrow> Gate list \<Rightarrow> Gate list \<Rightarrow> bool" where
  "taken I gs gs' = (length gs' = length gs \<and> (\<forall>j < length gs.
     gt_maxConns (gs' ! j) = gt_maxConns (gs ! j)
     \<and> gt_live (gs' ! j) = gt_live (gs ! j) + (if j \<in> I then 1 else 0)
     \<and> (j \<in> I \<longrightarrow> gt_maxConns (gs ! j) = 0 \<or> gt_live (gs ! j) < gt_maxConns (gs ! j))))"

text \<open>Gates that differ in their rejection counters only.\<close>

definition sameLive :: "Gate list \<Rightarrow> Gate list \<Rightarrow> bool" where
  "sameLive gs gs' = (length gs' = length gs \<and> (\<forall>j < length gs.
     gt_maxConns (gs' ! j) = gt_maxConns (gs ! j) \<and> gt_live (gs' ! j) = gt_live (gs ! j)))"

lemma acquireGates_taken:
  "acquireGates held is gs = (True, gs') \<Longrightarrow> distinct is \<Longrightarrow> \<forall>i \<in> set is. i < length gs \<Longrightarrow> taken (set is) gs gs'"
proof (induction held "is" gs rule: acquireGates.induct)
  case (2 held i "is" gs)
  obtain g where g: "TryAcquire (gs ! i) = (True, g)" using 2(2) by (auto split: prod.splits bool.splits)
  have G: "gt_maxConns g = gt_maxConns (gs ! i) \<and> gt_live g = gt_live (gs ! i) + 1
      \<and> (gt_maxConns (gs ! i) = 0 \<or> gt_live (gs ! i) < gt_maxConns (gs ! i))"
    using g by (auto simp: TryAcquire_def split: if_splits)
  have "taken (set is) (gs[i := g]) gs'"
    by (rule 2(1) [OF g [symmetric] refl]) (use 2(2-4) g in auto)
  with G 2(3,4) show ?case by (auto simp: taken_def nth_list_update split: if_splits)
qed (simp add: taken_def)

lemma acquireGates_refused:
  "acquireGates held is gs = (False, gs') \<Longrightarrow> distinct (held @ is) \<Longrightarrow> \<forall>i \<in> set (held @ is). i < length gs \<Longrightarrow>
    length gs' = length gs \<and> (\<forall>j < length gs. gt_maxConns (gs' ! j) = gt_maxConns (gs ! j)
      \<and> gt_live (gs' ! j) = gt_live (gs ! j) - (if j \<in> set held then 1 else 0))"
proof (induction held "is" gs rule: acquireGates.induct)
  case (2 held i "is" gs)
  obtain ok g where g: "TryAcquire (gs ! i) = (ok, g)" by (cases "TryAcquire (gs ! i)")
  show ?case
  proof (cases ok)
    case True
    have G: "gt_maxConns g = gt_maxConns (gs ! i)" "gt_live g = gt_live (gs ! i) + 1"
      using g True by (auto simp: TryAcquire_def split: if_splits)
    have "length gs' = length (gs[i := g]) \<and> (\<forall>j < length (gs[i := g]). gt_maxConns (gs' ! j) = gt_maxConns (gs[i := g] ! j)
      \<and> gt_live (gs' ! j) = gt_live (gs[i := g] ! j) - (if j \<in> set (held @ [i]) then 1 else 0))"
      by (rule 2(1) [OF g [symmetric]]) (use True 2(2-4) g in auto)
    with G 2(3,4) show ?thesis by (auto simp: nth_list_update)
  next
    case False
    have G: "gt_maxConns g = gt_maxConns (gs ! i)" "gt_live g = gt_live (gs ! i)"
      using g False by (auto simp: TryAcquire_def split: if_splits)
    have "gs' = releaseGates held (gs[i := g])" using 2(2) g False by simp
    then show ?thesis using G 2(3,4) by (auto simp: releaseGates_nth Release_def nth_list_update)
  qed
qed simp

lemma released_taken:
  assumes "taken (set is) gs gs'" "distinct is" "\<forall>i \<in> set is. i < length gs"
  shows "sameLive gs (releaseGates is gs')"
  using assms by (auto simp: taken_def sameLive_def releaseGates_nth Release_def)


section \<open>Runs\<close>

text \<open>
  The process: its gates, guard and registry, and the connections admitted and not yet released.
  Connections come and go through \<open>AdmitConn\<close> and its release function alone; the other operations
  of the registry and the samples of the guard happen in between.
\<close>

record Sys =
  sy_world :: World
  sy_open :: "Admission list"

datatype sop = SAdmit nat Addr int "nat list" | SRelease nat | STick u64 | SMeter mop

fun sysStep :: "sop \<Rightarrow> Sys \<Rightarrow> Sys" where
  "sysStep (SAdmit who src now gates) s =
    (case AdmitConn who src now gates (sy_world s) of
       (None, w) \<Rightarrow> s\<lparr>sy_world := w\<rparr>
     | (Some a, w) \<Rightarrow> s\<lparr>sy_world := w, sy_open := sy_open s @ [a]\<rparr>)"
| "sysStep (SRelease n) s =
    (if n < length (sy_open s)
     then s\<lparr>sy_world := releaseConnAdm (sy_open s ! n) (sy_world s), sy_open := take n (sy_open s) @ drop (Suc n) (sy_open s)\<rparr>
     else s)"
| "sysStep (STick cur) s =
    (case w_guard (sy_world s) of
       None \<Rightarrow> s
     | Some m \<Rightarrow>
         (case memTick cur m (w_reg (sy_world s)) of
            (_, m', reg) \<Rightarrow> s\<lparr>sy_world := (sy_world s)\<lparr>w_guard := Some m', w_reg := reg\<rparr>\<rparr>))"
| "sysStep (SMeter op) s = s\<lparr>sy_world := (sy_world s)\<lparr>w_reg := map_option (exec op) (w_reg (sy_world s))\<rparr>\<rparr>"

fun validOp :: "nat \<Rightarrow> sop \<Rightarrow> bool" where
  "validOp n (SAdmit who src now gates) = (distinct gates \<and> list_all (\<lambda>i. i < n) gates)"
| "validOp n (SMeter op) = (case op of OpOpen _ _ _ \<Rightarrow> False | OpClose _ \<Rightarrow> False | _ \<Rightarrow> True)"
| "validOp n _ = True"

definition nAdm :: "Sys \<Rightarrow> nat \<Rightarrow> nat" where
  "nAdm s j = length (filter (\<lambda>a. j \<in> set (ad_gates a)) (sy_open s))"

definition gatesInv :: "Gate list \<Rightarrow> Admission list \<Rightarrow> bool" where
  "gatesInv gs as = ((\<forall>j < length gs. gt_live (gs ! j) = int (length (filter (\<lambda>a. j \<in> set (ad_gates a)) as))
      \<and> (0 < gt_maxConns (gs ! j) \<longrightarrow> gt_live (gs ! j) \<le> gt_maxConns (gs ! j)))
    \<and> (\<forall>a \<in> set as. distinct (ad_gates a) \<and> (\<forall>i \<in> set (ad_gates a). i < length gs)))"

definition connsInv :: "Registry option \<Rightarrow> Admission list \<Rightarrow> bool" where
  "connsInv reg as = (case reg of
     None \<Rightarrow> \<forall>a \<in> set as. ad_conn a = None
   | Some r \<Rightarrow> regInv r \<and> distinct (map ad_conn as) \<and> ad_conn ` set as = Some ` keys (r_meters r))"

lemma gatesInv_same: "gatesInv gs as \<Longrightarrow> sameLive gs gs' \<Longrightarrow> gatesInv gs' as"
  by (auto simp: gatesInv_def sameLive_def)

lemma gatesInv_taken:
  assumes "gatesInv gs as" "taken (set is) gs gs'" "distinct is" "\<forall>i \<in> set is. i < length gs"
  shows "gatesInv gs' (as @ [\<lparr> ad_conn = k, ad_gates = is \<rparr>])"
  using assms by (auto simp: gatesInv_def taken_def)

lemma filter_without:
  "n < length xs \<Longrightarrow> int (length (filter P (take n xs @ drop (Suc n) xs))) = int (length (filter P xs)) - (if P (xs ! n) then 1 else 0)"
  using arg_cong [OF id_take_nth_drop [of n xs], of "\<lambda>ys. length (filter P ys)"] by (simp split: if_splits)

lemma set_without: "set (take n xs @ drop (Suc n) xs) \<subseteq> set xs"
  using set_take_subset set_drop_subset by fastforce

lemma gatesInv_release:
  assumes "gatesInv gs as" "n < length as"
  shows "gatesInv (releaseGates (ad_gates (as ! n)) gs) (take n as @ drop (Suc n) as)"
proof -
  let ?is = "ad_gates (as ! n)"
  have d: "distinct ?is" "\<forall>i \<in> set ?is. i < length gs" using assms by (auto simp: gatesInv_def)
  show ?thesis unfolding gatesInv_def
  proof (intro conjI allI impI)
    fix j assume j: "j < length (releaseGates ?is gs)"
    then have L: "gt_live (gs ! j) = int (length (filter (\<lambda>a. j \<in> set (ad_gates a)) as))"
      "0 < gt_maxConns (gs ! j) \<longrightarrow> gt_live (gs ! j) \<le> gt_maxConns (gs ! j)"
      using assms(1) by (auto simp: gatesInv_def)
    have R: "releaseGates ?is gs ! j = (if j \<in> set ?is then Release (gs ! j) else gs ! j)"
      using releaseGates_nth [OF d] j by simp
    show "gt_live (releaseGates ?is gs ! j) = int (length (filter (\<lambda>a. j \<in> set (ad_gates a)) (take n as @ drop (Suc n) as)))"
      unfolding filter_without [OF assms(2)] R by (simp add: Release_def L(1))
    show "gt_live (releaseGates ?is gs ! j) \<le> gt_maxConns (releaseGates ?is gs ! j)"
      if "0 < gt_maxConns (releaseGates ?is gs ! j)"
      using that L(2) R by (auto simp: Release_def split: if_splits)
  next
    show "\<forall>a \<in> set (take n as @ drop (Suc n) as). distinct (ad_gates a) \<and> (\<forall>i \<in> set (ad_gates a). i < length (releaseGates ?is gs))"
      using assms(1) set_without [of n as] by (auto simp: gatesInv_def)
  qed
qed

text \<open>The registry side.\<close>

lemma keys_meters_quiet: "sameBytes r r' \<Longrightarrow> keys (r_meters r') = keys (r_meters r)"
  by (simp add: sameBytes_def)

lemma keys_meters_Add:
  "keys (r_meters (AddUp k n now r)) = keys (r_meters r)" "keys (r_meters (AddDown k n now r)) = keys (r_meters r)"
  by (auto simp: AddUp_def AddDown_def Let_def map_of_keysI split: option.split)

lemma keys_meters_exec: "validOp n (SMeter op) \<Longrightarrow> keys (r_meters (exec op r)) = keys (r_meters r)"
  by (cases op) (simp_all add: keys_meters_Add sameBytes_ops [THEN keys_meters_quiet])

lemma connsInv_exec: "connsInv reg as \<Longrightarrow> validOp n (SMeter op) \<Longrightarrow> connsInv (map_option (exec op) reg) as"
  by (cases reg) (simp_all add: connsInv_def regInv_exec keys_meters_exec [of n])

lemma connsInv_tick: "connsInv reg as \<Longrightarrow> memTick cur m reg = (ks, m', reg') \<Longrightarrow> connsInv reg' as"
  using connsInv_exec [of reg as n "OpEvict (mg_evictBatch (snd (setPhase MemHard m)))" for n]
  by (auto simp: memTick_def Let_def connsInv_def split: if_splits option.splits prod.splits)

lemma connsInv_refused:
  "connsInv (Some r) as \<Longrightarrow> Open i src now r = (None, r') \<Longrightarrow> connsInv (Some r') as"
  using Open_None_same [of r i src now r'] regInv_Open [of r i src now] by (auto simp: connsInv_def sameButStats_def)

lemma connsInv_opened:
  assumes "connsInv (Some r) as" "Open i src now r = (Some k, r')"
  shows "connsInv (Some r') (as @ [\<lparr> ad_conn = Some k, ad_gates = gates \<rparr>])"
proof -
  have inv: "regInv r" using assms(1) by (simp add: connsInv_def)
  note O = Open_SomeD [OF assms(2)]
  have "k \<notin> keys (r_meters r)" using regInv_keys [OF inv] O keys_map_of [of k "r_meters r"] by fastforce
  then have "Some k \<notin> ad_conn ` set as" using assms(1) by (auto simp: connsInv_def)
  moreover have "regInv r'" using regInv_Open [OF inv, of i src now] assms(2) by simp
  ultimately show ?thesis using assms(1) O by (auto simp: connsInv_def)
qed

lemma connsInv_closed:
  assumes "connsInv reg as" "n < length as"
  shows "connsInv (case ad_conn (as ! n) of None \<Rightarrow> reg | Some k \<Rightarrow> map_option (closeConn k) reg) (take n as @ drop (Suc n) as)"
proof (cases reg)
  case None
  then show ?thesis using assms set_without [of n as] by (auto simp: connsInv_def)
next
  case (Some r)
  have inv: "regInv r" and d: "distinct (map ad_conn as)" and k: "ad_conn ` set as = Some ` keys (r_meters r)"
    using assms(1) Some by (auto simp: connsInv_def)
  have "ad_conn (as ! n) \<in> Some ` keys (r_meters r)" using k assms(2) by (metis image_eqI nth_mem)
  then obtain c where c: "ad_conn (as ! n) = Some c" "c \<in> keys (r_meters r)" by auto
  obtain m where m: "map_of (r_meters r) c = Some m" using keys_map_of [OF c(2)] by blast
  have K: "keys (r_meters (closeConn c r)) = keys (r_meters r) - {c}" using closeConn_eq [OF m] by simp
  have split: "as = take n as @ as ! n # drop (Suc n) as" by (rule id_take_nth_drop [OF assms(2)])
  have d': "distinct (map ad_conn (take n as) @ ad_conn (as ! n) # map ad_conn (drop (Suc n) as))"
    using d split by (metis list.simps(9) map_append)
  have "ad_conn ` set as = insert (Some c) (ad_conn ` set (take n as @ drop (Suc n) as))"
    using c(1) arg_cong [OF split, of "\<lambda>xs. ad_conn ` set xs"] by auto
  moreover have "Some c \<notin> ad_conn ` set (take n as @ drop (Suc n) as)" using d' c(1) by auto
  ultimately have "ad_conn ` set (take n as @ drop (Suc n) as) = Some ` keys (r_meters r) - {Some c}"
    unfolding k by (metis Diff_insert_absorb)
  also have "\<dots> = Some ` (keys (r_meters r) - {c})" by (simp add: image_set_diff)
  finally have "ad_conn ` set (take n as @ drop (Suc n) as) = Some ` (keys (r_meters r) - {c})" .
  then show ?thesis using d' K regInv_closeConn [OF inv, of c] by (simp add: Some c(1) connsInv_def)
qed

definition sysInv :: "Sys \<Rightarrow> bool" where
  "sysInv s = (gatesInv (w_gates (sy_world s)) (sy_open s) \<and> connsInv (w_reg (sy_world s)) (sy_open s))"

text \<open>A refused admission changes nothing but counters of refusals.\<close>

definition onlyCounters :: "World \<Rightarrow> World \<Rightarrow> bool" where
  "onlyCounters w w' = (sameLive (w_gates w) (w_gates w')
     \<and> (case (w_reg w, w_reg w') of (None, None) \<Rightarrow> True | (Some r, Some r') \<Rightarrow> r' = r \<or> sameButStats r r' | _ \<Rightarrow> False)
     \<and> map_option mg_phase (w_guard w') = map_option mg_phase (w_guard w))"

lemma sameLive_refl: "sameLive gs gs"
  by (simp add: sameLive_def)

lemma AdmitOK_phase: "AdmitOK g = (ok, g') \<Longrightarrow> map_option mg_phase g' = map_option mg_phase g"
  by (auto simp: AdmitOK_def split: option.splits if_splits)

lemma AdmitConn_refused:
  assumes "AdmitConn who src now gates w = (None, w')" "distinct gates" "\<forall>i \<in> set gates. i < length (w_gates w)"
    and "\<And>r. w_reg w = Some r \<Longrightarrow> regInv r"
  shows "onlyCounters w w'"
proof -
  obtain ok m where m: "AdmitOK (w_guard w) = (ok, m)" by (cases "AdmitOK (w_guard w)")
  obtain ok2 gs where g: "acquireGates [] gates (w_gates w) = (ok2, gs)" by (cases "acquireGates [] gates (w_gates w)")
  have ref: "sameLive (w_gates w) gs" if "\<not> ok2"
    using acquireGates_refused [of "[]" gates "w_gates w" gs] g that assms(2,3) by (auto simp: sameLive_def)
  have rel: "sameLive (w_gates w) (releaseGates gates gs)" if ok2
    using released_taken [OF acquireGates_taken [of "[]" gates "w_gates w" gs]] g that assms(2,3) by simp
  show ?thesis
    using assms(1) m g ref rel AdmitOK_phase [OF m] Open_None_same [OF assms(4), of _ who src now]
    by (auto simp: AdmitConn_def onlyCounters_def sameLive_refl split: bool.splits option.splits prod.splits)
qed


lemma sysInv_admit:
  assumes "sysInv s" "distinct gates" "\<forall>i \<in> set gates. i < length (w_gates (sy_world s))"
  shows "sysInv (sysStep (SAdmit who src now gates) s)"
proof -
  let ?w = "sy_world s"
  have gi: "gatesInv (w_gates ?w) (sy_open s)" and ci: "connsInv (w_reg ?w) (sy_open s)" using assms(1) by (auto simp: sysInv_def)
  obtain ok m where m: "AdmitOK (w_guard ?w) = (ok, m)" by (cases "AdmitOK (w_guard ?w)")
  obtain ok2 gs where g: "acquireGates [] gates (w_gates ?w) = (ok2, gs)" by (cases "acquireGates [] gates (w_gates ?w)")
  show ?thesis
  proof (cases "ok \<and> ok2")
    case False
    have "sameLive (w_gates ?w) gs" if "\<not> ok2"
      using acquireGates_refused [of "[]" gates "w_gates ?w" gs] g that assms(2,3) by (auto simp: sameLive_def)
    then have "\<not> ok2 \<Longrightarrow> gatesInv gs (sy_open s)" using gatesInv_same [OF gi] by blast
    then show ?thesis using False gi ci by (auto simp: AdmitConn_def m g sysInv_def split: bool.splits)
  next
    case True
    have tk: "taken (set gates) (w_gates ?w) gs" using acquireGates_taken [of "[]" gates "w_gates ?w" gs] g True assms(2,3) by simp
    note add = gatesInv_taken [OF gi tk assms(2,3)] and same = gatesInv_same [OF gi released_taken [OF tk assms(2,3)]]
    show ?thesis
    proof (cases "w_reg ?w")
      case None
      then show ?thesis using True add ci by (auto simp: AdmitConn_def m g sysInv_def connsInv_def)
    next
      case (Some r)
      obtain x r' where o: "Open who src now r = (x, r')" by (cases "Open who src now r")
      show ?thesis using True add same connsInv_refused [OF ci [unfolded Some]] connsInv_opened [OF ci [unfolded Some]] o
        by (cases x) (auto simp: AdmitConn_def m g Some sysInv_def)
    qed
  qed
qed

lemma sysInv_release: "sysInv s \<Longrightarrow> sysInv (sysStep (SRelease n) s)"
  using gatesInv_release [of "w_gates (sy_world s)" "sy_open s" n] connsInv_closed [of "w_reg (sy_world s)" "sy_open s" n]
  by (auto simp: sysInv_def releaseConnAdm_def Let_def split: option.split)

lemma gates_length_step: "length (w_gates (sy_world (sysStep op s))) = length (w_gates (sy_world s))"
proof (cases op)
  case (SAdmit who src now gates)
  have l: "acquireGates held is gs = (ok, gs') \<Longrightarrow> length gs' = length gs" for held "is" gs ok gs'
    by (induction held "is" gs rule: acquireGates.induct) (auto split: prod.splits bool.splits)
  show ?thesis unfolding SAdmit by (auto simp: AdmitConn_def split: prod.split option.split bool.split dest: l)
next
  case (STick cur)
  then show ?thesis by (simp split: option.split prod.split)
qed (simp_all add: releaseConnAdm_def Let_def split: option.split)

lemma sysInv_step: "sysInv s \<Longrightarrow> validOp (length (w_gates (sy_world s))) op \<Longrightarrow> sysInv (sysStep op s)"
proof (cases op)
  case (SAdmit who src now gates)
  assume "sysInv s" "validOp (length (w_gates (sy_world s))) op"
  then show ?thesis unfolding SAdmit by (intro sysInv_admit) (auto simp: list_all_iff)
next
  case (STick cur)
  assume inv: "sysInv s"
  show ?thesis
  proof (cases "w_guard (sy_world s)")
    case (Some m)
    obtain ks m' reg where t: "memTick cur m (w_reg (sy_world s)) = (ks, m', reg)" by (cases "memTick cur m (w_reg (sy_world s))")
    have "connsInv reg (sy_open s)" using connsInv_tick [OF _ t] inv by (simp add: sysInv_def)
    then show ?thesis using inv by (simp add: STick Some t sysInv_def)
  qed (use inv in \<open>simp add: STick\<close>)
next
  case (SMeter mo)
  assume "sysInv s" "validOp (length (w_gates (sy_world s))) op"
  then show ?thesis unfolding SMeter sysInv_def by (simp add: connsInv_exec [of _ _ "length (w_gates (sy_world s))"])
qed (use sysInv_release in blast)

lemma sysInv_run: "sysInv s \<Longrightarrow> \<forall>op \<in> set ops. validOp (length (w_gates (sy_world s))) op \<Longrightarrow> sysInv (fold sysStep ops s)"
  by (induction ops arbitrary: s) (simp_all add: sysInv_step gates_length_step)

definition startSys :: "MemGuard option \<Rightarrow> Gate list \<Rightarrow> cfg list option \<Rightarrow> Sys" where
  "startSys m gs cs = \<lparr> sy_world = \<lparr> w_guard = m, w_gates = gs, w_reg = map_option configure cs \<rparr>, sy_open = [] \<rparr>"

lemma sysInv_start: "\<forall>g \<in> set gs. gt_live g = 0 \<Longrightarrow> sysInv (startSys m gs cs)"
  using regInv_configure by (auto simp: startSys_def sysInv_def gatesInv_def connsInv_def split: option.split)

text \<open>
  C10: however connections are admitted and released, samples taken and the registry operated in
  between, the counter of every gate equals the number of admitted connections that hold it and never
  exceeds its limit, and the meters of the registry are exactly those of the admitted connections.
\<close>

theorem admission_exact:
  assumes "\<forall>g \<in> set gs. gt_live g = 0" "\<forall>op \<in> set ops. validOp (length gs) op" "s = fold sysStep ops (startSys m gs cs)"
    and "j < length gs"
  shows "gt_live (w_gates (sy_world s) ! j) = int (nAdm s j)
    \<and> (0 < gt_maxConns (w_gates (sy_world s) ! j) \<longrightarrow> int (nAdm s j) \<le> gt_maxConns (w_gates (sy_world s) ! j))
    \<and> (\<forall>r. w_reg (sy_world s) = Some r \<longrightarrow> distinct (map ad_conn (sy_open s)) \<and> ad_conn ` set (sy_open s) = Some ` keys (r_meters r))"
proof -
  have "sysInv s" unfolding assms(3) using sysInv_run [OF sysInv_start [OF assms(1)]] assms(2) by (simp add: startSys_def)
  moreover have "length (w_gates (sy_world (fold sysStep ops s))) = length (w_gates (sy_world s))" for s
    by (induction ops arbitrary: s) (simp_all add: gates_length_step)
  then have "length (w_gates (sy_world s)) = length gs" by (simp add: assms(3) startSys_def)
  ultimately have g: "gatesInv (w_gates (sy_world s)) (sy_open s)" and c: "connsInv (w_reg (sy_world s)) (sy_open s)"
    and j: "j < length (w_gates (sy_world s))" using assms(4) by (simp_all add: sysInv_def)
  from g j have "gt_live (w_gates (sy_world s) ! j) = int (nAdm s j)"
    "0 < gt_maxConns (w_gates (sy_world s) ! j) \<longrightarrow> gt_live (w_gates (sy_world s) ! j) \<le> gt_maxConns (w_gates (sy_world s) ! j)"
    unfolding gatesInv_def nAdm_def by blast+
  with c show ?thesis by (simp add: connsInv_def split: option.splits)
qed


section \<open>The phases\<close>

lemma guard_phase:
  assumes "memTick cur m reg = (ks, m', reg')"
  shows "mg_phase m' = (if 0 < mg_hardBytes m \<and> mg_hardBytes m \<le> cur then MemHard
      else if 0 < mg_softBytes m \<and> mg_softBytes m \<le> cur then MemSoft else MemNormal)
    \<and> (fst (AdmitOK (Some m')) \<longleftrightarrow> mg_phase m' = MemNormal)
    \<and> (ks \<noteq> [] \<longrightarrow> mg_phase m' = MemHard) \<and> mg_hardEvicted m' = mg_hardEvicted m + length ks
    \<and> (mg_phase m' \<noteq> MemHard \<longrightarrow> reg' = reg)"
  using assms by (cases "mg_phase m'")
    (auto simp: memTick_def setPhase_def AdmitOK_def Let_def less_eq_MemPhase_def split: if_splits option.splits prod.splits)


section \<open>Examples\<close>

text \<open>Two gates with room for one connection and for any number; the second admission is refused.\<close>

abbreviation "gateW n \<equiv> \<lparr> gt_maxConns = n, gt_live = 0, gt_rejected = 0 \<rparr>"

theorem admission_exact_witness:
  "let s = fold sysStep [SAdmit 5 (Addr4 1) 0 [0, 1], SAdmit 5 (Addr4 1) 0 [0, 1]] (startSys None [gateW 1, gateW 0] None) in
     nAdm s 0 = 1 \<and> gt_live (w_gates (sy_world s) ! 0) = int (nAdm s 0) \<and> gt_maxConns (w_gates (sy_world s) ! 0) = 1"
proof -
  let ?ops = "[SAdmit 5 (Addr4 1) 0 [0, 1], SAdmit 5 (Addr4 1) 0 [0, 1]]"
  let ?s = "fold sysStep ?ops (startSys None [gateW 1, gateW 0] None)"
  have "gt_live (w_gates (sy_world ?s) ! 0) = int (nAdm ?s 0)"
    by (rule admission_exact [where j = 0 and gs = "[gateW 1, gateW 0]", OF _ _ refl, THEN conjunct1]) auto
  moreover have "nAdm ?s 0 = 1 \<and> gt_maxConns (w_gates (sy_world ?s) ! 0) = 1"
    by (simp add: startSys_def AdmitConn_def AdmitOK_def TryAcquire_def releaseGates_def nAdm_def)
  ultimately show ?thesis by (simp only: Let_def simp_thms)
qed


end
