(* ===== verification/Wire.thy ===== *)
theory Wire
  imports Prelude
begin

text \<open>
  Reading from a byte stream, and the contract every wire format of the program is proved against: a
  decoder that, given an encoded value and whatever follows it, returns the value and exactly what
  follows.  The client lemmas (encodings are prefix-free, sequences of values are read back one by
  one) are proved once, in the locale.
\<close>

section \<open>Reading\<close>

datatype ioErr = EOF | UnexpectedEOF

text \<open>\<open>io.ReadFull\<close> on a stream that delivers the given bytes and then ends.\<close>

definition readFull :: "nat \<Rightarrow> bytes \<Rightarrow> (ioErr, bytes \<times> bytes) result" where
  "readFull n s =
    (if n \<le> length s then Inr (take n s, drop n s)
     else Inl (if s = [] then EOF else UnexpectedEOF))"

lemma readFull_append [simp]: "readFull (length xs) (xs @ rest) = Inr (xs, rest)"
  by (simp add: readFull_def)

lemma readFull_append' [simp]: "n = length xs \<Longrightarrow> readFull n (xs @ rest) = Inr (xs, rest)"
  by simp

lemma readFull_all [simp]: "readFull (length xs) xs = Inr (xs, [])"
  by (simp add: readFull_def)

lemma readFull_Inr: "readFull n s = Inr (a, b) \<longleftrightarrow> n \<le> length s \<and> a = take n s \<and> b = drop n s"
  by (auto simp: readFull_def)

lemma readFull_zero [simp]: "readFull 0 s = Inr ([], s)"
  by (simp add: readFull_def)

lemma readFull_one [simp]: "readFull (Suc 0) (x # s) = Inr ([x], s)"
  by (simp add: readFull_def)

section \<open>Codecs\<close>

locale codec =
  fixes enc :: "'a \<Rightarrow> bytes"
    and dec :: "bytes \<Rightarrow> ('e, 'a \<times> bytes) result"
    and wf :: "'a \<Rightarrow> bool"
  assumes dec_enc: "wf x \<Longrightarrow> dec (enc x @ rest) = Inr (x, rest)"
begin

lemma enc_inject: "wf x \<Longrightarrow> wf y \<Longrightarrow> enc x @ r = enc y @ r' \<Longrightarrow> x = y \<and> r = r'"
  by (metis dec_enc prod.inject sum.inject(2))

lemma enc_prefix_free: "wf x \<Longrightarrow> wf y \<Longrightarrow> prefix (enc x) (enc y) \<Longrightarrow> x = y"
  by (metis append.right_neutral enc_inject prefixE)

fun decN :: "nat \<Rightarrow> bytes \<Rightarrow> ('e, 'a list \<times> bytes) result" where
  "decN 0 s = Inr ([], s)"
| "decN (Suc n) s = (case dec s of Inl e \<Rightarrow> Inl e
     | Inr (x, s') \<Rightarrow> (case decN n s' of Inl e \<Rightarrow> Inl e | Inr (xs, s'') \<Rightarrow> Inr (x # xs, s'')))"

lemma decN_encs: "list_all wf xs \<Longrightarrow> decN (length xs) (concat (map enc xs) @ rest) = Inr (xs, rest)"
  by (induction xs) (simp_all add: dec_enc)

lemma encs_inject:
  "list_all wf xs \<Longrightarrow> list_all wf ys \<Longrightarrow> length xs = length ys \<Longrightarrow>
    concat (map enc xs) @ r = concat (map enc ys) @ r' \<Longrightarrow> xs = ys \<and> r = r'"
  by (metis decN_encs prod.inject sum.inject(2))

end

text \<open>Big-endian integers at the head of a stream.\<close>

definition be64 :: "u64 \<Rightarrow> bytes" where
  "be64 w = be32 (ucast (drop_bit 32 w)) @ be32 (ucast w)"

definition rd16 :: "bytes \<Rightarrow> (ioErr, u16 \<times> bytes) result" where
  "rd16 s = res_bind (readFull 2 s) (\<lambda>(b, r). Inr (get16 (b ! 0) (b ! 1), r))"

definition rd32 :: "bytes \<Rightarrow> (ioErr, u32 \<times> bytes) result" where
  "rd32 s = res_bind (readFull 4 s) (\<lambda>(b, r). Inr (get32 (b ! 0) (b ! 1) (b ! 2) (b ! 3), r))"

lemma rd16_be16 [simp]: "rd16 (be16 w @ rest) = Inr (w, rest)"
  by (simp add: rd16_def readFull_def be16_def)

lemma rd32_be32 [simp]: "rd32 (be32 w @ rest) = Inr (w, rest)"
  by (simp add: rd32_def readFull_def be32_def)

interpretation c16: codec be16 rd16 "\<lambda>_. True"
  by unfold_locales simp

interpretation c32: codec be32 rd32 "\<lambda>_. True"
  by unfold_locales simp

section \<open>Hashing\<close>

unbundle bit_operations_syntax

text \<open>\<open>fnv.New32a\<close>.\<close>

definition fnv32a :: "bytes \<Rightarrow> u32" where
  "fnv32a bs = fold (\<lambda>b h. (h XOR ucast b) * 16777619) bs 2166136261"

end
