(* ===== verification/MuxFrame.thy ===== *)
theory MuxFrame
  imports Wire
begin

text \<open>
  The frame layer of the stream multiplexer (\<open>muxcool/frame.go\<close>): metadata, addresses, data chunks.
  A frame that is written is read back, whatever follows it; a payload of any length is cut into
  frames of at most 8192 bytes that carry exactly its bytes.
\<close>

unbundle bit_operations_syntax

section \<open>Data\<close>

abbreviation (input) "StatusNew \<equiv> (1 :: u8)"
abbreviation (input) "StatusKeep \<equiv> (2 :: u8)"
abbreviation (input) "StatusEnd \<equiv> (3 :: u8)"
abbreviation (input) "StatusKeepAlive \<equiv> (4 :: u8)"
abbreviation (input) "OptionData \<equiv> (1 :: u8)"
abbreviation (input) "OptionError \<equiv> (2 :: u8)"
abbreviation (input) "NetworkTCP \<equiv> (1 :: u8)"
abbreviation (input) "NetworkUDP \<equiv> (2 :: u8)"
abbreviation (input) "atypIPv4 \<equiv> (1 :: u8)"
abbreviation (input) "atypDomain \<equiv> (2 :: u8)"
abbreviation (input) "atypIPv6 \<equiv> (3 :: u8)"

definition optHas :: "u8 \<Rightarrow> u8 \<Rightarrow> bool" where
  "optHas opt f = (opt AND f \<noteq> 0)"

definition maxMetaLen :: nat where "maxMetaLen = 512"

definition StreamChunkSize :: nat where "StreamChunkSize = 8 * 1024"

datatype muxErr = ErrMetaTooLong | ErrMetaTooShort | ErrDataTooLong | DomainTooLong | BadAddrType u8 | MuxIO ioErr

record MuxAddress =
  ma_IsDomain :: bool
  ma_Domain :: string
  ma_IP :: bytes

record FrameMetadata =
  fm_SessionID :: u16
  fm_Status :: u8
  fm_Option :: u8
  fm_Network :: u8
  fm_Address :: MuxAddress
  fm_Port :: u16

abbreviation "noAddr \<equiv> \<lparr> ma_IsDomain = False, ma_Domain = [], ma_IP = [] \<rparr>"

text \<open>\<open>net.IP.To4\<close> and \<open>net.IP.To16\<close>; the empty list is the nil address.\<close>

definition v4InV6Prefix :: bytes where
  "v4InV6Prefix = replicate 10 0 @ [255, 255]"

definition To4 :: "bytes \<Rightarrow> bytes option" where
  "To4 ip = (if length ip = 4 then Some ip
     else if length ip = 16 \<and> take 12 ip = v4InV6Prefix then Some (drop 12 ip) else None)"

definition To16 :: "bytes \<Rightarrow> bytes" where
  "To16 ip = (if length ip = 4 then v4InV6Prefix @ ip else if length ip = 16 then ip else [])"

section \<open>Addresses\<close>

definition writeAddrPort :: "bytes \<Rightarrow> u16 \<Rightarrow> MuxAddress \<Rightarrow> (muxErr, bytes) result" where
  "writeAddrPort b port a =
    (let b = b @ be16 port in
     if ma_IsDomain a then
       (if length (ma_Domain a) > 255 then Inl DomainTooLong
        else Inr (b @ [atypDomain, word_of_nat (length (ma_Domain a))] @ bytes_of_string (ma_Domain a)))
     else
       (case To4 (ma_IP a) of
          Some ip \<Rightarrow> Inr (b @ [atypIPv4] @ ip)
        | None \<Rightarrow> Inr (b @ [atypIPv6] @ To16 (ma_IP a))))"

definition readAddrPort :: "bytes \<Rightarrow> nat \<Rightarrow> (muxErr, MuxAddress \<times> u16 \<times> nat) result" where
  "readAddrPort buf off =
    (if off + 3 > length buf then Inl (MuxIO UnexpectedEOF)
     else
       (let port = get16 (buf ! off) (buf ! (off + 1)); atyp = buf ! (off + 2); off = off + 3 in
        if atyp = atypIPv4 then
          (if off + 4 > length buf then Inl (MuxIO UnexpectedEOF)
           else Inr (\<lparr> ma_IsDomain = False, ma_Domain = [], ma_IP = take 4 (drop off buf) \<rparr>, port, off + 4))
        else if atyp = atypIPv6 then
          (if off + 16 > length buf then Inl (MuxIO UnexpectedEOF)
           else Inr (\<lparr> ma_IsDomain = False, ma_Domain = [], ma_IP = take 16 (drop off buf) \<rparr>, port, off + 16))
        else if atyp = atypDomain then
          (if off + 1 > length buf then Inl (MuxIO UnexpectedEOF)
           else
             (let dlen = unat (buf ! off); off = off + 1 in
              if off + dlen > length buf then Inl (MuxIO UnexpectedEOF)
              else Inr (\<lparr> ma_IsDomain = True, ma_Domain = string_of_bytes (take dlen (drop off buf)), ma_IP = [] \<rparr>,
                        port, off + dlen)))
        else Inl (BadAddrType atyp)))"

section \<open>Frames\<close>

definition hasTarget :: "FrameMetadata \<Rightarrow> bool" where
  "hasTarget m = (fm_Status m = StatusNew \<or> (fm_Status m = StatusKeep \<and> fm_Network m = NetworkUDP))"

definition encodeHeader :: "FrameMetadata \<Rightarrow> nat \<Rightarrow> (muxErr, bytes) result" where
  "encodeHeader m dataLen =
    (let body = be16 (fm_SessionID m) @ [fm_Status m, fm_Option m] in
     res_bind (if hasTarget m then writeAddrPort (body @ [fm_Network m]) (fm_Port m) (fm_Address m) else Inr body)
       (\<lambda>body.
          if length body > maxMetaLen then Inl ErrMetaTooLong
          else Inr (be16 (word_of_nat (length body)) @ body
             @ (if optHas (fm_Option m) OptionData then be16 (word_of_nat dataLen) else []))))"

definition unmarshalMeta :: "bytes \<Rightarrow> (muxErr, FrameMetadata) result" where
  "unmarshalMeta buf =
    (if length buf < 4 then Inl ErrMetaTooShort
     else
       (let m = \<lparr> fm_SessionID = get16 (buf ! 0) (buf ! 1), fm_Status = buf ! 2, fm_Option = buf ! 3,
                  fm_Network = 0, fm_Address = noAddr, fm_Port = 0 \<rparr> in
        if fm_Status m = StatusNew \<or> (fm_Status m = StatusKeep \<and> 4 < length buf \<and> buf ! 4 = NetworkUDP) then
          (if 4 \<ge> length buf then Inl (MuxIO UnexpectedEOF)
           else
             res_bind (readAddrPort buf 5)
               (\<lambda>(a, p, _). Inr (m\<lparr>fm_Network := buf ! 4, fm_Address := a, fm_Port := p\<rparr>)))
        else Inr m))"

definition WriteFrame :: "FrameMetadata \<Rightarrow> bytes \<Rightarrow> (muxErr, bytes) result" where
  "WriteFrame m data =
    (if length data > StreamChunkSize then Inl ErrDataTooLong
     else
       (let m = (if length data > 0 then m\<lparr>fm_Option := fm_Option m OR OptionData\<rparr> else m) in
        res_bind (encodeHeader m (length data))
          (\<lambda>hdr. Inr (hdr @ (if optHas (fm_Option m) OptionData \<and> length data > 0 then data else [])))))"

definition mio :: "(ioErr, 'a) result \<Rightarrow> (muxErr, 'a) result" where
  "mio x = (case x of Inl e \<Rightarrow> Inl (MuxIO e) | Inr a \<Rightarrow> Inr a)"

definition ReadFrame :: "bytes \<Rightarrow> (muxErr, (FrameMetadata \<times> bytes) \<times> bytes) result" where
  "ReadFrame s =
    res_bind (mio (rd16 s)) (\<lambda>(metaLen, s).
      if unat metaLen > maxMetaLen then Inl ErrMetaTooLong
      else if unat metaLen < 4 then Inl ErrMetaTooShort
      else
        res_bind (mio (readFull (unat metaLen) s)) (\<lambda>(metaBuf, s).
          res_bind (unmarshalMeta metaBuf) (\<lambda>m.
            if optHas (fm_Option m) OptionData then
              res_bind (mio (rd16 s)) (\<lambda>(dataLen, s).
                if unat dataLen > StreamChunkSize then Inl ErrDataTooLong
                else if unat dataLen > 0 then
                  res_bind (mio (readFull (unat dataLen) s)) (\<lambda>(data, s). Inr ((m, data), s))
                else Inr ((m, []), s))
            else Inr ((m, []), s))))"

text \<open>A payload as a sequence of frames of one stream.\<close>

function WriteData :: "u16 \<Rightarrow> bytes \<Rightarrow> (muxErr, bytes) result" where
  "WriteData sessionID data =
    (if length data > 0 then
       (let n = (if length data > StreamChunkSize then StreamChunkSize else length data);
            m = \<lparr> fm_SessionID = sessionID, fm_Status = StatusKeep, fm_Option = OptionData,
                  fm_Network = 0, fm_Address = noAddr, fm_Port = 0 \<rparr> in
        res_bind (WriteFrame m (take n data)) (\<lambda>out.
          res_bind (WriteData sessionID (drop n data)) (\<lambda>out'. Inr (out @ out'))))
     else Inr [])"
  by auto
termination by (relation "measure (\<lambda>(_, d). length d)") (auto simp: StreamChunkSize_def)

declare WriteData.simps [simp del]

definition WriteEnd :: "u16 \<Rightarrow> bool \<Rightarrow> (muxErr, bytes) result" where
  "WriteEnd sessionID hasError =
    WriteFrame \<lparr> fm_SessionID = sessionID, fm_Status = StatusEnd, fm_Option = (if hasError then 0 OR OptionError else 0),
                 fm_Network = 0, fm_Address = noAddr, fm_Port = 0 \<rparr> []"

section \<open>Reading back what was written\<close>

text \<open>The form in which an address arrives: an IPv4-mapped address as its four bytes.\<close>

definition normAddr :: "MuxAddress \<Rightarrow> MuxAddress" where
  "normAddr a =
    (if ma_IsDomain a then a\<lparr>ma_IP := []\<rparr>
     else \<lparr> ma_IsDomain = False, ma_Domain = [], ma_IP = (case To4 (ma_IP a) of Some ip \<Rightarrow> ip | None \<Rightarrow> ma_IP a) \<rparr>)"

definition okAddr :: "MuxAddress \<Rightarrow> bool" where
  "okAddr a = (if ma_IsDomain a then length (ma_Domain a) \<le> 255 else length (ma_IP a) = 4 \<or> length (ma_IP a) = 16)"

definition normMeta :: "FrameMetadata \<Rightarrow> bytes \<Rightarrow> FrameMetadata" where
  "normMeta m data =
    \<lparr> fm_SessionID = fm_SessionID m, fm_Status = fm_Status m,
      fm_Option = (if data = [] then fm_Option m else fm_Option m OR OptionData),
      fm_Network = (if hasTarget m then fm_Network m else 0),
      fm_Address = (if hasTarget m then normAddr (fm_Address m) else noAddr),
      fm_Port = (if hasTarget m then fm_Port m else 0) \<rparr>"

lemma To4_length: "To4 ip = Some ip4 \<Longrightarrow> length ip4 = 4"
  by (auto simp: To4_def split: if_splits)

lemma unat_len [simp]: "n < 256 \<Longrightarrow> unat (word_of_nat n :: u8) = n" "n < 65536 \<Longrightarrow> unat (word_of_nat n :: u16) = n"
  by (simp_all add: unat_of_nat)

definition addrBytes :: "u16 \<Rightarrow> MuxAddress \<Rightarrow> bytes" where
  "addrBytes port a = be16 port @
    (if ma_IsDomain a then [atypDomain, word_of_nat (length (ma_Domain a))] @ bytes_of_string (ma_Domain a)
     else case To4 (ma_IP a) of Some ip \<Rightarrow> [atypIPv4] @ ip | None \<Rightarrow> [atypIPv6] @ To16 (ma_IP a))"

lemma writeAddrPort_eq: "okAddr a \<Longrightarrow> writeAddrPort b port a = Inr (b @ addrBytes port a)"
  by (auto simp: writeAddrPort_def addrBytes_def okAddr_def Let_def split: option.split if_splits)

lemma addrBytes_length: "okAddr a \<Longrightarrow> length (addrBytes port a) \<le> 259"
  by (auto simp: addrBytes_def okAddr_def To16_def To4_def v4InV6Prefix_def split: option.split if_splits)

lemma nth_be16: "be16 w ! 0 = ucast (drop_bit 8 w)" "be16 w ! Suc 0 = ucast w"
  by (simp_all add: be16_def)

lemma readAddrPort_addrBytes:
  assumes "okAddr a"
  shows "readAddrPort (pre @ addrBytes port a) (length pre) = Inr (normAddr a, port, length pre + length (addrBytes port a))"
proof -
  have p: "(pre @ addrBytes port a) ! (length pre + k) = addrBytes port a ! k" for k by (simp add: nth_append)
  have d: "drop (length pre + k) (pre @ addrBytes port a) = drop k (addrBytes port a)" for k by simp
  have p0: "(pre @ addrBytes port a) ! length pre = addrBytes port a ! 0" using p [of 0] by simp
  have b: "get16 (addrBytes port a ! 0) (addrBytes port a ! 1) = port"
    by (simp add: addrBytes_def nth_append nth_be16)
  consider (dom) "ma_IsDomain a" | (v4) ip where "\<not> ma_IsDomain a" "To4 (ma_IP a) = Some ip"
    | (v6) "\<not> ma_IsDomain a" "To4 (ma_IP a) = None" by (cases "To4 (ma_IP a)") auto
  then show ?thesis
  proof cases
    case dom
    have e: "addrBytes port a = be16 port @ [atypDomain, word_of_nat (length (ma_Domain a))] @ bytes_of_string (ma_Domain a)"
      using dom by (simp add: addrBytes_def)
    have l: "length (ma_Domain a) < 256" using assms dom by (simp add: okAddr_def)
    show ?thesis unfolding readAddrPort_def p p0 d Let_def b using l dom
      by (simp add: e be16_def add.commute [of _ "length pre"] normAddr_def)
  next
    case v4
    have e: "addrBytes port a = be16 port @ atypIPv4 # ip" using v4 by (simp add: addrBytes_def)
    show ?thesis unfolding readAddrPort_def p p0 d Let_def b using v4 To4_length [OF v4(2)]
      by (simp add: e be16_def normAddr_def)
  next
    case v6
    have l: "length (ma_IP a) = 16" using assms v6 by (auto simp: okAddr_def To4_def split: if_splits)
    have e: "addrBytes port a = be16 port @ atypIPv6 # ma_IP a" using v6 l by (simp add: addrBytes_def To16_def)
    show ?thesis unfolding readAddrPort_def p p0 d Let_def b using v6 l
      by (simp add: e be16_def normAddr_def)
  qed
qed


definition metaBytes :: "FrameMetadata \<Rightarrow> bytes" where
  "metaBytes m = be16 (fm_SessionID m) @ [fm_Status m, fm_Option m]
     @ (if hasTarget m then fm_Network m # addrBytes (fm_Port m) (fm_Address m) else [])"

definition okMeta :: "FrameMetadata \<Rightarrow> bool" where
  "okMeta m = (hasTarget m \<longrightarrow> okAddr (fm_Address m))"

lemma metaBytes_length: "okMeta m \<Longrightarrow> 4 \<le> length (metaBytes m) \<and> length (metaBytes m) \<le> 264"
  using addrBytes_length [of "fm_Address m" "fm_Port m"] by (auto simp: metaBytes_def okMeta_def)

lemma encodeHeader_eq:
  assumes "okMeta m"
  shows "encodeHeader m n = Inr (be16 (word_of_nat (length (metaBytes m))) @ metaBytes m
    @ (if optHas (fm_Option m) OptionData then be16 (word_of_nat n) else []))"
proof -
  have l: "\<not> maxMetaLen < length (metaBytes m)" using metaBytes_length [OF assms] by (simp add: maxMetaLen_def)
  show ?thesis
  proof (cases "hasTarget m")
    case True
    then have "okAddr (fm_Address m)" using assms by (simp add: okMeta_def)
    then show ?thesis using l by (simp add: encodeHeader_def Let_def True writeAddrPort_eq metaBytes_def)
  next
    case False
    then show ?thesis using l by (simp add: encodeHeader_def Let_def metaBytes_def)
  qed
qed

lemma unmarshal_metaBytes:
  assumes "okMeta m"
  shows "unmarshalMeta (metaBytes m) = Inr (normMeta m [])"
proof -
  have n: "metaBytes m ! 0 = ucast (drop_bit 8 (fm_SessionID m))" "metaBytes m ! 1 = ucast (fm_SessionID m)"
    "metaBytes m ! 2 = fm_Status m" "metaBytes m ! 3 = fm_Option m"
    by (simp_all add: metaBytes_def be16_def)
  show ?thesis
  proof (cases "hasTarget m")
    case True
    let ?pre = "be16 (fm_SessionID m) @ [fm_Status m, fm_Option m, fm_Network m]"
    have e: "metaBytes m = ?pre @ addrBytes (fm_Port m) (fm_Address m)" using True by (simp add: metaBytes_def)
    have r: "readAddrPort (metaBytes m) 5 = Inr (normAddr (fm_Address m), fm_Port m, 5 + length (addrBytes (fm_Port m) (fm_Address m)))"
      using readAddrPort_addrBytes [of "fm_Address m" ?pre "fm_Port m"] assms True by (simp add: e okMeta_def)
    have "metaBytes m ! 4 = fm_Network m" "4 < length (metaBytes m)" by (simp_all add: e be16_def)
    then show ?thesis using True r
      by (simp add: unmarshalMeta_def Let_def n [simplified] normMeta_def hasTarget_def)
  next
    case False
    then have "length (metaBytes m) = 4" by (simp add: metaBytes_def)
    then show ?thesis using False by (auto simp: unmarshalMeta_def Let_def n [simplified] normMeta_def hasTarget_def)
  qed
qed

lemma normMeta_option: "normMeta (m\<lparr>fm_Option := fm_Option m OR OptionData\<rparr>) [] = normMeta m (x # xs)"
  by (simp add: normMeta_def hasTarget_def)

lemma optHas_or: "optHas (x OR OptionData) OptionData"
proof -
  have "bit ((x OR 1) AND 1 :: u8) 0" by (simp add: bit_simps)
  then show ?thesis unfolding optHas_def by (metis bit_0_eq bot_apply bot_bool_def)
qed

lemma mio_simps [simp]: "mio (Inl e) = Inl (MuxIO e)" "mio (Inr a) = Inr a"
  by (simp_all add: mio_def)

text \<open>The bytes of a frame with the option byte already set.\<close>

lemma ReadFrame_frame:
  assumes "okMeta m" "length data \<le> StreamChunkSize" "data \<noteq> [] \<longrightarrow> optHas (fm_Option m) OptionData"
  shows "ReadFrame (be16 (word_of_nat (length (metaBytes m))) @ metaBytes m
      @ (if optHas (fm_Option m) OptionData then be16 (word_of_nat (length data)) else []) @ data @ rest)
    = Inr ((normMeta m [], data), rest)"
proof -
  have l: "unat (word_of_nat (length (metaBytes m)) :: u16) = length (metaBytes m)"
    and b: "\<not> maxMetaLen < length (metaBytes m)" "\<not> length (metaBytes m) < 4"
    using metaBytes_length [OF assms(1)] by (simp_all add: maxMetaLen_def)
  have d: "unat (word_of_nat (length data) :: u16) = length data" using assms(2) by (simp add: StreamChunkSize_def)
  have o: "fm_Option (normMeta m []) = fm_Option m" by (simp add: normMeta_def)
  show ?thesis
    unfolding ReadFrame_def rd16_be16 mio_simps res_bind_simps prod.case l
    using assms(2,3) b by (simp add: unmarshal_metaBytes [OF assms(1)] o d)
qed

lemma WriteFrame_eq:
  assumes "okMeta m" "length data \<le> StreamChunkSize"
  defines "m' \<equiv> (if data = [] then m else m\<lparr>fm_Option := fm_Option m OR OptionData\<rparr>)"
  shows "WriteFrame m data = Inr (be16 (word_of_nat (length (metaBytes m'))) @ metaBytes m'
      @ (if optHas (fm_Option m') OptionData then be16 (word_of_nat (length data)) else []) @ data)"
proof -
  have ok: "okMeta m'" using assms(1) by (simp add: m'_def okMeta_def hasTarget_def)
  have o: "data \<noteq> [] \<Longrightarrow> optHas (fm_Option m') OptionData" by (simp add: m'_def optHas_or)
  show ?thesis using assms(2) o encodeHeader_eq [OF ok]
    by (auto simp: WriteFrame_def Let_def m'_def)
qed

lemma frame_read_back:
  assumes "okMeta m" "length data \<le> StreamChunkSize"
  shows "\<exists>out. WriteFrame m data = Inr out \<and> ReadFrame (out @ rest) = Inr ((normMeta m data, data), rest)"
proof -
  let ?m = "if data = [] then m else m\<lparr>fm_Option := fm_Option m OR OptionData\<rparr>"
  have ok: "okMeta ?m" using assms(1) by (simp add: okMeta_def hasTarget_def)
  have n: "normMeta ?m [] = normMeta m data" by (cases data) (simp_all add: normMeta_option)
  have o: "data \<noteq> [] \<longrightarrow> optHas (fm_Option ?m) OptionData" by (simp add: optHas_or)
  show ?thesis using WriteFrame_eq [OF assms] ReadFrame_frame [OF ok assms(2) o, of rest] by (simp add: n)
qed

text \<open>
  every frame with a well-formed target and at most 8192 bytes of data is written, and reading the
  written bytes, whatever follows them, gives the frame back (an IPv4-mapped address as its four
  bytes, fields a frame of its kind does not carry as zero) and leaves exactly what follows.
\<close>

theorem frame_round_trip:
  assumes "okMeta m" "length data \<le> StreamChunkSize"
  shows "\<exists>out. WriteFrame m data = Inr out \<and> ReadFrame (out @ rest) = Inr ((normMeta m data, data), rest)"
  by (rule frame_read_back [OF assms])

lemma frame_write_fails_iff:
  "(\<exists>e. WriteFrame m data = Inl e) \<longleftrightarrow>
     StreamChunkSize < length data \<or> (hasTarget m \<and> ma_IsDomain (fm_Address m) \<and> 255 < length (ma_Domain (fm_Address m)))"
proof -
  let ?m = "if data = [] then m else m\<lparr>fm_Option := fm_Option m OR OptionData\<rparr>"
  have t: "hasTarget ?m = hasTarget m" "fm_Address ?m = fm_Address m" by (simp_all add: hasTarget_def)
  have b: "length b + length (To16 ip) \<le> maxMetaLen" "To4 ip = Some x \<Longrightarrow> length b + length x \<le> maxMetaLen" if "length b < 20" for b ip x :: bytes
    using that To4_length [of ip x] by (auto simp: To16_def maxMetaLen_def v4InV6Prefix_def)
  have H: "(\<exists>e. encodeHeader ?m n = Inl e) \<longleftrightarrow> hasTarget m \<and> ma_IsDomain (fm_Address m) \<and> 255 < length (ma_Domain (fm_Address m))" for n
    unfolding encodeHeader_def t Let_def writeAddrPort_def
    using b [of "replicate 8 0" "ma_IP (fm_Address m)"] by (auto simp: maxMetaLen_def split: option.split)
  have "(\<exists>e. WriteFrame m data = Inl e) \<longleftrightarrow> (\<exists>e. encodeHeader ?m (length data) = Inl e)" if "\<not> StreamChunkSize < length data"
    using that by (auto simp: WriteFrame_def Let_def res_bind_Inl_iff)
  then show ?thesis unfolding H by (cases "StreamChunkSize < length data") (auto simp: WriteFrame_def)
qed

text \<open>Frames as they arrive are a codec.\<close>

definition frameBytes :: "FrameMetadata \<times> bytes \<Rightarrow> bytes" where
  "frameBytes = (\<lambda>(m, d). case WriteFrame m d of Inl _ \<Rightarrow> [] | Inr b \<Rightarrow> b)"

definition wfFrame :: "FrameMetadata \<times> bytes \<Rightarrow> bool" where
  "wfFrame = (\<lambda>(m, d). okMeta m \<and> length d \<le> StreamChunkSize \<and> normMeta m d = m)"

interpretation frames: codec frameBytes ReadFrame wfFrame
proof
  fix x :: "FrameMetadata \<times> bytes" and rest :: bytes
  assume "wfFrame x"
  then obtain m d where [simp]: "x = (m, d)" and w: "okMeta m" "length d \<le> StreamChunkSize" "normMeta m d = m"
    by (cases x) (auto simp: wfFrame_def)
  from frame_read_back [OF w(1,2), of rest] w(3) show "ReadFrame (frameBytes x @ rest) = Inr (x, rest)"
    by (auto simp: frameBytes_def)
qed

section \<open>Payloads and streams\<close>

definition keepMeta :: "u16 \<Rightarrow> FrameMetadata" where
  "keepMeta i = \<lparr> fm_SessionID = i, fm_Status = StatusKeep, fm_Option = OptionData, fm_Network = 0, fm_Address = noAddr, fm_Port = 0 \<rparr>"

function chunks :: "bytes \<Rightarrow> bytes list" where
  "chunks data = (if data = [] then [] else take StreamChunkSize data # chunks (drop StreamChunkSize data))"
  by auto
termination by (relation "measure length") (auto simp: StreamChunkSize_def)

declare chunks.simps [simp del]

lemma chunks_props: "concat (chunks data) = data \<and> (\<forall>c \<in> set (chunks data). 0 < length c \<and> length c \<le> StreamChunkSize)"
proof (induction data rule: chunks.induct)
  case (1 data)
  show ?case
  proof (cases "data = []")
    case True
    then show ?thesis by (simp add: chunks.simps)
  next
    case False
    have "0 < StreamChunkSize" by (simp add: StreamChunkSize_def)
    with 1 [OF False] False show ?thesis by (subst (1 2) chunks.simps) auto
  qed
qed

lemma wf_keep: "0 < length c \<Longrightarrow> length c \<le> StreamChunkSize \<Longrightarrow> wfFrame (keepMeta i, c)"
  by (simp add: wfFrame_def keepMeta_def okMeta_def hasTarget_def normMeta_def)

lemma WriteFrame_bytes: "wfFrame (m, d) \<Longrightarrow> WriteFrame m d = Inr (frameBytes (m, d))"
  using frame_read_back [of m d "[]"] by (auto simp: wfFrame_def frameBytes_def)

lemma WriteData_frames: "WriteData i data = Inr (concat (map (\<lambda>c. frameBytes (keepMeta i, c)) (chunks data)))"
proof (induction data rule: chunks.induct)
  case (1 data)
  show ?case
  proof (cases "data = []")
    case True
    then show ?thesis by (simp add: WriteData.simps chunks.simps)
  next
    case False
    have s: "0 < StreamChunkSize" by (simp add: StreamChunkSize_def)
    have n: "take (if length data > StreamChunkSize then StreamChunkSize else length data) data = take StreamChunkSize data"
      "drop (if length data > StreamChunkSize then StreamChunkSize else length data) data = drop StreamChunkSize data" by auto
    have "wfFrame (keepMeta i, take StreamChunkSize data)" using False s by (intro wf_keep) auto
    then have "WriteFrame (keepMeta i) (take StreamChunkSize data) = Inr (frameBytes (keepMeta i, take StreamChunkSize data))"
      by (rule WriteFrame_bytes)
    then show ?thesis using 1 [OF False] False
      by (subst WriteData.simps, subst chunks.simps) (simp add: Let_def n keepMeta_def [symmetric])
  qed
qed

text \<open>The writes of all streams of a link, in the order in which they reach it.\<close>

fun WriteAll :: "(u16 \<times> bytes) list \<Rightarrow> (muxErr, bytes) result" where
  "WriteAll [] = Inr []"
| "WriteAll ((i, d) # ws) = res_bind (WriteData i d) (\<lambda>a. res_bind (WriteAll ws) (\<lambda>b. Inr (a @ b)))"

definition payload :: "u16 \<Rightarrow> (FrameMetadata \<times> bytes) list \<Rightarrow> bytes" where
  "payload i frs = concat (map snd (filter (\<lambda>(m, d). fm_SessionID m = i) frs))"

lemma payload_append: "payload i (xs @ ys) = payload i xs @ payload i ys"
  by (simp add: payload_def)

lemma payload_keep: "payload i (map (\<lambda>c. (keepMeta j, c)) cs) = (if i = j then concat cs else [])"
  by (induction cs) (auto simp: payload_def keepMeta_def)

lemma WriteAll_frames:
  "\<exists>frs. WriteAll ws = Inr (concat (map frameBytes frs)) \<and> list_all wfFrame frs
    \<and> (\<forall>(m, d) \<in> set frs. fm_Status m = StatusKeep \<and> 0 < length d \<and> length d \<le> StreamChunkSize)
    \<and> (\<forall>i. payload i frs = concat (map snd (filter (\<lambda>(j, d). j = i) ws)))"
proof (induction ws)
  case (Cons w ws)
  obtain j d where [simp]: "w = (j, d)" by (cases w)
  from Cons obtain frs where f: "WriteAll ws = Inr (concat (map frameBytes frs))" "list_all wfFrame frs"
    "\<forall>(m, d) \<in> set frs. fm_Status m = StatusKeep \<and> 0 < length d \<and> length d \<le> StreamChunkSize"
    "\<forall>i. payload i frs = concat (map snd (filter (\<lambda>(j, d). j = i) ws))" by blast
  let ?frs = "map (\<lambda>c. (keepMeta j, c)) (chunks d) @ frs"
  have "WriteAll (w # ws) = Inr (concat (map frameBytes ?frs))"
    by (simp add: WriteData_frames f(1) comp_def)
  moreover have "list_all wfFrame ?frs" using f(2) chunks_props [of d] wf_keep by (auto simp: list_all_iff)
  moreover have "\<forall>(m, d) \<in> set ?frs. fm_Status m = StatusKeep \<and> 0 < length d \<and> length d \<le> StreamChunkSize"
    using f(3) chunks_props [of d] by (auto simp: keepMeta_def)
  moreover have "\<forall>i. payload i ?frs = concat (map snd (filter (\<lambda>(j, d). j = i) (w # ws)))"
    using f(4) chunks_props [of d] by (simp add: payload_append payload_keep)
  ultimately show ?case by blast
qed (rule exI [of _ "[]"], simp add: payload_def)

text \<open>
  C12: multiplexing is transparent: whatever the streams of a link write, in whatever order, the link
  carries well-formed Keep frames of at most 8192 bytes that are all read back, and the payloads of
  the frames of a stream, put together, are exactly the bytes that stream wrote.
\<close>

theorem mux_transparent:
  "\<exists>out frs. WriteAll ws = Inr out \<and> frames.decN (length frs) (out @ rest) = Inr (frs, rest)
    \<and> (\<forall>(m, d) \<in> set frs. fm_Status m = StatusKeep \<and> 0 < length d \<and> length d \<le> StreamChunkSize)
    \<and> (\<forall>i. payload i frs = concat (map snd (filter (\<lambda>(j, d). j = i) ws)))"
  using WriteAll_frames [of ws] frames.decN_encs by blast

theorem frame_round_trip_witness:
  "\<exists>out. WriteFrame \<lparr> fm_SessionID = 7, fm_Status = 1, fm_Option = 0, fm_Network = 1,
       fm_Address = \<lparr> ma_IsDomain = True, ma_Domain = ''a.b'', ma_IP = [] \<rparr>, fm_Port = 443 \<rparr> [1, 2, 3] = Inr out
     \<and> ReadFrame (out @ [9]) = Inr ((\<lparr> fm_SessionID = 7, fm_Status = 1, fm_Option = 1, fm_Network = 1,
       fm_Address = \<lparr> ma_IsDomain = True, ma_Domain = ''a.b'', ma_IP = [] \<rparr>, fm_Port = 443 \<rparr>, [1, 2, 3]), [9])"
  using frame_round_trip [of "\<lparr> fm_SessionID = 7, fm_Status = 1, fm_Option = 0, fm_Network = 1,
       fm_Address = \<lparr> ma_IsDomain = True, ma_Domain = ''a.b'', ma_IP = [] \<rparr>, fm_Port = 443 \<rparr>" "[1, 2, 3]" "[9]"]
  by (simp add: okMeta_def okAddr_def hasTarget_def StreamChunkSize_def normMeta_def normAddr_def)

theorem mux_transparent_witness:
  "\<exists>out frs. WriteAll [(1, [10]), (2, [20]), (1, [11])] = Inr out \<and> frames.decN (length frs) out = Inr (frs, [])
    \<and> payload 1 frs = [10, 11] \<and> payload 2 frs = [20]"
proof -
  from mux_transparent [of "[(1, [10]), (2, [20]), (1, [11])]" "[]"] obtain out frs where
    "WriteAll [(1, [10]), (2, [20]), (1, [11])] = Inr out" "frames.decN (length frs) out = Inr (frs, [])"
    "\<forall>i. payload i frs = concat (map snd (filter (\<lambda>(j, d). j = i) [(1, [10]), (2, [20]), (1, [11])]))" by auto
  then show ?thesis by (intro exI [of _ out] exI [of _ frs]) simp
qed

end
