(* ===== verification/BufPipe.thy ===== *)
theory BufPipe
  imports Wire
begin

text \<open>
  The bounded pipe between the read loop of a multiplexer and a stream (\<open>muxcool/pipe.go\<close>).  An
  operation that would wait on the condition variable returns \<open>Blocked\<close> and leaves the pipe as it is;
  it is tried again when the pipe has changed.  The pipe is a bounded first-in first-out queue of bytes.
\<close>

record 'e bufPipe =
  bp_buf :: bytes
  bp_limit :: nat
  bp_closed :: bool
  bp_rerr :: "'e option"

definition sessionBufLimit :: nat where
  "sessionBufLimit = 64 * 1024"

definition newBufPipe :: "nat \<Rightarrow> 'e bufPipe" where
  "newBufPipe limit = \<lparr> bp_buf = [], bp_limit = limit, bp_closed = False, bp_rerr = None \<rparr>"

datatype pipeWrite = WriteDone | WriteClosed | WriteBlocked | WriteMore bytes

text \<open>One round of the loop of \<open>Write\<close>, with the bytes that remain to be written.\<close>

definition bp_Write :: "bytes \<Rightarrow> 'e bufPipe \<Rightarrow> pipeWrite \<times> 'e bufPipe" where
  "bp_Write b p =
    (if b = [] then (WriteDone, p)
     else if length (bp_buf p) \<ge> bp_limit p \<and> \<not> bp_closed p then (WriteBlocked, p)
     else if bp_closed p then (WriteClosed, p)
     else
       (let space = bp_limit p - length (bp_buf p); n = (if length b > space then space else length b) in
        (WriteMore (drop n b), p\<lparr>bp_buf := bp_buf p @ take n b\<rparr>)))"

datatype 'e pipeRead = ReadBlocked | ReadErr "'e option" | ReadGot bytes

text \<open>\<open>ReadErr None\<close> is the end of the stream.\<close>

definition bp_Read :: "nat \<Rightarrow> 'e bufPipe \<Rightarrow> 'e pipeRead \<times> 'e bufPipe" where
  "bp_Read n p =
    (if bp_buf p = [] \<and> \<not> bp_closed p then (ReadBlocked, p)
     else if bp_buf p = [] then (ReadErr (bp_rerr p), p)
     else (ReadGot (take n (bp_buf p)), p\<lparr>bp_buf := drop n (bp_buf p)\<rparr>))"

definition bp_CloseWithError :: "'e option \<Rightarrow> 'e bufPipe \<Rightarrow> 'e bufPipe" where
  "bp_CloseWithError e p = (if bp_closed p then p else p\<lparr>bp_closed := True, bp_rerr := e\<rparr>)"

definition bp_Close :: "'e bufPipe \<Rightarrow> 'e bufPipe" where
  "bp_Close p = bp_CloseWithError None p"

section \<open>The queue behind it\<close>

text \<open>
  The contract of a bounded queue of bytes: what it accepts comes out in order and unchanged, and it
  never holds more than its limit.
\<close>

locale byte_queue =
  fixes put :: "bytes \<Rightarrow> 'q \<Rightarrow> bytes \<times> 'q"
    and get :: "nat \<Rightarrow> 'q \<Rightarrow> bytes \<times> 'q"
    and content :: "'q \<Rightarrow> bytes"
    and capacity :: "'q \<Rightarrow> nat"
  assumes put: "put b q = (rest, q') \<Longrightarrow> \<exists>taken. b = taken @ rest \<and> content q' = content q @ taken \<and> capacity q' = capacity q
      \<and> (length (content q) \<le> capacity q \<longrightarrow> length (content q') \<le> capacity q')"
    and get: "get n q = (out, q') \<Longrightarrow> content q = out @ content q' \<and> capacity q' = capacity q"
begin

text \<open>A run of a writer with pending bytes and a reader: rounds of the writer and reads.\<close>

fun transfer :: "nat option list \<Rightarrow> bytes \<Rightarrow> bytes \<Rightarrow> 'q \<Rightarrow> bytes \<times> bytes \<times> 'q" where
  "transfer [] pend got q = (pend, got, q)"
| "transfer (None # ops) pend got q = (case put pend q of (pend', q') \<Rightarrow> transfer ops pend' got q')"
| "transfer (Some n # ops) pend got q = (case get n q of (out, q') \<Rightarrow> transfer ops pend (got @ out) q')"

lemma transfer_preserves:
  "transfer ops pend got q = (pend', got', q') \<Longrightarrow> length (content q) \<le> capacity q \<Longrightarrow>
    got' @ content q' @ pend' = got @ content q @ pend \<and> length (content q') \<le> capacity q' \<and> capacity q' = capacity q"
proof (induction ops pend got q rule: transfer.induct)
  case (2 ops pend got q)
  obtain rest q1 where p: "put pend q = (rest, q1)" by (cases "put pend q")
  from put [OF p] obtain tk where t: "pend = tk @ rest" "content q1 = content q @ tk" "length (content q1) \<le> capacity q1"
    "capacity q1 = capacity q" using 2(3) by blast
  have "transfer ops rest got q1 = (pend', got', q')" using 2(2) p by simp
  from 2(1) [OF p [symmetric] this t(3)] t show ?case by simp
next
  case (3 n ops pend got q)
  obtain out q1 where g: "get n q = (out, q1)" by (cases "get n q")
  note G = get [OF g]
  have l: "length (content q1) \<le> capacity q1" using G 3(3) by (metis le_add2 length_append order_trans)
  have "transfer ops pend (got @ out) q1 = (pend', got', q')" using 3(2) g by simp
  from 3(1) [OF g [symmetric] this l] G show ?case by simp
qed simp

end

definition putPipe :: "bytes \<Rightarrow> 'e bufPipe \<Rightarrow> bytes \<times> 'e bufPipe" where
  "putPipe b p = (case bp_Write b p of (WriteMore rest, p') \<Rightarrow> (rest, p') | (_, p') \<Rightarrow> (b, p'))"

definition getPipe :: "nat \<Rightarrow> 'e bufPipe \<Rightarrow> bytes \<times> 'e bufPipe" where
  "getPipe n p = (case bp_Read n p of (ReadGot out, p') \<Rightarrow> (out, p') | (_, p') \<Rightarrow> ([], p'))"

interpretation pipe: byte_queue putPipe getPipe bp_buf bp_limit
proof
  show "\<exists>taken. b = taken @ rest \<and> bp_buf q' = bp_buf q @ taken \<and> bp_limit q' = bp_limit q
      \<and> (length (bp_buf q) \<le> bp_limit q \<longrightarrow> length (bp_buf q') \<le> bp_limit q')"
    if "putPipe b q = (rest, q')" for b and q q' :: "'e bufPipe" and rest
  proof (cases "bp_Write b q")
    case (Pair x p)
    then show ?thesis using that
      by (cases x) (auto simp: putPipe_def bp_Write_def Let_def split: if_splits intro!: exI [of _ "take (bp_limit q - length (bp_buf q)) b"])
  qed
  show "bp_buf q = out @ bp_buf q' \<and> bp_limit q' = bp_limit q"
    if "getPipe n q = (out, q')" for n and q q' :: "'e bufPipe" and out
    using that by (auto simp: getPipe_def bp_Read_def split: if_splits)
qed

text \<open>One round of the writer followed by a read of up to the whole buffer.\<close>

lemma pipe_round:
  assumes "bp_buf p = []" "\<not> bp_closed p" "0 < bp_limit p"
  shows "pipe.transfer (None # Some (bp_limit p) # ops) b got p = pipe.transfer ops (drop (bp_limit p) b) (got @ take (bp_limit p) b) p"
proof (cases "b = []")
  case True
  then show ?thesis using assms by (simp add: putPipe_def bp_Write_def getPipe_def bp_Read_def)
next
  case False
  let ?n = "if length b > bp_limit p then bp_limit p else length b"
  have t: "take ?n b = take (bp_limit p) b" "drop ?n b = drop (bp_limit p) b" by auto
  have "putPipe b p = (drop (bp_limit p) b, p\<lparr>bp_buf := take (bp_limit p) b\<rparr>)"
    using False assms t by (simp add: putPipe_def bp_Write_def Let_def)
  moreover have "getPipe (bp_limit p) (p\<lparr>bp_buf := take (bp_limit p) b\<rparr>) = (take (bp_limit p) b, p)"
    using False assms by (simp add: getPipe_def bp_Read_def)
  ultimately show ?thesis by simp
qed

lemma pipe_rounds:
  "bp_buf p = [] \<Longrightarrow> \<not> bp_closed p \<Longrightarrow> 0 < bp_limit p \<Longrightarrow>
    pipe.transfer (concat (replicate n [None, Some (bp_limit p)])) b got p = (drop (n * bp_limit p) b, got @ take (n * bp_limit p) b, p)"
proof (induction n arbitrary: b got)
  case (Suc n)
  then show ?case using pipe_round [OF Suc.prems, of "concat (replicate n [None, Some (bp_limit p)])" b got]
    by (simp add: take_add add.commute)
qed simp

text \<open>
  C13: for every interleaving of the rounds of a writer and of reads, the bytes read, the bytes in the
  pipe and the bytes still to be written are, in this order, the bytes of the writer, and the pipe
  never holds more than its limit.
\<close>

theorem pipe_fifo:
  assumes "pipe.transfer ops data [] (newBufPipe limit) = (pend, got, p)"
  shows "got @ bp_buf p @ pend = data \<and> length (bp_buf p) \<le> limit"
  using pipe.transfer_preserves [OF assms] by (simp add: newBufPipe_def)

text \<open>
  a writer and a reader that alternate deliver everything: after as many rounds as there are bytes
  the writer is done, the reader has exactly the data, and the pipe is empty.
\<close>

theorem pipe_delivers:
  assumes "0 < limit"
  shows "pipe.transfer (concat (replicate (length data) [None, Some limit])) data [] (newBufPipe limit) = ([], data, newBufPipe limit)"
proof -
  have "length data \<le> length data * limit" using assms by simp
  then show ?thesis using pipe_rounds [of "newBufPipe limit" "length data" data "[]"] assms by (simp add: newBufPipe_def)
qed

text \<open>A closed pipe still hands out what it holds, then its error or the end of the stream.\<close>

lemma closed_pipe_reads:
  "bp_Read n (bp_CloseWithError e p) = (if bp_buf p \<noteq> [] then (ReadGot (take n (bp_buf p)), (bp_CloseWithError e p)\<lparr>bp_buf := drop n (bp_buf p)\<rparr>)
     else (ReadErr (if bp_closed p then bp_rerr p else e), bp_CloseWithError e p))"
  by (simp add: bp_Read_def bp_CloseWithError_def)


theorem pipe_fifo_witness:
  "\<exists>pend got p. pipe.transfer [None, Some 1, None] [1, 2, 3] [] (newBufPipe 2 :: unit bufPipe) = (pend, got, p)
    \<and> got @ bp_buf p @ pend = [1, 2, 3] \<and> got = [1] \<and> length (bp_buf p) \<le> 2"
proof -
  obtain pend got p where t: "pipe.transfer [None, Some 1, None] [1, 2, 3] [] (newBufPipe 2 :: unit bufPipe) = (pend, got, p)"
    by (cases "pipe.transfer [None, Some 1, None] [1, 2, 3] [] (newBufPipe 2 :: unit bufPipe)")
  have "got = [1]" using t by (simp add: putPipe_def getPipe_def bp_Write_def bp_Read_def newBufPipe_def Let_def)
  with t pipe_fifo [OF t] show ?thesis by blast
qed

theorem pipe_delivers_witness:
  "pipe.transfer (concat (replicate 3 [None, Some 2])) [1, 2, 3] [] (newBufPipe 2 :: unit bufPipe) = ([], [1, 2, 3], (newBufPipe 2 :: unit bufPipe))"
  using pipe_delivers [of 2 "[1, 2, 3]"] by (simp add: numeral_3_eq_3)

end
