(* ===== verification/MuxServer.thy ===== *)
theory MuxServer
  imports MuxFrame BufPipe Alists
begin

text \<open>
  The server side of the multiplexer (\<open>muxcool/server.go\<close>) as a state machine.  Sessions are objects
  in a store, since a table entry can be replaced while the goroutine of the old session still runs;
  the table maps stream identifiers to objects.  The machine moves by one atomic action at a time: a
  frame handled by the read loop, one round of the loop's write into a pipe, a dial that returns,
  bytes from a local target, a read error there, a pipe read by the copying goroutine, the flush of
  the datagrams kept during the dial, and the shutdown.
\<close>

definition InternalDomain :: string where "InternalDomain = ''reverse''"

definition maxServerSessions :: nat where "maxServerSessions = 512"

definition maxUDPPending :: nat where "maxUDPPending = 64"

text \<open>
  A session.  \<open>so_up\<close> and \<open>so_dgrams\<close> record what has been written to the local target, \<open>so_in\<close> the
  stream bytes the read loop took for it, \<open>so_ends\<close> the End frames sent for it.
\<close>

record serverSession =
  so_id :: u16
  so_control :: bool
  so_udp :: bool
  so_dialing :: bool
  so_running :: bool
  so_conn :: bool
  so_finished :: bool
  so_udpPending :: "bytes list"
  so_flush :: "bytes list"
  so_inW :: "unit bufPipe option"
  so_up :: bytes
  so_dgrams :: "bytes list"
  so_in :: bytes
  so_ends :: nat

definition newSession :: "u16 \<Rightarrow> serverSession" where
  "newSession i = \<lparr> so_id = i, so_control = False, so_udp = False, so_dialing = False, so_running = False, so_conn = False,
     so_finished = False, so_udpPending = [], so_flush = [], so_inW = None, so_up = [], so_dgrams = [], so_in = [], so_ends = 0 \<rparr>"

record ServerWorker =
  sw_sessions :: "(u16 \<times> nat) list"
  sw_objs :: "serverSession list"
  sw_out :: "(FrameMetadata \<times> bytes) list"
  sw_control :: "bytes list"
  sw_writing :: "(nat \<times> bytes) option"
  sw_closed :: bool

definition NewServerWorker :: ServerWorker where
  "NewServerWorker = \<lparr> sw_sessions = [], sw_objs = [], sw_out = [], sw_control = [], sw_writing = None, sw_closed = False \<rparr>"

definition endFrame :: "u16 \<Rightarrow> bool \<Rightarrow> FrameMetadata \<times> bytes" where
  "endFrame i hasErr = (\<lparr> fm_SessionID = i, fm_Status = StatusEnd, fm_Option = (if hasErr then OptionError else 0),
     fm_Network = 0, fm_Address = noAddr, fm_Port = 0 \<rparr>, [])"

definition sw_writeEnd :: "u16 \<Rightarrow> bool \<Rightarrow> ServerWorker \<Rightarrow> ServerWorker" where
  "sw_writeEnd i hasErr w = w\<lparr>sw_out := sw_out w @ [endFrame i hasErr]\<rparr>"

definition sw_writeData :: "u16 \<Rightarrow> bytes \<Rightarrow> ServerWorker \<Rightarrow> ServerWorker" where
  "sw_writeData i data w = w\<lparr>sw_out := sw_out w @ map (\<lambda>c. (keepMeta i, c)) (chunks data)\<rparr>"

definition sw_addSession :: "serverSession \<Rightarrow> ServerWorker \<Rightarrow> ServerWorker" where
  "sw_addSession s w = w\<lparr>sw_objs := sw_objs w @ [s], sw_sessions := AList.update (so_id s) (length (sw_objs w)) (sw_sessions w)\<rparr>"

definition sw_getSession :: "u16 \<Rightarrow> ServerWorker \<Rightarrow> nat option" where
  "sw_getSession i w = map_of (sw_sessions w) i"

definition sw_put :: "nat \<Rightarrow> serverSession \<Rightarrow> ServerWorker \<Rightarrow> ServerWorker" where
  "sw_put k s w = w\<lparr>sw_objs := (sw_objs w)[k := s]\<rparr>"

definition sw_finish :: "nat \<Rightarrow> bool \<Rightarrow> ServerWorker \<Rightarrow> ServerWorker" where
  "sw_finish k sendEnd w =
    (let s = sw_objs w ! k in
     if so_finished s then w
     else
       (let w = w\<lparr>sw_sessions := AList.delete (so_id s) (sw_sessions w)\<rparr>;
            w = (if sendEnd then sw_writeEnd (so_id s) False w else w)
        in sw_put k (s\<lparr>so_finished := True, so_conn := False, so_inW := map_option bp_Close (so_inW s),
             so_ends := so_ends s + (if sendEnd then 1 else 0)\<rparr>) w))"

definition sw_closeAll :: "ServerWorker \<Rightarrow> ServerWorker" where
  "sw_closeAll w = (fold (\<lambda>k w. sw_finish k False w) (map snd (sw_sessions w)) w)\<lparr>sw_closed := True\<rparr>"

section \<open>Frames\<close>

definition handleNew :: "FrameMetadata \<Rightarrow> bytes \<Rightarrow> ServerWorker \<Rightarrow> ServerWorker" where
  "handleNew m data w =
    (if ma_IsDomain (fm_Address m) \<and> ma_Domain (fm_Address m) = InternalDomain then
       (let w = sw_addSession ((newSession (fm_SessionID m))\<lparr>so_control := True\<rparr>) w in
        if length data > 0 then w\<lparr>sw_control := sw_control w @ [data]\<rparr> else w)
     else if sw_getSession (fm_SessionID m) w \<noteq> None then sw_writeEnd (fm_SessionID m) True w
     else if length (sw_sessions w) \<ge> maxServerSessions then sw_writeEnd (fm_SessionID m) True w
     else if fm_Network m = NetworkUDP then
       sw_addSession ((newSession (fm_SessionID m))\<lparr>so_udp := True, so_dialing := True,
          so_flush := (if length data > 0 then [data] else [])\<rparr>) w
     else
       (let p = newBufPipe sessionBufLimit; p = (if length data > 0 then snd (bp_Write data p) else p) in
        sw_addSession ((newSession (fm_SessionID m))\<lparr>so_dialing := True, so_inW := Some p, so_in := data\<rparr>) w))"

definition deliverUDP :: "bytes \<Rightarrow> serverSession \<Rightarrow> serverSession" where
  "deliverUDP data s =
    (if so_finished s then s
     else if so_conn s then s\<lparr>so_dgrams := so_dgrams s @ [data]\<rparr>
     else if length (so_udpPending s) < maxUDPPending then s\<lparr>so_udpPending := so_udpPending s @ [data]\<rparr>
     else s)"

definition handleKeep :: "FrameMetadata \<Rightarrow> bytes \<Rightarrow> ServerWorker \<Rightarrow> ServerWorker" where
  "handleKeep m data w =
    (case sw_getSession (fm_SessionID m) w of
       None \<Rightarrow> sw_writeEnd (fm_SessionID m) False w
     | Some k \<Rightarrow>
         (let s = sw_objs w ! k in
          if so_control s then (if length data > 0 then w\<lparr>sw_control := sw_control w @ [data]\<rparr> else w)
          else if so_udp s then (if length data > 0 then sw_put k (deliverUDP data s) w else w)
          else if length data > 0 \<and> so_inW s \<noteq> None
            then (sw_put k (s\<lparr>so_in := so_in s @ data\<rparr>) w)\<lparr>sw_writing := Some (k, data)\<rparr>
          else w))"

definition handleEnd :: "FrameMetadata \<Rightarrow> ServerWorker \<Rightarrow> ServerWorker" where
  "handleEnd m w = (case sw_getSession (fm_SessionID m) w of None \<Rightarrow> w | Some k \<Rightarrow> sw_finish k False w)"

definition handleFrame :: "FrameMetadata \<Rightarrow> bytes \<Rightarrow> ServerWorker \<Rightarrow> ServerWorker" where
  "handleFrame m data w =
    (if fm_Status m = StatusNew then handleNew m data w
     else if fm_Status m = StatusKeep then handleKeep m data w
     else if fm_Status m = StatusEnd then handleEnd m w
     else w)"

section \<open>The goroutines of a session\<close>

text \<open>The dial of \<open>landTCP\<close> or \<open>landUDP\<close> returns.\<close>

definition landDial :: "nat \<Rightarrow> bool \<Rightarrow> ServerWorker \<Rightarrow> ServerWorker" where
  "landDial k ok w =
    (let s = (sw_objs w ! k)\<lparr>so_dialing := False\<rparr>; w = sw_put k s w in
     if \<not> ok then sw_finish k True w
     else if so_finished s then w
     else if so_udp s then sw_put k (s\<lparr>so_conn := True, so_running := True, so_flush := so_flush s @ so_udpPending s, so_udpPending := []\<rparr>) w
     else sw_put k (s\<lparr>so_conn := True, so_running := True\<rparr>) w)"

text \<open>\<open>landUDP\<close> writes the first datagram and those kept during the dial.\<close>

definition landFlush :: "nat \<Rightarrow> ServerWorker \<Rightarrow> ServerWorker" where
  "landFlush k w = (let s = sw_objs w ! k in sw_put k (s\<lparr>so_dgrams := so_dgrams s @ so_flush s, so_flush := []\<rparr>) w)"

text \<open>The read loop of a session ends.\<close>

definition landEnd :: "nat \<Rightarrow> ServerWorker \<Rightarrow> ServerWorker" where
  "landEnd k w = sw_finish k True (sw_put k ((sw_objs w ! k)\<lparr>so_running := False\<rparr>) w)"

text \<open>The read of the local target returns bytes, and the read loop of the session writes them back.\<close>

definition landRead :: "nat \<Rightarrow> bytes \<Rightarrow> MuxAddress \<Rightarrow> u16 \<Rightarrow> ServerWorker \<Rightarrow> ServerWorker" where
  "landRead k data addr port w =
    (let s = sw_objs w ! k in
     if so_udp s then
       (let m = \<lparr> fm_SessionID = so_id s, fm_Status = StatusKeep, fm_Option = OptionData,
            fm_Network = NetworkUDP, fm_Address = addr, fm_Port = port \<rparr> in
        case WriteFrame m data of Inl _ \<Rightarrow> landEnd k w | Inr _ \<Rightarrow> w\<lparr>sw_out := sw_out w @ [(m, data)]\<rparr>)
     else sw_writeData (so_id s) data w)"

text \<open>The copying goroutine reads the pipe and writes to the target; a round of the read loop's own write into it.\<close>

definition copyUp :: "nat \<Rightarrow> nat \<Rightarrow> ServerWorker \<Rightarrow> ServerWorker" where
  "copyUp k n w =
    (let s = sw_objs w ! k in
     case so_inW s of
       None \<Rightarrow> w
     | Some p \<Rightarrow>
         (case bp_Read n p of
            (ReadGot d, p') \<Rightarrow> sw_put k (s\<lparr>so_inW := Some p', so_up := so_up s @ d\<rparr>) w
          | _ \<Rightarrow> w))"

definition writeRound :: "ServerWorker \<Rightarrow> ServerWorker" where
  "writeRound w =
    (case sw_writing w of
       None \<Rightarrow> w
     | Some (k, b) \<Rightarrow>
         (let s = sw_objs w ! k in
          case so_inW s of
            None \<Rightarrow> w\<lparr>sw_writing := None\<rparr>
          | Some p \<Rightarrow>
              (case bp_Write b p of
                 (WriteDone, _) \<Rightarrow> w\<lparr>sw_writing := None\<rparr>
               | (WriteClosed, _) \<Rightarrow> w\<lparr>sw_writing := None\<rparr>
               | (WriteBlocked, _) \<Rightarrow> w
               | (WriteMore rest, p') \<Rightarrow> (sw_put k (s\<lparr>so_inW := Some p'\<rparr>) w)\<lparr>sw_writing := Some (k, rest)\<rparr>)))"

section \<open>Steps\<close>

datatype srvEvent = EvFrame FrameMetadata bytes | EvWrite | EvDial nat bool | EvFlush nat | EvCopy nat nat
  | EvLocal nat bytes MuxAddress u16 | EvLocalEnd nat | EvClose

text \<open>The read loop handles a frame only when its last write is done and the link is open.\<close>

inductive srv_step :: "ServerWorker \<Rightarrow> srvEvent \<Rightarrow> ServerWorker \<Rightarrow> bool" where
  frame: "sw_writing w = None \<Longrightarrow> \<not> sw_closed w \<Longrightarrow> length data \<le> StreamChunkSize \<Longrightarrow>
    srv_step w (EvFrame m data) (handleFrame m data w)"
| round: "srv_step w EvWrite (writeRound w)"
| dial: "k < length (sw_objs w) \<Longrightarrow> so_dialing (sw_objs w ! k) \<Longrightarrow> srv_step w (EvDial k ok) (landDial k ok w)"
| flush: "k < length (sw_objs w) \<Longrightarrow> so_running (sw_objs w ! k) \<Longrightarrow> srv_step w (EvFlush k) (landFlush k w)"
| copy: "k < length (sw_objs w) \<Longrightarrow> so_running (sw_objs w ! k) \<Longrightarrow> srv_step w (EvCopy k n) (copyUp k n w)"
| local: "k < length (sw_objs w) \<Longrightarrow> so_running (sw_objs w ! k) \<Longrightarrow> data \<noteq> [] \<Longrightarrow>
    srv_step w (EvLocal k data a p) (landRead k data a p w)"
| localEnd: "k < length (sw_objs w) \<Longrightarrow> so_running (sw_objs w ! k) \<Longrightarrow> srv_step w (EvLocalEnd k) (landEnd k w)"
| shutdown: "srv_step w EvClose (sw_closeAll w)"

inductive srv_run :: "ServerWorker \<Rightarrow> srvEvent list \<Rightarrow> ServerWorker \<Rightarrow> bool" where
  none: "srv_run w [] w"
| more: "srv_run w es w' \<Longrightarrow> srv_step w' e w'' \<Longrightarrow> srv_run w (es @ [e]) w''"

inductive_cases srv_frameE: "srv_step w (EvFrame m data) w'"


section \<open>Invariant\<close>

definition pend :: "ServerWorker \<Rightarrow> nat \<Rightarrow> bytes" where
  "pend w k = (case sw_writing w of Some (j, b) \<Rightarrow> if j = k then b else [] | None \<Rightarrow> [])"

text \<open>
  What holds of a session: one End at most and only when finished; a pipe within its bound; and, for a
  stream, that the bytes taken from frames are those written to the target, those in the pipe and
  those the read loop is still writing, in this order.
\<close>

definition sessOK :: "bytes \<Rightarrow> serverSession \<Rightarrow> bool" where
  "sessOK b s =
    (so_ends s \<le> 1 \<and> (0 < so_ends s \<longrightarrow> so_finished s) \<and> (so_finished s \<longrightarrow> \<not> so_conn s)
     \<and> (case so_inW s of
          None \<Rightarrow> so_in s = [] \<and> so_up s = []
        | Some p \<Rightarrow> bp_limit p = sessionBufLimit \<and> length (bp_buf p) \<le> sessionBufLimit \<and> bp_closed p = so_finished s
            \<and> (if so_finished s then prefix (so_up s @ bp_buf p) (so_in s) else so_in s = so_up s @ bp_buf p @ b)))"

definition tableOK :: "ServerWorker \<Rightarrow> bool" where
  "tableOK w = (distinct (map fst (sw_sessions w)) \<and> (\<forall>i k. map_of (sw_sessions w) i = Some k \<longrightarrow>
     k < length (sw_objs w) \<and> so_id (sw_objs w ! k) = i \<and> \<not> so_finished (sw_objs w ! k)))"

definition landing :: "ServerWorker \<Rightarrow> u16 set" where
  "landing w = {i. \<exists>k. map_of (sw_sessions w) i = Some k \<and> \<not> so_control (sw_objs w ! k)}"

definition srvInv :: "ServerWorker \<Rightarrow> bool" where
  "srvInv w = (tableOK w \<and> (\<forall>k < length (sw_objs w). sessOK (pend w k) (sw_objs w ! k))
     \<and> (\<forall>k b. sw_writing w = Some (k, b) \<longrightarrow> k < length (sw_objs w) \<and> so_inW (sw_objs w ! k) \<noteq> None)
     \<and> card (landing w) \<le> maxServerSessions)"

lemma landing_keys: "landing w \<subseteq> keys (sw_sessions w)"
  by (auto simp: landing_def map_of_keysI)

lemma finite_landing: "finite (landing w)"
  using landing_keys [of w] by (rule finite_subset) (simp add: keys_def)

lemma pend_frame [simp]: "pend (sw_put k s w) = pend w" "pend (w\<lparr>sw_sessions := t\<rparr>) = pend w" "pend (w\<lparr>sw_out := x\<rparr>) = pend w"
  "pend (w\<lparr>sw_objs := y\<rparr>) = pend w" "pend (w\<lparr>sw_control := z\<rparr>) = pend w" "pend (w\<lparr>sw_closed := c\<rparr>) = pend w"
  by (simp_all add: pend_def fun_eq_iff sw_put_def split: option.split)

lemma sw_put_frame [simp]:
  "sw_sessions (sw_put k s w) = sw_sessions w" "sw_writing (sw_put k s w) = sw_writing w" "sw_out (sw_put k s w) = sw_out w"
  "sw_closed (sw_put k s w) = sw_closed w" "length (sw_objs (sw_put k s w)) = length (sw_objs w)"
  "k < length (sw_objs w) \<Longrightarrow> sw_objs (sw_put k s w) ! j = (if j = k then s else sw_objs w ! j)"
  by (auto simp: sw_put_def nth_list_update)

lemma srvInv_out: "srvInv (w\<lparr>sw_out := x\<rparr>) = srvInv w" "srvInv (w\<lparr>sw_control := y\<rparr>) = srvInv w" "srvInv (w\<lparr>sw_closed := c\<rparr>) = srvInv w"
  by (simp_all add: srvInv_def tableOK_def landing_def)

lemma srvInv_put:
  assumes "srvInv w" "k < length (sw_objs w)" "so_id s = so_id (sw_objs w ! k)" "so_control s = so_control (sw_objs w ! k)"
    and "so_finished s = so_finished (sw_objs w ! k)" "so_inW s = None \<longleftrightarrow> so_inW (sw_objs w ! k) = None" "sessOK (pend w k) s"
  shows "srvInv (sw_put k s w)"
proof -
  have "landing (sw_put k s w) = landing w" using assms(2,4) by (auto simp: landing_def)
  then show ?thesis using assms by (auto simp: srvInv_def tableOK_def)
qed

lemma prefix_closing: "x = a @ b @ c \<Longrightarrow> prefix (a @ b) x"
  by (simp add: prefix_def)

lemma sessOK_finish:
  "sessOK b s \<Longrightarrow> \<not> so_finished s \<Longrightarrow> n \<le> 1 \<Longrightarrow>
    sessOK b' (s\<lparr>so_finished := True, so_conn := False, so_inW := map_option bp_Close (so_inW s), so_ends := so_ends s + n\<rparr>)"
  by (auto simp: sessOK_def bp_Close_def bp_CloseWithError_def intro: prefix_closing split: option.splits)

lemma srvInv_finish:
  assumes "srvInv w" "k < length (sw_objs w)"
  shows "srvInv (sw_finish k sendEnd w)"
proof (cases "so_finished (sw_objs w ! k)")
  case True
  then show ?thesis using assms by (simp add: sw_finish_def)
next
  case False
  let ?s = "sw_objs w ! k"
  let ?s' = "?s\<lparr>so_finished := True, so_conn := False, so_inW := map_option bp_Close (so_inW ?s), so_ends := so_ends ?s + (if sendEnd then 1 else 0)\<rparr>"
  let ?w = "sw_put k ?s' (w\<lparr>sw_sessions := AList.delete (so_id ?s) (sw_sessions w)\<rparr>)"
  have T: "tableOK w" and S: "\<And>j. j < length (sw_objs w) \<Longrightarrow> sessOK (pend w j) (sw_objs w ! j)"
    and W: "\<And>j b. sw_writing w = Some (j, b) \<Longrightarrow> j < length (sw_objs w) \<and> so_inW (sw_objs w ! j) \<noteq> None"
    and L: "card (landing w) \<le> maxServerSessions"
    using assms(1) by (auto simp: srvInv_def)
  have out: "j \<noteq> k" if "map_of (sw_sessions w) i = Some j" "i \<noteq> so_id ?s" for i j
    using T that by (auto simp: tableOK_def)
  have o: "sw_objs ?w ! j = (if j = k then ?s' else sw_objs w ! j)" for j using assms(2) by simp
  have "tableOK ?w" using T out by (auto simp: tableOK_def o split: if_splits)
  moreover have "sessOK (pend ?w j) (sw_objs ?w ! j)" if "j < length (sw_objs ?w)" for j
    unfolding o using that S [of j] sessOK_finish [OF S [OF assms(2)] False, of "if sendEnd then 1 else 0"] by (cases "j = k") auto
  moreover have "j < length (sw_objs ?w) \<and> so_inW (sw_objs ?w ! j) \<noteq> None" if "sw_writing ?w = Some (j, b)" for j b
    unfolding o using W [of j b] that by (auto split: if_splits)
  moreover have "landing ?w \<subseteq> landing w" using out by (auto simp: landing_def o split: if_splits)
  then have "card (landing ?w) \<le> maxServerSessions" using L card_mono [OF finite_landing] order_trans by blast
  ultimately have "srvInv ?w" by (simp add: srvInv_def)
  moreover have "sw_finish k sendEnd w = (if sendEnd then ?w\<lparr>sw_out := sw_out w @ [endFrame (so_id ?s) False]\<rparr> else ?w)"
    using False by (simp add: sw_finish_def Let_def sw_writeEnd_def sw_put_def)
  ultimately show ?thesis by (cases sendEnd) (simp_all add: srvInv_out)
qed

lemma finish_frame [simp]:
  "length (sw_objs (sw_finish k b w)) = length (sw_objs w)" "sw_writing (sw_finish k b w) = sw_writing w"
  by (simp_all add: sw_finish_def Let_def sw_writeEnd_def)

lemma srvInv_closeAll:
  assumes "srvInv w"
  shows "srvInv (sw_closeAll w)"
proof -
  have "srvInv (fold (\<lambda>k w. sw_finish k False w) ks w)" if "srvInv w" "\<forall>k \<in> set ks. k < length (sw_objs w)" for ks w
    using that by (induction ks arbitrary: w) (simp_all add: srvInv_finish)
  moreover have "\<forall>k \<in> set (map snd (sw_sessions w)). k < length (sw_objs w)"
  proof
    fix k assume "k \<in> set (map snd (sw_sessions w))"
    then obtain i where "(i, k) \<in> set (sw_sessions w)" by auto
    moreover have T: "tableOK w" using assms by (simp add: srvInv_def)
    ultimately show "k < length (sw_objs w)" using map_of_distinct_iff [of "sw_sessions w" i k] unfolding tableOK_def by blast
  qed
  ultimately show ?thesis using assms by (simp add: sw_closeAll_def srvInv_out)
qed

lemma srvInv_addSession:
  assumes inv: "srvInv w" and s: "\<not> so_finished s" "sessOK [] s" and wr: "sw_writing w = None"
    and room: "so_control s \<or> length (sw_sessions w) < maxServerSessions"
  shows "srvInv (sw_addSession s w)"
proof -
  let ?w = "sw_addSession s w" and ?n = "length (sw_objs w)"
  have T: "tableOK w" and L: "card (landing w) \<le> maxServerSessions" using inv by (auto simp: srvInv_def)
  have m: "map_of (sw_sessions ?w) = (map_of (sw_sessions w))(so_id s \<mapsto> ?n)" by (simp add: sw_addSession_def)
  have o: "k < ?n \<Longrightarrow> sw_objs ?w ! k = sw_objs w ! k" "sw_objs ?w ! ?n = s" "length (sw_objs ?w) = Suc ?n" for k
    by (simp_all add: sw_addSession_def nth_append)
  have lt: "k < ?n" if "map_of (sw_sessions w) i = Some k" for i k using T that by (simp add: tableOK_def)
  have "distinct (map fst (sw_sessions ?w))" using T by (simp add: sw_addSession_def tableOK_def)
  then have "tableOK ?w" using T lt s(1) unfolding tableOK_def m by (auto simp: o less_Suc_eq split: if_splits)
  moreover have "sessOK (pend ?w k) (sw_objs ?w ! k)" if "k < length (sw_objs ?w)" for k
  proof -
    have "sw_writing ?w = None" by (simp add: sw_addSession_def wr)
    then show ?thesis using that inv s(2) wr by (cases "k = ?n") (auto simp: o srvInv_def pend_def)
  qed
  moreover have "card (landing ?w) \<le> maxServerSessions"
  proof (cases "so_control s")
    case True
    then have "landing ?w \<subseteq> landing w" unfolding landing_def m using lt by (auto simp: o split: if_splits)
    then show ?thesis using L card_mono [OF finite_landing] order_trans by blast
  next
    case False
    have "landing ?w \<subseteq> insert (so_id s) (keys (sw_sessions w))"
      unfolding landing_def m by (auto simp: map_of_keysI split: if_splits)
    then have "card (landing ?w) \<le> card (insert (so_id s) (keys (sw_sessions w)))" by (rule card_mono [rotated]) (simp add: keys_def)
    also have "\<dots> \<le> Suc (card (keys (sw_sessions w)))" by (rule card_insert_le_m1) (simp_all add: keys_def)
    also have "card (keys (sw_sessions w)) \<le> length (sw_sessions w)" unfolding keys_def by (metis card_length length_map set_map)
    finally show ?thesis using room False by simp
  qed
  ultimately show ?thesis using wr by (simp add: srvInv_def) (simp add: sw_addSession_def)
qed

lemma srvInv_handleNew:
  assumes "srvInv w" "sw_writing w = None" "length data \<le> StreamChunkSize"
  shows "srvInv (handleNew m data w)"
proof -
  have c: "sessOK [] ((newSession i)\<lparr>so_control := True\<rparr>)" for i by (simp add: sessOK_def newSession_def)
  have u: "sessOK [] ((newSession i)\<lparr>so_udp := True, so_dialing := True, so_flush := f\<rparr>)" for i f by (simp add: sessOK_def newSession_def)
  have t: "sessOK [] ((newSession i)\<lparr>so_dialing := True,
      so_inW := Some (if length data > 0 then snd (bp_Write data (newBufPipe sessionBufLimit)) else newBufPipe sessionBufLimit), so_in := data\<rparr>)" for i
    using assms(3) by (auto simp: sessOK_def newSession_def bp_Write_def newBufPipe_def sessionBufLimit_def StreamChunkSize_def Let_def)
  show ?thesis unfolding handleNew_def
    using srvInv_addSession [OF assms(1) _ c assms(2)] srvInv_addSession [OF assms(1) _ u assms(2)] srvInv_addSession [OF assms(1) _ t assms(2)] assms(1)
    by (cases "data = []") (simp_all add: Let_def sw_writeEnd_def srvInv_out newSession_def)
qed

lemma sessOK_cong:
  "so_ends s' = so_ends s \<Longrightarrow> so_finished s' = so_finished s \<Longrightarrow> so_conn s' = so_conn s \<Longrightarrow> so_inW s' = so_inW s \<Longrightarrow>
    so_in s' = so_in s \<Longrightarrow> so_up s' = so_up s \<Longrightarrow> sessOK b s' = sessOK b s"
  unfolding sessOK_def by (simp only:)

lemma sessOK_deliverUDP: "sessOK b s \<Longrightarrow> sessOK b (deliverUDP data s)"
  by (rule sessOK_cong [THEN iffD2]) (simp_all add: deliverUDP_def)

lemma deliverUDP_frame [simp]:
  "so_id (deliverUDP d s) = so_id s" "so_control (deliverUDP d s) = so_control s" "so_finished (deliverUDP d s) = so_finished s"
  "so_inW (deliverUDP d s) = so_inW s"
  by (simp_all add: deliverUDP_def)

lemma srvInv_handleKeep:
  assumes inv: "srvInv w" and wr: "sw_writing w = None"
  shows "srvInv (handleKeep m data w)"
proof (cases "sw_getSession (fm_SessionID m) w")
  case None
  then show ?thesis using inv by (simp add: handleKeep_def sw_writeEnd_def srvInv_out)
next
  case (Some k)
  let ?s = "sw_objs w ! k"
  have T: "k < length (sw_objs w)" "\<not> so_finished ?s" using inv Some by (auto simp: srvInv_def tableOK_def sw_getSession_def)
  have ok: "sessOK [] ?s" using inv T(1) wr by (auto simp: srvInv_def pend_def)
  have udp: "srvInv (sw_put k (deliverUDP data ?s) w)"
    using inv T by (intro srvInv_put) (auto simp: sessOK_deliverUDP srvInv_def)
  have tcp: "srvInv ((sw_put k (?s\<lparr>so_in := so_in ?s @ data\<rparr>) w)\<lparr>sw_writing := Some (k, data)\<rparr>)" if "so_inW ?s \<noteq> None"
  proof -
    let ?w = "(sw_put k (?s\<lparr>so_in := so_in ?s @ data\<rparr>) w)\<lparr>sw_writing := Some (k, data)\<rparr>"
    have o: "sw_objs ?w ! j = (if j = k then ?s\<lparr>so_in := so_in ?s @ data\<rparr> else sw_objs w ! j)" for j using T(1) by simp
    have "sessOK (pend ?w j) (sw_objs ?w ! j)" if "j < length (sw_objs w)" for j
      using that inv wr ok T(2) \<open>so_inW ?s \<noteq> None\<close> unfolding o
      by (cases "j = k") (auto simp: srvInv_def pend_def sessOK_def split: option.splits)
    moreover have "tableOK ?w" "landing ?w = landing w" using inv T(1) by (auto simp: srvInv_def tableOK_def landing_def split: if_splits)
    ultimately show ?thesis using inv that T(1) by (simp add: srvInv_def o)
  qed
  show ?thesis using inv udp tcp by (auto simp: handleKeep_def Some Let_def srvInv_out)
qed


lemma srvInv_putSame:
  assumes "srvInv w" "k < length (sw_objs w)" "so_id s = so_id (sw_objs w ! k)" "so_control s = so_control (sw_objs w ! k)"
    and "so_finished s = so_finished (sw_objs w ! k)" "so_inW s = so_inW (sw_objs w ! k)" "so_ends s = so_ends (sw_objs w ! k)"
    and "so_in s = so_in (sw_objs w ! k)" "so_up s = so_up (sw_objs w ! k)" "so_conn s \<longrightarrow> so_conn (sw_objs w ! k) \<or> \<not> so_finished s"
  shows "srvInv (sw_put k s w)"
proof (rule srvInv_put [OF assms(1-5)])
  have "sessOK (pend w k) (sw_objs w ! k)" using assms(1,2) by (simp add: srvInv_def)
  then show "sessOK (pend w k) s" using assms(10) unfolding sessOK_def assms(5-9) by blast
qed (simp add: assms(6))

lemma srvInv_handleFrame:
  assumes "srvInv w" "sw_writing w = None" "length data \<le> StreamChunkSize"
  shows "srvInv (handleFrame m data w)"
proof -
  have "srvInv (handleEnd m w)"
  proof (cases "sw_getSession (fm_SessionID m) w")
    case (Some k)
    then have "k < length (sw_objs w)" using assms(1) by (auto simp: srvInv_def tableOK_def sw_getSession_def)
    then show ?thesis by (simp add: handleEnd_def Some srvInv_finish [OF assms(1)])
  qed (simp add: handleEnd_def assms(1))
  then show ?thesis using srvInv_handleNew [OF assms] srvInv_handleKeep [OF assms(1,2)] assms(1) by (simp add: handleFrame_def)
qed

lemma srvInv_landDial:
  assumes "srvInv w" "k < length (sw_objs w)"
  shows "srvInv (landDial k ok w)"
proof -
  let ?s = "(sw_objs w ! k)\<lparr>so_dialing := False\<rparr>"
  let ?w = "sw_put k ?s w"
  have i: "srvInv ?w" by (rule srvInv_putSame [OF assms]) simp_all
  have l: "k < length (sw_objs ?w)" "sw_objs ?w ! k = ?s" using assms(2) by simp_all
  have "srvInv (sw_put k (?s\<lparr>so_conn := True, so_running := True, so_flush := so_flush ?s @ so_udpPending ?s, so_udpPending := []\<rparr>) ?w)"
    "srvInv (sw_put k (?s\<lparr>so_conn := True, so_running := True\<rparr>) ?w)" if "\<not> so_finished ?s"
    by (rule srvInv_putSame [OF i l(1)]; use l(2) that in simp)+
  then show ?thesis using i srvInv_finish [OF i l(1)] by (simp add: landDial_def Let_def)
qed

lemma srvInv_landEnd: "srvInv w \<Longrightarrow> k < length (sw_objs w) \<Longrightarrow> srvInv (landEnd k w)"
  unfolding landEnd_def by (rule srvInv_finish) (auto intro: srvInv_putSame)

lemma srvInv_landRead: "srvInv w \<Longrightarrow> k < length (sw_objs w) \<Longrightarrow> srvInv (landRead k data a p w)"
  by (simp add: landRead_def Let_def sw_writeData_def srvInv_out srvInv_landEnd split: sum.split)

lemma srvInv_copyUp:
  assumes "srvInv w" "k < length (sw_objs w)"
  shows "srvInv (copyUp k n w)"
proof (cases "so_inW (sw_objs w ! k)")
  case (Some p)
  let ?s = "sw_objs w ! k"
  have ok: "sessOK (pend w k) ?s" using assms by (simp add: srvInv_def)
  show ?thesis
  proof (cases "fst (bp_Read n p)")
    case (ReadGot d)
    then have r: "bp_Read n p = (ReadGot d, p\<lparr>bp_buf := drop n (bp_buf p)\<rparr>)" "d = take n (bp_buf p)"
      by (auto simp: bp_Read_def split: if_splits)
    have "srvInv (sw_put k (?s\<lparr>so_inW := Some (p\<lparr>bp_buf := drop n (bp_buf p)\<rparr>), so_up := so_up ?s @ d\<rparr>) w)"
    proof (rule srvInv_put [OF assms])
      show "sessOK (pend w k) (?s\<lparr>so_inW := Some (p\<lparr>bp_buf := drop n (bp_buf p)\<rparr>), so_up := so_up ?s @ d\<rparr>)"
        using ok Some r(2) by (auto simp: sessOK_def)
    qed (simp_all add: Some)
    then show ?thesis by (simp add: copyUp_def Some Let_def r(1))
  qed (use assms(1) in \<open>auto simp: copyUp_def Some Let_def split: prod.split\<close>)
qed (simp add: copyUp_def assms(1))

lemma srvInv_writing_None:
  assumes "srvInv w" "\<And>k b. sw_writing w = Some (k, b) \<Longrightarrow> b = [] \<or> so_finished (sw_objs w ! k)"
  shows "srvInv (w\<lparr>sw_writing := None\<rparr>)"
proof -
  have "sessOK (pend (w\<lparr>sw_writing := None\<rparr>) k) (sw_objs w ! k)" if "k < length (sw_objs w)" for k
  proof -
    have "sessOK (pend w k) (sw_objs w ! k)" using assms(1) that by (simp add: srvInv_def)
    moreover have "pend w k = [] \<or> so_finished (sw_objs w ! k)" using assms(2) by (auto simp: pend_def split: option.splits)
    ultimately show ?thesis by (auto simp: pend_def sessOK_def split: option.splits)
  qed
  moreover have "tableOK (w\<lparr>sw_writing := None\<rparr>) = tableOK w" "landing (w\<lparr>sw_writing := None\<rparr>) = landing w"
    by (simp_all add: tableOK_def landing_def)
  ultimately show ?thesis using assms(1) by (simp add: srvInv_def)
qed

lemma srvInv_writeRound:
  assumes inv: "srvInv w"
  shows "srvInv (writeRound w)"
proof (cases "sw_writing w")
  case (Some kb)
  obtain k b where kb: "kb = (k, b)" by (cases kb)
  note wr = Some [unfolded kb]
  let ?s = "sw_objs w ! k"
  have k: "k < length (sw_objs w)" and p0: "so_inW ?s \<noteq> None" using inv wr by (auto simp: srvInv_def)
  then obtain p where p: "so_inW ?s = Some p" by auto
  have ok: "sessOK b ?s" using inv k wr by (auto simp: srvInv_def pend_def)
  have cl: "bp_closed p = so_finished ?s" using ok p by (simp add: sessOK_def)
  obtain x p' where bw: "bp_Write b p = (x, p')" by (cases "bp_Write b p")
  show ?thesis
  proof (cases x)
    case (WriteMore rest)
    have nf: "\<not> so_finished ?s" "p' = p\<lparr>bp_buf := bp_buf p'\<rparr>" "bp_buf p' @ rest = bp_buf p @ b" "length (bp_buf p') \<le> bp_limit p \<or> length (bp_buf p) > bp_limit p"
      using bw WriteMore cl by (auto simp: bp_Write_def Let_def split: if_splits)
    let ?w = "(sw_put k (?s\<lparr>so_inW := Some p'\<rparr>) w)\<lparr>sw_writing := Some (k, rest)\<rparr>"
    have o: "sw_objs ?w ! j = (if j = k then ?s\<lparr>so_inW := Some p'\<rparr> else sw_objs w ! j)" for j using k by simp
    have f: "bp_closed p' = bp_closed p" "bp_limit p' = bp_limit p" using nf(2) by (metis bufPipe.select_convs(2,3) bufPipe.surjective bufPipe.update_convs(1))+
    have "sessOK rest (?s\<lparr>so_inW := Some p'\<rparr>)" using ok p nf(1,3,4) f cl by (auto simp: sessOK_def)
    then have "sessOK (pend ?w j) (sw_objs ?w ! j)" if "j < length (sw_objs w)" for j
      unfolding o using that inv wr by (cases "j = k") (auto simp: srvInv_def pend_def)
    moreover have "tableOK ?w" "landing ?w = landing w" using inv k by (auto simp: srvInv_def tableOK_def landing_def split: if_splits)
    ultimately have "srvInv ?w" using inv k by (simp add: srvInv_def o)
    then show ?thesis by (simp add: writeRound_def wr p Let_def bw WriteMore)
  next
    case WriteDone
    then have "b = []" using bw by (auto simp: bp_Write_def Let_def split: if_splits)
    then have "srvInv (w\<lparr>sw_writing := None\<rparr>)" using wr by (intro srvInv_writing_None [OF inv]) auto
    then show ?thesis by (simp add: writeRound_def wr p Let_def bw WriteDone)
  next
    case WriteClosed
    then have "so_finished ?s" using bw cl by (auto simp: bp_Write_def Let_def split: if_splits)
    then have "srvInv (w\<lparr>sw_writing := None\<rparr>)" using wr by (intro srvInv_writing_None [OF inv]) auto
    then show ?thesis by (simp add: writeRound_def wr p Let_def bw WriteClosed)
  next
    case WriteBlocked
    then show ?thesis using inv by (simp add: writeRound_def wr p Let_def bw)
  qed
qed (simp add: writeRound_def inv)

lemma srvInv_step: "srv_step w e w' \<Longrightarrow> srvInv w \<Longrightarrow> srvInv w'"
proof (induction rule: srv_step.induct)
  case (flush k w)
  show ?case unfolding landFlush_def Let_def by (rule srvInv_putSame [OF flush(3,1)]) simp_all
qed (simp_all add: srvInv_handleFrame srvInv_writeRound srvInv_landDial srvInv_copyUp srvInv_landRead srvInv_landEnd srvInv_closeAll)

lemma srvInv_run: "srv_run w es w' \<Longrightarrow> srvInv w \<Longrightarrow> srvInv w'"
  by (induction rule: srv_run.induct) (auto intro: srvInv_step)

lemma srvInv_New: "srvInv NewServerWorker"
  by (simp add: srvInv_def NewServerWorker_def tableOK_def landing_def)




section \<open>Control frames and the limit on sessions\<close>

abbreviation "exNew \<equiv> \<lparr> fm_SessionID = 1, fm_Status = 1, fm_Option = 0, fm_Network = 1,
    fm_Address = \<lparr> ma_IsDomain = False, ma_Domain = [], ma_IP = [10, 0, 0, 1] \<rparr>, fm_Port = 80 \<rparr>"
abbreviation "exControl \<equiv> \<lparr> fm_SessionID = 1, fm_Status = 1, fm_Option = 0, fm_Network = 2,
    fm_Address = \<lparr> ma_IsDomain = True, ma_Domain = ''reverse'', ma_IP = [] \<rparr>, fm_Port = 0 \<rparr>"
abbreviation "exEnd \<equiv> \<lparr> fm_SessionID = 1, fm_Status = 3, fm_Option = 0, fm_Network = 0, fm_Address = noAddr, fm_Port = 0 \<rparr>"

definition running :: "ServerWorker \<Rightarrow> nat" where
  "running w = length (filter (\<lambda>s. so_running s \<and> \<not> so_finished s) (sw_objs w))"

lemma srv_run_step: "srv_run w es w' \<Longrightarrow> srv_step w' e w'' \<Longrightarrow> \<exists>es'. srv_run w es' w''"
  by (blast intro: srv_run.more)

text \<open>A stream is opened and lands; a control frame takes its identifier; an End frame frees it.\<close>

lemma orphan_round:
  assumes "srv_run w0 es w" "sw_sessions w = []" "sw_writing w = None" "\<not> sw_closed w"
  shows "\<exists>es' w'. srv_run w0 es' w' \<and> sw_sessions w' = [] \<and> sw_writing w' = None \<and> \<not> sw_closed w' \<and> running w' = Suc (running w)"
proof -
  let ?n = "length (sw_objs w)"
  let ?w1 = "handleFrame exNew [] w"
  let ?w2 = "landDial ?n True ?w1"
  let ?w3 = "handleFrame exControl [] ?w2"
  let ?w4 = "handleFrame exEnd [] ?w3"
  let ?s = "(newSession 1)\<lparr>so_dialing := True, so_inW := Some (newBufPipe sessionBufLimit)\<rparr>"
  have w1: "?w1 = w\<lparr>sw_objs := sw_objs w @ [?s], sw_sessions := [(1, ?n)]\<rparr>"
    using assms(2) by (simp add: handleFrame_def handleNew_def sw_getSession_def sw_addSession_def newSession_def maxServerSessions_def Let_def)
  have w2: "?w2 = w\<lparr>sw_objs := sw_objs w @ [?s\<lparr>so_dialing := False, so_conn := True, so_running := True\<rparr>], sw_sessions := [(1, ?n)]\<rparr>"
    unfolding w1 by (simp add: landDial_def sw_put_def Let_def newSession_def)
  have w3: "?w3 = w\<lparr>sw_objs := sw_objs w @ [?s\<lparr>so_dialing := False, so_conn := True, so_running := True\<rparr>, (newSession 1)\<lparr>so_control := True\<rparr>],
      sw_sessions := [(1, Suc ?n)]\<rparr>"
    unfolding w2 by (simp add: handleFrame_def handleNew_def InternalDomain_def sw_addSession_def newSession_def Let_def)
  have w4: "sw_sessions ?w4 = []" "sw_writing ?w4 = None" "\<not> sw_closed ?w4" "running ?w4 = Suc (running w)"
    unfolding w3 using assms(3,4) by (simp_all add: handleFrame_def handleEnd_def sw_getSession_def sw_finish_def sw_put_def
      newSession_def Let_def running_def nth_append list_update_append)
  have "srv_step w (EvFrame exNew []) ?w1" using assms(3,4) by (intro srv_step.frame) auto
  moreover have "srv_step ?w1 (EvDial ?n True) ?w2" unfolding w1 by (rule srv_step.dial) (simp_all add: newSession_def)
  moreover have "srv_step ?w2 (EvFrame exControl []) ?w3" using assms(3,4) unfolding w2 by (intro srv_step.frame) auto
  moreover have "srv_step ?w3 (EvFrame exEnd []) ?w4" using assms(3,4) unfolding w3 by (intro srv_step.frame) auto
  ultimately have "\<exists>es'. srv_run w0 es' ?w4" using assms(1) by (meson srv_run.more)
  with w4 show ?thesis by blast
qed

text \<open>
  C16: control frames defeat the limit on streams: a peer that reuses the identifier of an open stream
  for a control stream and ends that one leaves the table empty with the landing of the stream still
  running; it can do so any number of times.
\<close>

theorem control_frames_defeat_limit:
  "\<exists>es w. srv_run NewServerWorker es w \<and> sw_sessions w = [] \<and> running w = n"
proof -
  have "\<exists>es w. srv_run NewServerWorker es w \<and> sw_sessions w = [] \<and> sw_writing w = None \<and> \<not> sw_closed w \<and> running w = n"
  proof (induction n)
    case 0
    show ?case by (intro exI [of _ "[]"] exI [of _ NewServerWorker]) (simp add: srv_run.none NewServerWorker_def running_def)
  next
    case (Suc n)
    then show ?case using orphan_round by metis
  qed
  then show ?thesis by blast
qed

section \<open>Examples\<close>

lemma ex_run:
  "\<exists>w. srv_run NewServerWorker [EvFrame exNew [1, 2], EvDial 0 True, EvCopy 0 1] w \<and> length (sw_objs w) = 1
    \<and> (\<exists>p. so_inW (sw_objs w ! 0) = Some p \<and> bp_buf p = [2] \<and> so_up (sw_objs w ! 0) = [1] \<and> so_in (sw_objs w ! 0) = [1, 2])"
proof -
  let ?w1 = "handleFrame exNew [1, 2] NewServerWorker"
  let ?w2 = "landDial 0 True ?w1"
  let ?w3 = "copyUp 0 1 ?w2"
  note ev = handleFrame_def handleNew_def NewServerWorker_def sw_getSession_def sw_addSession_def newSession_def maxServerSessions_def Let_def
    landDial_def sw_put_def copyUp_def bp_Read_def bp_Write_def newBufPipe_def sessionBufLimit_def
  have "srv_run NewServerWorker ([] @ [EvFrame exNew [1, 2]]) ?w1"
    by (rule srv_run.more [OF srv_run.none]) (rule srv_step.frame, simp_all add: NewServerWorker_def StreamChunkSize_def)
  moreover have "srv_step ?w1 (EvDial 0 True) ?w2" by (rule srv_step.dial) (simp_all add: ev)
  moreover have "srv_step ?w2 (EvCopy 0 1) ?w3" by (rule srv_step.copy) (simp_all add: ev)
  ultimately have "srv_run NewServerWorker ((([] @ [EvFrame exNew [1, 2]]) @ [EvDial 0 True]) @ [EvCopy 0 1]) ?w3"
    by (meson srv_run.more)
  moreover have "length (sw_objs ?w3) = 1 \<and> (\<exists>p. so_inW (sw_objs ?w3 ! 0) = Some p \<and> bp_buf p = [2] \<and> so_up (sw_objs ?w3 ! 0) = [1]
      \<and> so_in (sw_objs ?w3 ! 0) = [1, 2])"
    by (simp add: ev)
  ultimately show ?thesis by auto
qed



end
