(* ===== verification/MuxClient.thy ===== *)
theory MuxClient
  imports MuxFrame BufPipe Alists
begin

text \<open>
  The client side of the multiplexer (\<open>muxcool/client.go\<close>, \<open>muxcool/udp.go\<close>): stream identifiers,
  streams and packet connections, the demultiplexing of frames that come back, the control stream.
  The search for a free identifier is a loop that may run forever; it is a partial function, and the
  exact condition under which it returns is proved.
\<close>

text \<open>Sessions are objects in a store; the table maps identifiers to them.\<close>

record clientSession =
  cl_id :: u16
  cl_finished :: bool
  cl_connClosed :: bool
  cl_udp :: bool
  cl_inW :: "unit bufPipe option"
  cl_sink :: "nat option"
  cl_target :: string

text \<open>
  A packet connection: its queue of datagrams with their sources, and its streams by target.
\<close>

record muxPacketConn =
  pk_recv :: "(string \<times> bytes) list"
  pk_sessions :: "(string \<times> nat) list"
  pk_closed :: bool

record ClientWorker =
  cw_nextID :: u16
  cw_total :: nat
  cw_draining :: bool
  cw_sessions :: "(u16 \<times> nat) list"
  cw_objs :: "clientSession list"
  cw_packetConns :: "muxPacketConn list"
  cw_out :: "(FrameMetadata \<times> bytes) list"
  cw_writing :: "(nat \<times> bytes) option"
  cw_done :: bool

definition NewClientWorker :: ClientWorker where
  "NewClientWorker = \<lparr> cw_nextID = 0, cw_total = 0, cw_draining = False, cw_sessions = [], cw_objs = [], cw_packetConns = [],
     cw_out = [], cw_writing = None, cw_done = False \<rparr>"

definition IsActive :: "ClientWorker \<Rightarrow> bool" where
  "IsActive w = (\<not> cw_done w \<and> \<not> cw_draining w)"

section \<open>Identifiers\<close>

partial_function (option) allocLoop :: "(u16 \<times> 'a) list \<Rightarrow> u16 \<Rightarrow> u16 option" where
  "allocLoop ss n =
    (if n + 1 = 0 then allocLoop ss (n + 1)
     else if map_of ss (n + 1) = None then Some (n + 1)
     else allocLoop ss (n + 1))"

definition allocID :: "ClientWorker \<Rightarrow> (u16 \<times> ClientWorker) option" where
  "allocID w =
    (let w = w\<lparr>cw_total := cw_total w + 1\<rparr>; w = (if cw_total w > 256 then w\<lparr>cw_draining := True\<rparr> else w) in
     map_option (\<lambda>i. (i, w\<lparr>cw_nextID := i\<rparr>)) (allocLoop (cw_sessions w) (cw_nextID w)))"

section \<open>Frames out\<close>

definition cw_writeFrame :: "FrameMetadata \<Rightarrow> bytes \<Rightarrow> ClientWorker \<Rightarrow> (muxErr, ClientWorker) result" where
  "cw_writeFrame m data w = res_bind (WriteFrame m data) (\<lambda>_. Inr (w\<lparr>cw_out := cw_out w @ [(m, data)]\<rparr>))"

definition cw_writeData :: "u16 \<Rightarrow> bytes \<Rightarrow> ClientWorker \<Rightarrow> ClientWorker" where
  "cw_writeData i data w = w\<lparr>cw_out := cw_out w @ map (\<lambda>c. (keepMeta i, c)) (chunks data)\<rparr>"

definition cw_writeEnd :: "u16 \<Rightarrow> bool \<Rightarrow> ClientWorker \<Rightarrow> ClientWorker" where
  "cw_writeEnd i hasErr w = w\<lparr>cw_out := cw_out w @ [(\<lparr> fm_SessionID = i, fm_Status = StatusEnd,
     fm_Option = (if hasErr then OptionError else 0), fm_Network = 0, fm_Address = noAddr, fm_Port = 0 \<rparr>, [])]\<rparr>"

definition cw_addSession :: "clientSession \<Rightarrow> ClientWorker \<Rightarrow> ClientWorker" where
  "cw_addSession cs w = w\<lparr>cw_objs := cw_objs w @ [cs], cw_sessions := AList.update (cl_id cs) (length (cw_objs w)) (cw_sessions w)\<rparr>"

definition cw_removeSession :: "u16 \<Rightarrow> ClientWorker \<Rightarrow> ClientWorker" where
  "cw_removeSession i w = w\<lparr>cw_sessions := AList.delete i (cw_sessions w)\<rparr>"

definition closePipe :: "clientSession \<Rightarrow> clientSession" where
  "closePipe cs = cs\<lparr>cl_inW := map_option bp_Close (cl_inW cs)\<rparr>"

definition cw_finish :: "nat \<Rightarrow> ClientWorker \<Rightarrow> ClientWorker" where
  "cw_finish k w =
    (let cs = cw_objs w ! k in
     if cl_finished cs then w
     else (cw_removeSession (cl_id cs) w)\<lparr>cw_objs := (cw_objs w)[k := closePipe (cs\<lparr>cl_finished := True\<rparr>)]\<rparr>)"

definition cw_closeAll :: "ClientWorker \<Rightarrow> ClientWorker" where
  "cw_closeAll w = fold cw_finish (map snd (cw_sessions w)) (w\<lparr>cw_done := True\<rparr>)"

definition targetMeta :: "u16 \<Rightarrow> u8 \<Rightarrow> u8 \<Rightarrow> MuxAddress \<Rightarrow> u16 \<Rightarrow> u8 \<Rightarrow> FrameMetadata" where
  "targetMeta i status network addr port opt =
    \<lparr> fm_SessionID = i, fm_Status = status, fm_Option = opt, fm_Network = network, fm_Address = addr, fm_Port = port \<rparr>"

text \<open>\<open>OpenStream\<close>: the outer \<open>None\<close> is an identifier search that does not end.\<close>

definition newClientSession :: "u16 \<Rightarrow> clientSession" where
  "newClientSession i = \<lparr> cl_id = i, cl_finished = False, cl_connClosed = False, cl_udp = False, cl_inW = None, cl_sink = None, cl_target = [] \<rparr>"

definition OpenStream :: "u8 \<Rightarrow> MuxAddress \<Rightarrow> u16 \<Rightarrow> ClientWorker \<Rightarrow> ((muxErr, nat) result \<times> ClientWorker) option" where
  "OpenStream network addr port w =
    map_option (\<lambda>(i, w).
      let k = length (cw_objs w);
          w = cw_addSession ((newClientSession i)\<lparr>cl_inW := Some (newBufPipe sessionBufLimit)\<rparr>) w
      in case cw_writeFrame (targetMeta i StatusNew network addr port 0) [] w of
           Inl e \<Rightarrow> (Inl e, (cw_removeSession i w)\<lparr>cw_objs := (cw_objs w)[k := closePipe (cw_objs w ! k)]\<rparr>)
         | Inr w' \<Rightarrow> (Inr k, w')) (allocID w)"

definition clientConn_Write :: "nat \<Rightarrow> bytes \<Rightarrow> ClientWorker \<Rightarrow> ClientWorker" where
  "clientConn_Write k p w = cw_writeData (cl_id (cw_objs w ! k)) p w"

definition clientConn_Close :: "nat \<Rightarrow> ClientWorker \<Rightarrow> ClientWorker" where
  "clientConn_Close k w =
    (let cs = cw_objs w ! k in
     if cl_connClosed cs then w
     else cw_finish k (cw_writeEnd (cl_id cs) False (w\<lparr>cw_objs := (cw_objs w)[k := cs\<lparr>cl_connClosed := True\<rparr>]\<rparr>)))"

section \<open>Frames in\<close>

definition recvCap :: nat where "recvCap = 512"

text \<open>The read loop: it takes a frame when its last write into a pipe is done.\<close>

definition cw_handleFrame :: "FrameMetadata \<Rightarrow> bytes \<Rightarrow> ClientWorker \<Rightarrow> ClientWorker" where
  "cw_handleFrame m data w =
    (if fm_Status m = StatusKeep then
       (case map_of (cw_sessions w) (fm_SessionID m) of
          None \<Rightarrow> cw_writeEnd (fm_SessionID m) False w
        | Some k \<Rightarrow>
            (let cs = cw_objs w ! k in
             if length data > 0 then
               (if cl_udp cs then
                  (case cl_sink cs of
                     None \<Rightarrow> w
                   | Some q \<Rightarrow>
                       (let pc = cw_packetConns w ! q in
                        if length (pk_recv pc) < recvCap
                        then w\<lparr>cw_packetConns := (cw_packetConns w)[q := pc\<lparr>pk_recv := pk_recv pc @ [(cl_target cs, data)]\<rparr>]\<rparr>
                        else w))
                else w\<lparr>cw_writing := Some (k, data)\<rparr>)
             else w))
     else if fm_Status m = StatusEnd then
       (case map_of (cw_sessions w) (fm_SessionID m) of None \<Rightarrow> w | Some k \<Rightarrow> cw_finish k w)
     else w)"

section \<open>Datagrams\<close>

definition WriteTo :: "nat \<Rightarrow> bytes \<Rightarrow> string \<Rightarrow> MuxAddress \<Rightarrow> u16 \<Rightarrow> ClientWorker \<Rightarrow> ((muxErr, nat) result \<times> ClientWorker) option" where
  "WriteTo k p key a port w =
    (let pc = cw_packetConns w ! k;
         send = (\<lambda>i w. case cw_writeFrame (targetMeta i StatusKeep NetworkUDP a port OptionData) p w of
                         Inl e \<Rightarrow> (Inl e, w) | Inr w' \<Rightarrow> (Inr (length p), w'))
     in case map_of (pk_sessions pc) key of
          Some o' \<Rightarrow> Some (send (cl_id (cw_objs w ! o')) w)
        | None \<Rightarrow>
            map_option (\<lambda>(i, w).
              let n = length (cw_objs w);
                  w = (cw_addSession ((newClientSession i)\<lparr>cl_udp := True, cl_sink := Some k, cl_target := key\<rparr>) w)
                        \<lparr>cw_packetConns := (cw_packetConns w)[k := pc\<lparr>pk_sessions := AList.update key n (pk_sessions pc)\<rparr>]\<rparr>
              in case cw_writeFrame (targetMeta i StatusNew NetworkUDP a port 0) [] w of
                   Inl e \<Rightarrow> (Inl e, w)
                 | Inr w' \<Rightarrow> send i w') (allocID w))"

definition muxPacketConn_Close :: "nat \<Rightarrow> ClientWorker \<Rightarrow> ClientWorker" where
  "muxPacketConn_Close k w =
    (let pc = cw_packetConns w ! k in
     if pk_closed pc then w
     else fold (\<lambda>n w. cw_finish n (cw_writeEnd (cl_id (cw_objs w ! n)) False w)) (map snd (pk_sessions pc))
            (w\<lparr>cw_packetConns := (cw_packetConns w)[k := pc\<lparr>pk_closed := True, pk_sessions := []\<rparr>]\<rparr>))"

definition NewPacketConn :: "ClientWorker \<Rightarrow> nat \<times> ClientWorker" where
  "NewPacketConn w = (length (cw_packetConns w),
     w\<lparr>cw_packetConns := cw_packetConns w @ [\<lparr> pk_recv = [], pk_sessions = [], pk_closed = False \<rparr>]\<rparr>)"

text \<open>\<open>ReadFrom\<close> without a deadline: a datagram of the queue, \<open>None\<close> when it would wait or the connection is closed.\<close>

definition ReadFrom :: "nat \<Rightarrow> nat \<Rightarrow> ClientWorker \<Rightarrow> (string \<times> bytes) option \<times> ClientWorker" where
  "ReadFrom k n w =
    (let pc = cw_packetConns w ! k in
     case pk_recv pc of
       [] \<Rightarrow> (None, w)
     | (src, d) # rest \<Rightarrow> (Some (src, take n d), w\<lparr>cw_packetConns := (cw_packetConns w)[k := pc\<lparr>pk_recv := rest\<rparr>]\<rparr>))"

section \<open>The control stream\<close>

text \<open>A heartbeat; the length and the random bytes come from the caller.\<close>

definition controlBytes :: "bool \<Rightarrow> u8 \<Rightarrow> (nat \<Rightarrow> bytes) \<Rightarrow> bytes" where
  "controlBytes drain lb rnd =
    (let n = unat lb mod 64 + 1 in (if drain then [0x08, 0x01] else []) @ [0x9A, 0x06, word_of_nat n] @ rnd n)"

definition ctlAddr :: MuxAddress where
  "ctlAddr = \<lparr> ma_IsDomain = True, ma_Domain = ''reverse'', ma_IP = [] \<rparr>"

definition sendHeartbeat :: "u16 \<Rightarrow> u8 \<Rightarrow> (nat \<Rightarrow> bytes) \<Rightarrow> ClientWorker \<Rightarrow> (muxErr, ClientWorker) result" where
  "sendHeartbeat i lb rnd w = cw_writeFrame (targetMeta i StatusKeep NetworkUDP ctlAddr 0 0) (controlBytes (cw_draining w) lb rnd) w"

definition StartControl :: "ClientWorker \<Rightarrow> ((muxErr, u16) result \<times> ClientWorker) option" where
  "StartControl w =
    map_option (\<lambda>(i, w).
      case cw_writeFrame (targetMeta i StatusNew NetworkUDP ctlAddr 0 0) [] w of
        Inl e \<Rightarrow> (Inl e, w)
      | Inr w' \<Rightarrow> (Inr i, w')) (allocID w)"

section \<open>When an identifier is found\<close>

lemma allocLoop_sound:
  assumes "allocLoop ss n = Some i"
  shows "i \<noteq> 0 \<and> map_of ss i = None"
  by (rule allocLoop.raw_induct [of "\<lambda>ss n i. i \<noteq> 0 \<and> map_of ss i = None", OF _ assms]) (auto split: if_splits)

lemma word_below: "x \<noteq> 0 \<Longrightarrow> unat (x - 1) < unat (x :: u16)"
  by (metis diff_less unat_eq_zero unat_gt_0 unat_minus_one zero_less_one)

lemma allocLoop_finds:
  assumes "i \<noteq> 0" "map_of ss i = None"
  shows "\<exists>j. allocLoop ss n = Some j"
proof (induction "unat (i - (n + 1))" arbitrary: n rule: less_induct)
  case less
  show ?case
  proof (cases "n + 1 = i")
    case True
    then show ?thesis using assms by (subst allocLoop.simps) auto
  next
    case False
    have e: "i - (n + 1 + 1) = i - (n + 1) - 1" by simp
    have "unat (i - (n + 1 + 1)) < unat (i - (n + 1))" unfolding e by (rule word_below) (use False in auto)
    from less [OF this] show ?thesis by (subst allocLoop.simps) auto
  qed
qed

lemma allocID_iff:
  "(\<exists>i w'. allocID w = Some (i, w')) \<longleftrightarrow> (\<exists>i. i \<noteq> 0 \<and> i \<notin> keys (cw_sessions w))"
proof -
  have "(\<exists>i w'. allocID w = Some (i, w')) \<longleftrightarrow> (\<exists>i. allocLoop (cw_sessions w) (cw_nextID w) = Some i)"
    by (auto simp: allocID_def Let_def)
  also have "\<dots> \<longleftrightarrow> (\<exists>i. i \<noteq> 0 \<and> map_of (cw_sessions w) i = None)"
    using allocLoop_sound allocLoop_finds by blast
  finally show ?thesis by (simp add: map_of_None_keys)
qed

lemma allocID_fresh:
  "allocID w = Some (i, w') \<Longrightarrow> i \<noteq> 0 \<and> i \<notin> keys (cw_sessions w) \<and> cw_sessions w' = cw_sessions w
    \<and> cw_total w' = cw_total w + 1 \<and> (cw_draining w' \<longleftrightarrow> cw_draining w \<or> 256 < cw_total w')"
  by (auto simp: allocID_def Let_def map_of_None_keys [symmetric] dest: allocLoop_sound split: if_splits)

text \<open>Fewer than 65535 streams always leave an identifier.\<close>

lemma allocID_room:
  assumes "card (keys (cw_sessions w)) < 65535"
  shows "\<exists>i w'. allocID w = Some (i, w')"
proof -
  have "card (UNIV :: u16 set) = 65536" by (simp add: card_word)
  then have "card (UNIV - {0 :: u16}) = 65535" by (simp add: card_Diff_singleton)
  moreover have "finite (keys (cw_sessions w))" by (simp add: keys_def)
  ultimately have "\<not> UNIV - {0} \<subseteq> keys (cw_sessions w)" using card_mono assms by (metis not_less)
  then show ?thesis unfolding allocID_iff by blast
qed

section \<open>The table of streams\<close>

datatype cliOp = COpen u8 MuxAddress u16 | CWrite nat bytes | CClose nat | CFrame FrameMetadata bytes | CPacketConn
  | CSendTo nat bytes string MuxAddress u16 | CClosePacketConn nat | CControl | CCloseAll

text \<open>One operation on objects that exist; \<open>None\<close> when it does not return.\<close>

fun cliExec :: "cliOp \<Rightarrow> ClientWorker \<Rightarrow> ClientWorker option" where
  "cliExec (COpen network a port) w = map_option snd (OpenStream network a port w)"
| "cliExec (CWrite k p) w = Some (if k < length (cw_objs w) then clientConn_Write k p w else w)"
| "cliExec (CClose k) w = Some (if k < length (cw_objs w) then clientConn_Close k w else w)"
| "cliExec (CFrame m data) w = Some (cw_handleFrame m data w)"
| "cliExec CPacketConn w = Some (snd (NewPacketConn w))"
| "cliExec (CSendTo k p key a port) w =
    (if k < length (cw_packetConns w) then map_option snd (WriteTo k p key a port w) else Some w)"
| "cliExec (CClosePacketConn k) w = Some (if k < length (cw_packetConns w) then muxPacketConn_Close k w else w)"
| "cliExec CControl w = map_option snd (StartControl w)"
| "cliExec CCloseAll w = Some (cw_closeAll w)"

fun cliRun :: "cliOp list \<Rightarrow> ClientWorker \<Rightarrow> ClientWorker option" where
  "cliRun [] w = Some w"
| "cliRun (c # cs) w = Option.bind (cliExec c w) (cliRun cs)"

definition tableC :: "(u16 \<times> nat) list \<Rightarrow> clientSession list \<Rightarrow> bool" where
  "tableC ss os = (\<forall>i k. map_of ss i = Some k \<longrightarrow> i \<noteq> 0 \<and> k < length os \<and> cl_id (os ! k) = i \<and> \<not> cl_finished (os ! k))"

definition connsC :: "muxPacketConn list \<Rightarrow> nat \<Rightarrow> bool" where
  "connsC pcs n = (\<forall>pc \<in> set pcs. \<forall>k \<in> snd ` set (pk_sessions pc). k < n)"

definition cliInv :: "ClientWorker \<Rightarrow> bool" where
  "cliInv w = (distinct (map fst (cw_sessions w)) \<and> tableC (cw_sessions w) (cw_objs w) \<and> connsC (cw_packetConns w) (length (cw_objs w)))"

lemma cliInv_fields [simp]:
  "cliInv (w\<lparr>cw_out := a\<rparr>) = cliInv w" "cliInv (w\<lparr>cw_writing := b\<rparr>) = cliInv w" "cliInv (w\<lparr>cw_nextID := c\<rparr>) = cliInv w"
  "cliInv (w\<lparr>cw_total := d\<rparr>) = cliInv w" "cliInv (w\<lparr>cw_draining := e\<rparr>) = cliInv w" "cliInv (w\<lparr>cw_done := f\<rparr>) = cliInv w"
  by (simp_all add: cliInv_def)

lemma cliInv_writeFrame: "cw_writeFrame m d w = Inr w' \<Longrightarrow> cliInv w' = cliInv w"
  by (auto simp: cw_writeFrame_def res_bind_Inr_iff)

lemma cliInv_out [simp]: "cliInv (cw_writeEnd i e w) = cliInv w" "cliInv (cw_writeData i d w) = cliInv w"
  by (simp_all add: cw_writeEnd_def cw_writeData_def)

lemma cliInv_allocID: "allocID w = Some (i, w') \<Longrightarrow> cliInv w' = cliInv w \<and> cw_objs w' = cw_objs w \<and> cw_packetConns w' = cw_packetConns w"
  by (auto simp: allocID_def Let_def split: if_splits)

lemma cliInv_add:
  assumes "cliInv w" "cl_id cs \<noteq> 0" "\<not> cl_finished cs"
  shows "cliInv (cw_addSession cs w)"
proof -
  let ?n = "length (cw_objs w)"
  have T: "map_of (cw_sessions w) i = Some k \<Longrightarrow> i \<noteq> 0 \<and> k < ?n \<and> cl_id (cw_objs w ! k) = i \<and> \<not> cl_finished (cw_objs w ! k)" for i k
    using assms(1) unfolding cliInv_def tableC_def by blast
  have "i \<noteq> 0 \<and> k < Suc ?n \<and> cl_id ((cw_objs w @ [cs]) ! k) = i \<and> \<not> cl_finished ((cw_objs w @ [cs]) ! k)"
    if "((map_of (cw_sessions w))(cl_id cs \<mapsto> ?n)) i = Some k" for i k
    using that T [of i k] assms(2,3) by (auto simp: nth_append split: if_splits)
  then have "tableC (AList.update (cl_id cs) ?n (cw_sessions w)) (cw_objs w @ [cs])" by (simp add: tableC_def)
  moreover have "connsC (cw_packetConns w) (Suc ?n)" using assms(1) unfolding cliInv_def connsC_def using less_SucI by blast
  ultimately show ?thesis using assms(1) by (simp add: cliInv_def cw_addSession_def)
qed

lemma cliInv_objs:
  assumes "cliInv w" "cl_id cs = cl_id (cw_objs w ! k)" "cl_finished cs = cl_finished (cw_objs w ! k)"
  shows "cliInv (w\<lparr>cw_objs := (cw_objs w)[k := cs]\<rparr>)"
proof -
  have "tableC (cw_sessions w) ((cw_objs w)[k := cs])"
    unfolding tableC_def
  proof (intro allI impI)
    fix i j assume "map_of (cw_sessions w) i = Some j"
    then have "i \<noteq> 0 \<and> j < length (cw_objs w) \<and> cl_id (cw_objs w ! j) = i \<and> \<not> cl_finished (cw_objs w ! j)"
      using assms(1) unfolding cliInv_def tableC_def by blast
    then show "i \<noteq> 0 \<and> j < length ((cw_objs w)[k := cs]) \<and> cl_id ((cw_objs w)[k := cs] ! j) = i \<and> \<not> cl_finished ((cw_objs w)[k := cs] ! j)"
      using assms(2,3) by (cases "j = k") auto
  qed
  then show ?thesis using assms(1) by (simp add: cliInv_def)
qed

lemma cliInv_remove: "cliInv w \<Longrightarrow> cliInv (cw_removeSession i w)"
  unfolding cliInv_def cw_removeSession_def tableC_def by (auto split: if_splits)

lemma finish_objs [simp]: "length (cw_objs (cw_finish k w)) = length (cw_objs w)" "cw_packetConns (cw_finish k w) = cw_packetConns w"
  by (simp_all add: cw_finish_def Let_def cw_removeSession_def)

lemma cliInv_finish:
  assumes "cliInv w" "k < length (cw_objs w)"
  shows "cliInv (cw_finish k w)"
proof (cases "cl_finished (cw_objs w ! k)")
  case False
  let ?cs = "cw_objs w ! k"
  have T: "map_of (cw_sessions w) i = Some j \<Longrightarrow> i \<noteq> 0 \<and> j < length (cw_objs w) \<and> cl_id (cw_objs w ! j) = i \<and> \<not> cl_finished (cw_objs w ! j)" for i j
    using assms(1) unfolding cliInv_def tableC_def by blast
  have "i \<noteq> 0 \<and> j < length (cw_objs w) \<and> cl_id ((cw_objs w)[k := closePipe (?cs\<lparr>cl_finished := True\<rparr>)] ! j) = i
      \<and> \<not> cl_finished ((cw_objs w)[k := closePipe (?cs\<lparr>cl_finished := True\<rparr>)] ! j)"
    if "((map_of (cw_sessions w))(cl_id ?cs := None)) i = Some j" for i j
    using that T [of i j] by (cases "j = k") (auto split: if_splits)
  then have "tableC (AList.delete (cl_id ?cs) (cw_sessions w)) ((cw_objs w)[k := closePipe (?cs\<lparr>cl_finished := True\<rparr>)])"
    by (simp add: tableC_def)
  then show ?thesis using assms(1) False by (simp add: cliInv_def cw_finish_def Let_def cw_removeSession_def)
qed (simp add: cw_finish_def assms(1))

lemma cliInv_finishes:
  "cliInv w \<Longrightarrow> \<forall>k \<in> set ks. k < length (cw_objs w) \<Longrightarrow> cliInv (fold cw_finish ks w)"
  by (induction ks arbitrary: w) (simp_all add: cliInv_finish)

lemma cliInv_closings:
  "cliInv w \<Longrightarrow> \<forall>k \<in> set ks. k < length (cw_objs w) \<Longrightarrow>
    cliInv (fold (\<lambda>n w. cw_finish n (cw_writeEnd (cl_id (cw_objs w ! n)) False w)) ks w)"
proof (induction ks arbitrary: w)
  case (Cons k ks)
  have l: "cw_objs (cw_writeEnd i e w) = cw_objs w" for i e by (simp add: cw_writeEnd_def)
  show ?case using Cons by (simp add: cliInv_finish l)
qed simp

lemma table_index: "cliInv w \<Longrightarrow> map_of (cw_sessions w) i = Some k \<Longrightarrow> k < length (cw_objs w)"
  unfolding cliInv_def tableC_def by blast

lemma cliInv_recv:
  assumes "cliInv w" "pk_sessions pc = pk_sessions (cw_packetConns w ! q)"
  shows "cliInv (w\<lparr>cw_packetConns := (cw_packetConns w)[q := pc]\<rparr>)"
proof (cases "q < length (cw_packetConns w)")
  case True
  then have "cw_packetConns w ! q \<in> set (cw_packetConns w)" by simp
  then have "\<forall>n \<in> snd ` set (pk_sessions pc). n < length (cw_objs w)" using assms unfolding cliInv_def connsC_def by (metis assms(2))
  then have "connsC ((cw_packetConns w)[q := pc]) (length (cw_objs w))"
    using assms(1) set_update_subset_insert [of "cw_packetConns w" q pc] unfolding cliInv_def connsC_def by (metis insert_iff subsetD)
  then show ?thesis using assms(1) by (simp add: cliInv_def)
next
  case False
  then show ?thesis using assms(1) by (simp add: cliInv_def list_update_beyond not_less)
qed

lemma cliInv_frame: "cliInv w \<Longrightarrow> cliInv (cw_handleFrame m data w)"
  by (auto simp: cw_handleFrame_def Let_def cliInv_recv table_index intro!: cliInv_finish split: option.split)

lemma cliInv_open: "cliInv w \<Longrightarrow> OpenStream network a port w = Some (x, w') \<Longrightarrow> cliInv w'"
proof -
  assume inv: "cliInv w" and o: "OpenStream network a port w = Some (x, w')"
  then obtain i w1 where al: "allocID w = Some (i, w1)" by (auto simp: OpenStream_def)
  have i1: "cliInv w1" "i \<noteq> 0" using cliInv_allocID [OF al] allocID_fresh [OF al] inv by auto
  let ?cs = "(newClientSession i)\<lparr>cl_inW := Some (newBufPipe sessionBufLimit)\<rparr>"
  let ?w = "cw_addSession ?cs w1"
  have i2: "cliInv ?w" by (rule cliInv_add [OF i1(1)]) (simp_all add: newClientSession_def i1)
  have "cliInv ((cw_removeSession i ?w)\<lparr>cw_objs := (cw_objs ?w)[k := closePipe (cw_objs ?w ! k)]\<rparr>)" for k
    using cliInv_objs [OF cliInv_remove [OF i2, of i], where k = k and cs = "closePipe (cw_objs ?w ! k)"]
    by (simp add: cw_removeSession_def closePipe_def)
  then show ?thesis using o i2 cliInv_writeFrame by (auto simp: OpenStream_def al Let_def split: sum.splits)
qed

lemma cliInv_control: "cliInv w \<Longrightarrow> StartControl w = Some (x, w') \<Longrightarrow> cliInv w'"
proof -
  assume inv: "cliInv w" and sc: "StartControl w = Some (x, w')"
  obtain i w1 where al: "allocID w = Some (i, w1)" using sc by (auto simp: StartControl_def)
  have "cliInv w1" using cliInv_allocID [OF al] inv by simp
  then show "cliInv w'" using sc cliInv_writeFrame by (auto simp: StartControl_def al split: sum.splits)
qed


lemma cliInv_sendTo:
  assumes inv: "cliInv w" and wt: "WriteTo q p key a port w = Some (x, w')"
  shows "cliInv w'"
proof (cases "map_of (pk_sessions (cw_packetConns w ! q)) key")
  case (Some n)
  then show ?thesis using wt inv cliInv_writeFrame by (auto simp: WriteTo_def Let_def split: sum.splits)
next
  case None
  let ?pc = "cw_packetConns w ! q"
  obtain i w1 where al: "allocID w = Some (i, w1)" using wt None by (auto simp: WriteTo_def Let_def)
  have i1: "cliInv w1" "i \<noteq> 0" "cw_objs w1 = cw_objs w" "cw_packetConns w1 = cw_packetConns w"
    using cliInv_allocID [OF al] allocID_fresh [OF al] inv by auto
  let ?cs = "(newClientSession i)\<lparr>cl_udp := True, cl_sink := Some q, cl_target := key\<rparr>"
  let ?n = "length (cw_objs w1)"
  let ?pcs = "(cw_packetConns w1)[q := ?pc\<lparr>pk_sessions := AList.update key ?n (pk_sessions ?pc)\<rparr>]"
  let ?w = "(cw_addSession ?cs w1)\<lparr>cw_packetConns := ?pcs\<rparr>"
  have i2: "cliInv (cw_addSession ?cs w1)" by (rule cliInv_add [OF i1(1)]) (simp_all add: newClientSession_def i1)
  have u: "snd ` set (AList.update key ?n al) \<subseteq> insert ?n (snd ` set al)" for al by (induction al) auto
  have "connsC ?pcs (Suc ?n)"
  proof (cases "q < length (cw_packetConns w)")
    case True
    then have "\<forall>k \<in> snd ` set (pk_sessions ?pc). k < ?n"
      using inv i1(3) nth_mem unfolding cliInv_def connsC_def by metis
    then have "\<forall>k \<in> snd ` set (AList.update key ?n (pk_sessions ?pc)). k < Suc ?n" using u [of "pk_sessions ?pc"] by fastforce
    moreover have "\<forall>pc \<in> set (cw_packetConns w1). \<forall>k \<in> snd ` set (pk_sessions pc). k < Suc ?n"
      using inv i1(3,4) less_SucI unfolding cliInv_def connsC_def by metis
    ultimately show ?thesis using set_update_subset_insert [of "cw_packetConns w1" q] unfolding connsC_def
      by (metis (no_types, lifting) insertE muxPacketConn.select_convs(2) muxPacketConn.surjective muxPacketConn.update_convs(2) subsetD)
  next
    case False
    then show ?thesis using i2 i1(4) by (simp add: cliInv_def cw_addSession_def list_update_beyond not_less)
  qed
  then have "cliInv ?w" using i2 by (simp add: cliInv_def cw_addSession_def)
  then show ?thesis using wt cliInv_writeFrame by (auto simp: WriteTo_def Let_def None al split: sum.splits)
qed

lemma cliInv_exec:
  assumes "cliInv w" "cliExec c w = Some w'"
  shows "cliInv w'"
proof (cases c)
  case (CClose k)
  have "cliInv (w\<lparr>cw_objs := (cw_objs w)[k := (cw_objs w ! k)\<lparr>cl_connClosed := True\<rparr>]\<rparr>)"
    by (rule cliInv_objs [OF assms(1)]) simp_all
  then show ?thesis using assms CClose by (auto simp: clientConn_Close_def Let_def cw_writeEnd_def intro!: cliInv_finish)
next
  case CPacketConn
  then have "w' = w\<lparr>cw_packetConns := cw_packetConns w @ [\<lparr> pk_recv = [], pk_sessions = [], pk_closed = False \<rparr>]\<rparr>"
    using assms(2) by (simp add: NewPacketConn_def)
  then show ?thesis using assms(1) by (simp add: cliInv_def connsC_def)
next
  case (CClosePacketConn q)
  let ?pc = "(cw_packetConns w ! q)\<lparr>pk_closed := True, pk_sessions := []\<rparr>"
  have "connsC ((cw_packetConns w)[q := ?pc]) (length (cw_objs w))"
    using assms(1) set_update_subset_insert [of "cw_packetConns w" q ?pc] unfolding cliInv_def connsC_def by fastforce
  then have "cliInv (w\<lparr>cw_packetConns := (cw_packetConns w)[q := ?pc]\<rparr>)" using assms(1) by (simp add: cliInv_def)
  moreover have "\<forall>k \<in> set (map snd (pk_sessions (cw_packetConns w ! q))). k < length (cw_objs w)" if "q < length (cw_packetConns w)"
    using assms(1) nth_mem [OF that] unfolding cliInv_def connsC_def by simp
  ultimately show ?thesis using assms CClosePacketConn cliInv_closings
    by (auto simp: muxPacketConn_Close_def Let_def split: if_splits)
next
  case CCloseAll
  have "\<forall>k \<in> set (map snd (cw_sessions w)). k < length (cw_objs w)"
  proof
    fix k assume "k \<in> set (map snd (cw_sessions w))"
    then obtain i where "(i, k) \<in> set (cw_sessions w)" by auto
    then have "map_of (cw_sessions w) i = Some k" using assms(1) map_of_distinct_iff unfolding cliInv_def by metis
    then show "k < length (cw_objs w)" by (rule table_index [OF assms(1)])
  qed
  then show ?thesis using cliInv_finishes [of "w\<lparr>cw_done := True\<rparr>" "map snd (cw_sessions w)"] assms CCloseAll
    by (simp add: cw_closeAll_def)
qed (use assms in \<open>auto simp: clientConn_Write_def intro: cliInv_open cliInv_frame cliInv_sendTo cliInv_control split: if_splits\<close>)

lemma cliInv_run: "cliInv w \<Longrightarrow> cliRun cs w = Some w' \<Longrightarrow> cliInv w'"
  by (induction cs arbitrary: w) (auto simp: bind_eq_Some_conv dest: cliInv_exec)

lemma cliInv_New: "cliInv NewClientWorker"
  by (simp add: cliInv_def NewClientWorker_def tableC_def connsC_def)

text \<open>
  C18: in every run of the client, an identifier in the table is not zero and leads to an unfinished
  session opened under this identifier, and no session is in the table twice.
\<close>

theorem client_table:
  assumes "cliRun cs NewClientWorker = Some w" "map_of (cw_sessions w) i = Some k"
  shows "i \<noteq> 0 \<and> k < length (cw_objs w) \<and> cl_id (cw_objs w ! k) = i \<and> \<not> cl_finished (cw_objs w ! k)
    \<and> (\<forall>j. map_of (cw_sessions w) j = Some k \<longrightarrow> j = i)"
  using cliInv_run [OF cliInv_New assms(1)] assms(2) unfolding cliInv_def tableC_def by blast

text \<open>
  C17: the search for a stream identifier returns exactly when some identifier other than zero is
  unused, in particular whenever fewer than 65535 streams are open, and it returns an unused
  identifier other than zero.
\<close>

theorem allocID_returns_iff:
  "((\<exists>i w'. allocID w = Some (i, w')) \<longleftrightarrow> (\<exists>i. i \<noteq> 0 \<and> i \<notin> keys (cw_sessions w)))
    \<and> (card (keys (cw_sessions w)) < 65535 \<longrightarrow> (\<exists>i w'. allocID w = Some (i, w')))
    \<and> (\<forall>i w'. allocID w = Some (i, w') \<longrightarrow> i \<noteq> 0 \<and> i \<notin> keys (cw_sessions w))"
  using allocID_iff [of w] allocID_room [of w] allocID_fresh [of w] by blast

theorem allocID_returns_iff_witness:
  "\<exists>i w'. allocID NewClientWorker = Some (i, w') \<and> i \<noteq> 0"
proof -
  have "card (keys (cw_sessions NewClientWorker)) < 65535" by (simp add: NewClientWorker_def)
  with allocID_returns_iff [of NewClientWorker] show ?thesis by blast
qed


theorem client_table_witness:
  "\<exists>w. cliRun [COpen 1 ctlAddr 80] NewClientWorker = Some w \<and> map_of (cw_sessions w) 1 = Some 0 \<and> cl_id (cw_objs w ! 0) = 1"
proof -
  have a: "allocLoop [] 0 = Some 1" by (subst allocLoop.simps) simp
  have "\<exists>out. WriteFrame (targetMeta 1 1 1 ctlAddr 80 0) [] = Inr out"
    by (simp add: WriteFrame_def Let_def encodeHeader_def targetMeta_def hasTarget_def writeAddrPort_def ctlAddr_def StreamChunkSize_def
        maxMetaLen_def)
  then obtain w where w: "cliRun [COpen 1 ctlAddr 80] NewClientWorker = Some w" "map_of (cw_sessions w) 1 = Some 0"
    by (auto simp: OpenStream_def allocID_def NewClientWorker_def a cw_addSession_def newClientSession_def cw_writeFrame_def Let_def)
  with client_table [OF w] show ?thesis by auto
qed

end
