(* ===== verification/Handshake.thy ===== *)
theory Handshake
  imports GoNet Wire
begin

text \<open>
  What the protocols share: addresses as bytes (\<open>netip.Addr.As4/As16/AddrFrom4/AddrFrom16\<close>), the request a
  server handshake produces (\<open>core/proxy\<close>) and the contract between the two sides of a protocol: what
  the client writes, the server accepts, with the client's credential and destination and without
  touching the payload behind it.
\<close>

unbundle bit_operations_syntax

section \<open>Addresses as bytes\<close>

definition be128 :: "u128 \<Rightarrow> bytes" where
  "be128 w = be64 (ucast (drop_bit 64 w)) @ be64 (ucast w)"

definition get64 :: "bytes \<Rightarrow> u64" where
  "get64 b = push_bit 32 (ucast (get32 (b ! 0) (b ! 1) (b ! 2) (b ! 3))) OR ucast (get32 (b ! 4) (b ! 5) (b ! 6) (b ! 7))"

definition get128 :: "bytes \<Rightarrow> u128" where
  "get128 b = push_bit 64 (ucast (get64 (take 8 b))) OR ucast (get64 (drop 8 b))"

definition AddrFrom4 :: "bytes \<Rightarrow> Addr" where
  "AddrFrom4 b = Addr4 (get32 (b ! 0) (b ! 1) (b ! 2) (b ! 3))"

definition AddrFrom16 :: "bytes \<Rightarrow> Addr" where
  "AddrFrom16 b = Addr6 (get128 b) []"

text \<open>\<open>As16\<close> of an IPv4 address is its mapped form, of the zero value sixteen zero bytes.\<close>

fun As16 :: "Addr \<Rightarrow> bytes" where
  "As16 AddrZero = be128 0"
| "As16 (Addr4 w) = replicate 10 0 @ [255, 255] @ be32 w"
| "As16 (Addr6 w z) = be128 w"

lemma length_be64 [simp]: "length (be64 w) = 8" "length (be128 v) = 16"
  by (simp_all add: be64_def be128_def)

lemma length_As16 [simp]: "length (As16 a) = 16"
  by (cases a) simp_all

lemma join64 [simp]: "push_bit 32 (ucast (ucast (drop_bit 32 w) :: u32)) OR ucast (ucast w :: u32) = (w :: u64)"
  by (rule bit_word_eqI) (auto simp: bit_simps)

lemma join128 [simp]: "push_bit 64 (ucast (ucast (drop_bit 64 w) :: u64)) OR ucast (ucast w :: u64) = (w :: u128)"
  by (rule bit_word_eqI) (auto simp: bit_simps)

lemma get64_be64 [simp]: "get64 (be64 w) = w"
proof -
  let ?h = "ucast (drop_bit 32 w) :: u32" and ?l = "ucast w :: u32"
  have "get32 (be64 w ! 0) (be64 w ! 1) (be64 w ! 2) (be64 w ! 3) = ?h"
    using get32_be32 [of ?h] by (simp add: be64_def be32_def)
  moreover have "get32 (be64 w ! 4) (be64 w ! 5) (be64 w ! 6) (be64 w ! 7) = ?l"
    using get32_be32 [of ?l] by (simp add: be64_def be32_def)
  ultimately show ?thesis unfolding get64_def by (simp only: join64)
qed

lemma get128_be128 [simp]: "get128 (be128 w) = w"
  by (simp add: get128_def be128_def)

lemma AddrFrom16_be128 [simp]: "AddrFrom16 (be128 w) = Addr6 w []"
  by (simp add: AddrFrom16_def)

lemma AddrFrom4_be32 [simp]: "AddrFrom4 (be32 w) = Addr4 w"
  by (simp add: AddrFrom4_def be32_def)

section \<open>Destinations on the wire\<close>

text \<open>
  A destination loses its zone on the way, and one that is neither a name nor an address arrives as the
  unspecified IPv6 address.  The length of a name is one byte, so a longer name cannot be carried.
\<close>

definition arrives :: "Socksaddr \<Rightarrow> Socksaddr" where
  "arrives d =
    (if IsFqdn d then FromFqdn (sa_Fqdn d) (sa_Port d)
     else FromIPPort \<lparr> ap_addr = (case sa_Addr d of Addr4 w \<Rightarrow> Addr4 w | Addr6 w _ \<Rightarrow> Addr6 w [] | AddrZero \<Rightarrow> Addr6 0 []),
                       ap_port = sa_Port d \<rparr>)"

definition carriable :: "Socksaddr \<Rightarrow> bool" where
  "carriable d = (length (sa_Fqdn d) \<le> 255)"

lemma arrives_same:
  assumes "sa_IsValid d" "sa_Fqdn d \<noteq> [] \<Longrightarrow> sa_Addr d = AddrZero" "\<not> hasZone (sa_Addr d)"
  shows "arrives d = d"
  using assms by (cases d; cases "sa_Addr d")
    (auto simp: arrives_def FromFqdn_def FromIPPort_def IsFqdn_def sa_IsValid_def IsIP_def addr_IsValid_def)

section \<open>The two sides of a protocol\<close>

datatype Network = TCP | UDP

record 'r Request =
  rq_Dst :: Socksaddr
  rq_Cred :: 'r
  rq_Network :: Network
  rq_Command :: u8

text \<open>
  \<open>hello k c d\<close> is what the client with credential \<open>k\<close> writes to ask for \<open>d\<close>; \<open>shown k\<close> is the key the
  server looks up for it.
\<close>

locale proxy_pair =
  fixes hello :: "'k \<Rightarrow> 'c \<Rightarrow> Socksaddr \<Rightarrow> bytes"
    and serve :: "(bytes \<Rightarrow> 'r option) \<Rightarrow> bytes \<Rightarrow> ('e, 'r Request \<times> bytes) result"
    and shown :: "'k \<Rightarrow> bytes"
    and okKey :: "'k \<Rightarrow> bool"
    and okCmd :: "'c \<Rightarrow> Socksaddr \<Rightarrow> bool"
    and req :: "'c \<Rightarrow> Socksaddr \<Rightarrow> 'r \<Rightarrow> 'r Request"
    and denied :: "'k \<Rightarrow> 'e"
  assumes serve_hello: "okKey k \<Longrightarrow> okCmd c d \<Longrightarrow> auth (shown k) = Some ref \<Longrightarrow>
      serve auth (hello k c d @ rest) = Inr (req c d ref, rest)"
    and serve_denied: "okKey k \<Longrightarrow> okCmd c d \<Longrightarrow> auth (shown k) = None \<Longrightarrow>
      serve auth (hello k c d @ rest) = Inl (denied k)"
begin

text \<open>A server admits a well-formed client exactly when it knows its key.\<close>

lemma admitted_iff: "okKey k \<Longrightarrow> okCmd c d \<Longrightarrow>
    (\<exists>r. serve auth (hello k c d @ rest) = Inr r) \<longleftrightarrow> auth (shown k) \<noteq> None"
  by (cases "auth (shown k)") (simp_all add: serve_hello serve_denied)

text \<open>Clients that the server cannot tell apart present the same key and ask for the same thing.\<close>

lemma hello_faithful:
  assumes ok: "okKey k" "okCmd c d" "okKey k'" "okCmd c' d'" and eq: "hello k c d @ rest = hello k' c' d' @ rest'"
  shows "shown k = shown k' \<and> rest = rest' \<and> req c d = req c' d'"
proof -
  have e: "serve auth (hello k c d @ rest) = serve auth (hello k' c' d' @ rest')" for auth
    using eq by simp
  have "req c d ref = req c' d' ref \<and> rest = rest'" for ref
    using e [of "\<lambda>_. Some ref"] ok by (simp add: serve_hello)
  moreover have "shown k = shown k'"
  proof (rule ccontr)
    assume "shown k \<noteq> shown k'"
    then show False using e [of "[shown k \<mapsto> undefined]"] ok by (simp add: serve_hello serve_denied)
  qed
  ultimately show ?thesis by blast
qed

end

end
