(* ===== verification/ByteBuf.thy ===== *)
theory ByteBuf
  imports Prelude Wire
begin

text \<open>
  The buffer with head and tail room (\<open>buf/buffer.go\<close>) and the contract the encoders that append to it
  rely on.  Positions are indices into the backing array, whose capacity is its length; slicing outside
  it panics, which is \<^const>\<open>None\<close>.
\<close>

section \<open>Buffer\<close>

definition DefaultSize :: nat where "DefaultSize = 32 * 1024"
definition DefaultHeadroom :: nat where "DefaultHeadroom = 512"

datatype bufErr = ErrShortBuffer

record Buffer =
  bb_data :: bytes
  bb_start :: nat
  bb_end :: nat
  bb_pooled :: bool

text \<open>A pooled array keeps the bytes of its last use; \<open>mem\<close> is that content.\<close>

definition buf_New :: "bytes \<Rightarrow> Buffer" where
  "buf_New mem = \<lparr> bb_data = mem, bb_start = DefaultHeadroom, bb_end = DefaultHeadroom, bb_pooled = True \<rparr>"

definition buf_As :: "bytes \<Rightarrow> Buffer" where
  "buf_As p = \<lparr> bb_data = p, bb_start = 0, bb_end = length p, bb_pooled = False \<rparr>"

text \<open>\<open>Release\<close> returns the buffer and whether its array went back to the pool.\<close>

definition buf_Release :: "Buffer \<Rightarrow> Buffer \<times> bool" where
  "buf_Release b = (if \<not> bb_pooled b then (b, False)
     else (b\<lparr>bb_start := 0, bb_end := 0, bb_pooled := False\<rparr>, True))"

definition buf_Bytes :: "Buffer \<Rightarrow> bytes" where
  "buf_Bytes b = drop (bb_start b) (take (bb_end b) (bb_data b))"

definition buf_Len :: "Buffer \<Rightarrow> nat" where
  "buf_Len b = bb_end b - bb_start b"

definition Headroom :: "Buffer \<Rightarrow> nat" where
  "Headroom b = bb_start b"

definition Tailroom :: "Buffer \<Rightarrow> nat" where
  "Tailroom b = length (bb_data b) - bb_end b"

definition buf_Reset :: "Buffer \<Rightarrow> Buffer" where
  "buf_Reset b = b\<lparr>bb_start := DefaultHeadroom, bb_end := DefaultHeadroom\<rparr>"

text \<open>The returned slice is its first index and its length; \<open>putSlice\<close> is the copy a caller makes into it.\<close>

definition ExtendHeader :: "nat \<Rightarrow> Buffer \<Rightarrow> (Buffer \<times> nat \<times> nat) option" where
  "ExtendHeader n b =
    (if n \<le> bb_start b then Some (b\<lparr>bb_start := bb_start b - n\<rparr>, bb_start b - n, n) else None)"

definition ExtendTail :: "nat \<Rightarrow> Buffer \<Rightarrow> (Buffer \<times> nat \<times> nat) option" where
  "ExtendTail n b =
    (if bb_end b + n \<le> length (bb_data b) then Some (b\<lparr>bb_end := bb_end b + n\<rparr>, bb_end b, n) else None)"

definition putSlice :: "nat \<Rightarrow> bytes \<Rightarrow> Buffer \<Rightarrow> Buffer" where
  "putSlice i p b = b\<lparr>bb_data := take i (bb_data b) @ p @ drop (i + length p) (bb_data b)\<rparr>"

definition Advance :: "nat \<Rightarrow> Buffer \<Rightarrow> Buffer" where
  "Advance n b = b\<lparr>bb_start := bb_start b + n\<rparr>"

definition Truncate :: "nat \<Rightarrow> Buffer \<Rightarrow> Buffer" where
  "Truncate n b = b\<lparr>bb_end := bb_start b + n\<rparr>"

definition buf_Write :: "bytes \<Rightarrow> Buffer \<Rightarrow> Buffer \<times> nat \<times> bufErr option" where
  "buf_Write p b =
    (let n = min (length p) (Tailroom b);
         b = (putSlice (bb_end b) (take n p) b)\<lparr>bb_end := bb_end b + n\<rparr> in
     if n < length p then (b, n, Some ErrShortBuffer) else (b, n, None))"

definition buf_WriteByte :: "u8 \<Rightarrow> Buffer \<Rightarrow> Buffer \<times> bufErr option" where
  "buf_WriteByte c b =
    (if Tailroom b < 1 then (b, Some ErrShortBuffer)
     else (b\<lparr>bb_data := (bb_data b)[bb_end b := c], bb_end := bb_end b + 1\<rparr>, None))"

section \<open>The well-formed buffers\<close>

definition bufOK :: "Buffer \<Rightarrow> bool" where
  "bufOK b = (bb_start b \<le> bb_end b \<and> bb_end b \<le> length (bb_data b))"

lemma buf_New_OK [simp]: "length mem = DefaultSize \<Longrightarrow> bufOK (buf_New mem)"
  by (simp add: bufOK_def buf_New_def DefaultSize_def DefaultHeadroom_def)

lemma buf_New_room [simp]: "Tailroom (buf_New mem) = length mem - 512" "Headroom (buf_New mem) = 512"
  by (simp_all add: Tailroom_def Headroom_def buf_New_def DefaultHeadroom_def)

lemma buf_New_Bytes [simp]: "buf_Bytes (buf_New mem) = []" "buf_Len (buf_New mem) = 0"
  by (simp_all add: buf_Bytes_def buf_Len_def buf_New_def)

lemma buf_As_OK [simp]: "bufOK (buf_As p)" "buf_Bytes (buf_As p) = p"
  by (simp_all add: bufOK_def buf_As_def buf_Bytes_def)

lemma length_buf_Bytes: "bufOK b \<Longrightarrow> length (buf_Bytes b) = buf_Len b"
  by (simp add: buf_Bytes_def buf_Len_def bufOK_def)

lemma splice_front:
  assumes "i + length h = s" "s \<le> e" "e \<le> length d"
  shows "drop i (take e (take i d @ h @ drop s d)) = h @ drop s (take e d)"
proof -
  have l: "length (take i d) = i" using assms by simp
  have "drop i (take e (take i d @ h @ drop s d)) = take (e - i) (drop i (take i d @ h @ drop s d))"
    by (rule drop_take)
  also have "drop i (take i d @ h @ drop s d) = h @ drop s d" using l by (metis append_eq_conv_conj)
  also have "take (e - i) (h @ drop s d) = h @ take (e - s) (drop s d)" using assms by auto
  finally show ?thesis by (simp add: drop_take)
qed

lemma splice_end:
  assumes "s \<le> e" "e + length p \<le> length d"
  shows "drop s (take (e + length p) (take e d @ p @ drop (e + length p) d)) = drop s (take e d) @ p"
proof -
  have l: "length (take e d) = e" using assms by simp
  then have "take (e + length p) (take e d @ p @ drop (e + length p) d) = take e d @ p" by simp
  then show ?thesis using assms l by simp
qed

lemma ExtendHeader_put:
  assumes "bufOK b" "length h \<le> Headroom b"
  obtains b' i where "ExtendHeader (length h) b = Some (b', i, length h)" "bufOK (putSlice i h b')"
    "buf_Bytes (putSlice i h b') = h @ buf_Bytes b" "Headroom (putSlice i h b') = Headroom b - length h"
    "Tailroom (putSlice i h b') = Tailroom b" "length (bb_data (putSlice i h b')) = length (bb_data b)"
proof
  let ?i = "bb_start b - length h" and ?b = "b\<lparr>bb_start := bb_start b - length h\<rparr>"
  have le: "length h \<le> bb_start b" "bb_start b \<le> bb_end b" "bb_end b \<le> length (bb_data b)"
    using assms by (simp_all add: bufOK_def Headroom_def)
  show "ExtendHeader (length h) b = Some (?b, ?i, length h)" using le by (simp add: ExtendHeader_def)
  show "bufOK (putSlice ?i h ?b)" using le by (simp add: bufOK_def putSlice_def)
  show "buf_Bytes (putSlice ?i h ?b) = h @ buf_Bytes b"
    using le splice_front [of ?i h "bb_start b" "bb_end b" "bb_data b"]
    by (simp add: buf_Bytes_def putSlice_def)
  show "Headroom (putSlice ?i h ?b) = Headroom b - length h" "Tailroom (putSlice ?i h ?b) = Tailroom b"
    "length (bb_data (putSlice ?i h ?b)) = length (bb_data b)"
    using le by (simp_all add: Headroom_def Tailroom_def putSlice_def)
qed

lemma ExtendTail_put:
  assumes "bufOK b" "length p \<le> Tailroom b"
  obtains b' i where "ExtendTail (length p) b = Some (b', i, length p)" "bufOK (putSlice i p b')"
    "buf_Bytes (putSlice i p b') = buf_Bytes b @ p" "Headroom (putSlice i p b') = Headroom b"
    "Tailroom (putSlice i p b') = Tailroom b - length p" "length (bb_data (putSlice i p b')) = length (bb_data b)"
proof
  let ?i = "bb_end b" and ?b = "b\<lparr>bb_end := bb_end b + length p\<rparr>"
  have le: "bb_start b \<le> bb_end b" "bb_end b + length p \<le> length (bb_data b)"
    using assms by (auto simp: bufOK_def Tailroom_def)
  show "ExtendTail (length p) b = Some (?b, ?i, length p)" using le by (simp add: ExtendTail_def)
  show "bufOK (putSlice ?i p ?b)" using le by (simp add: bufOK_def putSlice_def)
  show "buf_Bytes (putSlice ?i p ?b) = buf_Bytes b @ p"
    using le splice_end [of "bb_start b" "bb_end b" p "bb_data b"]
    by (simp add: buf_Bytes_def putSlice_def)
  show "Headroom (putSlice ?i p ?b) = Headroom b" "Tailroom (putSlice ?i p ?b) = Tailroom b - length p"
    "length (bb_data (putSlice ?i p ?b)) = length (bb_data b)"
    using le by (simp_all add: Headroom_def Tailroom_def putSlice_def)
qed

lemma buf_Advance: "bufOK b \<Longrightarrow> n \<le> buf_Len b \<Longrightarrow> bufOK (Advance n b) \<and> buf_Bytes (Advance n b) = drop n (buf_Bytes b)"
  by (auto simp: bufOK_def Advance_def buf_Bytes_def buf_Len_def add.commute)

lemma buf_Truncate: "bufOK b \<Longrightarrow> n \<le> buf_Len b \<Longrightarrow> bufOK (Truncate n b) \<and> buf_Bytes (Truncate n b) = take n (buf_Bytes b)"
  by (auto simp: bufOK_def Truncate_def buf_Bytes_def buf_Len_def take_drop min_def add.commute)

section \<open>Appending: the contract of the encoders\<close>

text \<open>An append either fits and is at the end of the payload, or is refused.\<close>

locale byte_sink =
  fixes put :: "bytes \<Rightarrow> 's \<Rightarrow> ('e, 's) result"
    and contents :: "'s \<Rightarrow> bytes" and room :: "'s \<Rightarrow> nat" and ok :: "'s \<Rightarrow> bool" and full :: 'e
  assumes put_fits: "ok s \<Longrightarrow> length p \<le> room s \<Longrightarrow>
      \<exists>s'. put p s = Inr s' \<and> ok s' \<and> contents s' = contents s @ p \<and> room s' = room s - length p"
    and put_full: "ok s \<Longrightarrow> room s < length p \<Longrightarrow> put p s = Inl full"
begin

lemma puts_fit: "ok s \<Longrightarrow> length (concat ps) \<le> room s \<Longrightarrow>
    \<exists>s'. fold_res put ps s = Inr s' \<and> ok s' \<and> contents s' = contents s @ concat ps
      \<and> room s' = room s - length (concat ps)"
proof (induction ps arbitrary: s)
  case (Cons p ps)
  have l: "length p \<le> room s" using Cons.prems(2) by simp
  obtain t where t: "put p s = Inr t" "ok t" "contents t = contents s @ p" "room t = room s - length p"
    using put_fits [OF Cons.prems(1) l] by blast
  have "length (concat ps) \<le> room t" using Cons.prems(2) t(4) by simp
  from Cons.IH [OF t(2) this] show ?case using t by auto
qed simp

lemma puts_full: "ok s \<Longrightarrow> room s < length (concat ps) \<Longrightarrow> fold_res put ps s = Inl full"
proof (induction ps arbitrary: s)
  case (Cons p ps)
  show ?case
  proof (cases "length p \<le> room s")
    case True
    obtain t where t: "put p s = Inr t" "ok t" "room t = room s - length p"
      using put_fits [OF Cons.prems(1) True] by blast
    have "room t < length (concat ps)" using Cons.prems(2) t(3) True by simp
    from Cons.IH [OF t(2) this] show ?thesis using t(1) by simp
  next
    case False
    then show ?thesis using put_full [of s p] Cons.prems(1) by simp
  qed
qed simp

end

text \<open>The append of the program: \<open>Write\<close> of a slice, \<open>WriteByte\<close> of one byte; on an error the caller gives
  the buffer up.\<close>

definition put :: "bytes \<Rightarrow> Buffer \<Rightarrow> (bufErr, Buffer) result" where
  "put p b = (case buf_Write p b of (b', _, None) \<Rightarrow> Inr b' | (_, _, Some e) \<Rightarrow> Inl e)"

definition put1 :: "u8 \<Rightarrow> Buffer \<Rightarrow> (bufErr, Buffer) result" where
  "put1 c b = (case buf_WriteByte c b of (b', None) \<Rightarrow> Inr b' | (_, Some e) \<Rightarrow> Inl e)"

lemma put1_put: "bufOK b \<Longrightarrow> put1 c b = put [c] b"
  by (cases "Tailroom b < 1")
    (auto simp: put1_def put_def buf_WriteByte_def buf_Write_def putSlice_def bufOK_def Tailroom_def Let_def
       upd_conv_take_nth_drop)

lemma put_fits_buf:
  assumes "bufOK b" "length p \<le> Tailroom b"
  shows "\<exists>b'. put p b = Inr b' \<and> bufOK b' \<and> buf_Bytes b' = buf_Bytes b @ p \<and> Tailroom b' = Tailroom b - length p"
proof -
  have le: "bb_start b \<le> bb_end b" "bb_end b + length p \<le> length (bb_data b)"
    using assms by (auto simp: bufOK_def Tailroom_def)
  let ?b = "putSlice (bb_end b) p b\<lparr>bb_end := bb_end b + length p\<rparr>"
  have "put p b = Inr ?b" using assms(2) by (simp add: put_def buf_Write_def Let_def)
  moreover have "bufOK ?b" "Tailroom ?b = Tailroom b - length p"
    using le by (auto simp: bufOK_def putSlice_def Tailroom_def)
  moreover have "buf_Bytes ?b = buf_Bytes b @ p"
    using le splice_end [of "bb_start b" "bb_end b" p "bb_data b"] by (simp add: buf_Bytes_def putSlice_def)
  ultimately show ?thesis by blast
qed

lemma put_full_buf: "Tailroom b < length p \<Longrightarrow> put p b = Inl ErrShortBuffer"
  by (simp add: put_def buf_Write_def Let_def min_def)

interpretation sink: byte_sink put buf_Bytes Tailroom bufOK ErrShortBuffer
  by unfold_locales (simp_all add: put_fits_buf put_full_buf)

lemma put_OK: "bufOK b \<Longrightarrow> put p b = Inr b' \<Longrightarrow> bufOK b'"
  using put_fits_buf [of b p] put_full_buf [of b p] by (cases "length p \<le> Tailroom b") auto

end
