(* ===== verification/Vless.thy ===== *)
theory Vless
  imports Handshake ByteBuf
begin

text \<open>
  VLESS (\<open>proto/vless\<close>): the request header written through a buffer and read back from a buffer or from
  a stream, the two handshakes, the lazily written response header and the datagram framing.  Vision
  (a third-party stream) enters as whether the layer below is TLS and whether its construction fails.
\<close>

unbundle bit_operations_syntax

section \<open>Header\<close>

abbreviation (input) "vlVersion \<equiv> (0 :: u8)"
abbreviation (input) "vlTCP \<equiv> (1 :: u8)"
abbreviation (input) "vlUDP \<equiv> (2 :: u8)"
abbreviation (input) "vlMux \<equiv> (3 :: u8)"
abbreviation (input) "vlIPv4 \<equiv> (1 :: u8)"
abbreviation (input) "vlDomain \<equiv> (2 :: u8)"
abbreviation (input) "vlIPv6 \<equiv> (3 :: u8)"

datatype vlessErr = VShort | VVersion | VAtyp | VIO ioErr | VBuf bufErr | VUnknownUser bytes | VKeyLen nat
  | VFlow string | VFlowUDP | VNotTLS | VVision | VTooLarge | VHex | VUUIDLen nat

record RequestHeader =
  rh_UUID :: bytes
  rh_Addons :: bytes
  rh_Command :: u8
  rh_Dst :: Socksaddr

abbreviation "zeroDst \<equiv> \<lparr> sa_Addr = AddrZero, sa_Fqdn = [], sa_Port = 0 \<rparr>"

definition vl_writeAddrPort :: "Socksaddr \<Rightarrow> Buffer \<Rightarrow> (bufErr, Buffer) result" where
  "vl_writeAddrPort d b =
    res_bind (put (be16 (sa_Port d)) b) (\<lambda>b.
      if IsFqdn d then
        res_bind (put1 vlDomain b) (\<lambda>b.
          res_bind (put1 (word_of_nat (length (sa_Fqdn d))) b) (put (bytes_of_string (sa_Fqdn d))))
      else case sa_Addr d of
        Addr4 w \<Rightarrow> res_bind (put1 vlIPv4 b) (put (be32 w))
      | a \<Rightarrow> res_bind (put1 vlIPv6 b) (put (As16 a)))"

definition vl_Encode :: "RequestHeader \<Rightarrow> Buffer \<Rightarrow> (bufErr, Buffer) result" where
  "vl_Encode h b =
    res_bind (put1 vlVersion b) (\<lambda>b.
      res_bind (put (rh_UUID h) b) (\<lambda>b.
        res_bind (put1 (word_of_nat (length (rh_Addons h))) b) (\<lambda>b.
          res_bind (if length (rh_Addons h) > 0 then put (rh_Addons h) b else Inr b) (\<lambda>b.
            res_bind (put1 (rh_Command h) b) (\<lambda>b.
              if rh_Command h = vlTCP \<or> rh_Command h = vlUDP then vl_writeAddrPort (rh_Dst h) b else Inr b)))))"

text \<open>The cursor over a byte slice: \<open>reader.u8\<close>, \<open>reader.u16\<close>, \<open>reader.read\<close>.\<close>

record reader =
  rd_b :: bytes
  rd_i :: nat

definition rd_u8 :: "reader \<Rightarrow> (vlessErr, u8 \<times> reader) result" where
  "rd_u8 r = (if rd_i r + 1 > length (rd_b r) then Inl VShort
     else Inr (rd_b r ! rd_i r, r\<lparr>rd_i := rd_i r + 1\<rparr>))"

definition rd_u16 :: "reader \<Rightarrow> (vlessErr, u16 \<times> reader) result" where
  "rd_u16 r = (if rd_i r + 2 > length (rd_b r) then Inl VShort
     else Inr (get16 (rd_b r ! rd_i r) (rd_b r ! (rd_i r + 1)), r\<lparr>rd_i := rd_i r + 2\<rparr>))"

definition rd_read :: "nat \<Rightarrow> reader \<Rightarrow> (vlessErr, bytes \<times> reader) result" where
  "rd_read n r = (if rd_i r + n > length (rd_b r) then Inl VShort
     else Inr (take n (drop (rd_i r) (rd_b r)), r\<lparr>rd_i := rd_i r + n\<rparr>))"

definition vl_readAddrPort :: "reader \<Rightarrow> (vlessErr, Socksaddr \<times> reader) result" where
  "vl_readAddrPort r =
    res_bind (rd_u16 r) (\<lambda>(port, r).
      res_bind (rd_u8 r) (\<lambda>(atyp, r).
        if atyp = vlIPv4 then
          res_bind (rd_read 4 r) (\<lambda>(a, r). Inr (FromIPPort \<lparr> ap_addr = AddrFrom4 a, ap_port = port \<rparr>, r))
        else if atyp = vlDomain then
          res_bind (rd_u8 r) (\<lambda>(l, r).
            res_bind (rd_read (unat l) r) (\<lambda>(name, r). Inr (FromFqdn (string_of_bytes name) port, r)))
        else if atyp = vlIPv6 then
          res_bind (rd_read 16 r) (\<lambda>(a, r). Inr (FromIPPort \<lparr> ap_addr = AddrFrom16 a, ap_port = port \<rparr>, r))
        else Inl VAtyp))"

definition vl_Decode :: "Buffer \<Rightarrow> (vlessErr, RequestHeader \<times> Buffer) result" where
  "vl_Decode src =
    res_bind (rd_u8 \<lparr> rd_b = buf_Bytes src, rd_i = 0 \<rparr>) (\<lambda>(v, r).
      if v \<noteq> vlVersion then Inl VVersion
      else
        res_bind (rd_read 16 r) (\<lambda>(uuid, r).
          res_bind (rd_u8 r) (\<lambda>(alen, r).
            res_bind (if alen > 0 then rd_read (unat alen) r else Inr ([], r)) (\<lambda>(addons, r).
              res_bind (rd_u8 r) (\<lambda>(cmd, r).
                res_bind (if cmd = vlTCP \<or> cmd = vlUDP then vl_readAddrPort r else Inr (zeroDst, r)) (\<lambda>(dst, r).
                  Inr (\<lparr> rh_UUID = uuid, rh_Addons = addons, rh_Command = cmd, rh_Dst = dst \<rparr>,
                       Advance (rd_i r) src)))))))"

definition EncodeResponseHeader :: "Buffer \<Rightarrow> (bufErr, Buffer) result" where
  "EncodeResponseHeader b = res_bind (put1 vlVersion b) (put1 0)"

section \<open>Reading from the stream\<close>

definition vio :: "(ioErr, 'a) result \<Rightarrow> (vlessErr, 'a) result" where
  "vio x = (case x of Inl e \<Rightarrow> Inl (VIO e) | Inr a \<Rightarrow> Inr a)"

definition readAddrPortStream :: "bytes \<Rightarrow> (vlessErr, Socksaddr \<times> bytes) result" where
  "readAddrPortStream s =
    res_bind (vio (readFull 3 s)) (\<lambda>(pa, s).
      let port = get16 (pa ! 0) (pa ! 1) in
      if pa ! 2 = vlIPv4 then
        res_bind (vio (readFull 4 s)) (\<lambda>(a, s). Inr (FromIPPort \<lparr> ap_addr = AddrFrom4 a, ap_port = port \<rparr>, s))
      else if pa ! 2 = vlDomain then
        res_bind (vio (readFull 1 s)) (\<lambda>(l, s).
          res_bind (vio (readFull (unat (l ! 0)) s)) (\<lambda>(name, s). Inr (FromFqdn (string_of_bytes name) port, s)))
      else if pa ! 2 = vlIPv6 then
        res_bind (vio (readFull 16 s)) (\<lambda>(a, s). Inr (FromIPPort \<lparr> ap_addr = AddrFrom16 a, ap_port = port \<rparr>, s))
      else Inl VAtyp)"

definition readRequestHeader :: "bytes \<Rightarrow> (vlessErr, RequestHeader \<times> bytes) result" where
  "readRequestHeader s =
    res_bind (vio (readFull 18 s)) (\<lambda>(fixed, s).
      if fixed ! 0 \<noteq> vlVersion then Inl VVersion
      else
        res_bind (if unat (fixed ! 17) > 0 then vio (readFull (unat (fixed ! 17)) s) else Inr ([], s)) (\<lambda>(addons, s).
          res_bind (vio (readFull 1 s)) (\<lambda>(cmd, s).
            res_bind (if cmd ! 0 = vlTCP \<or> cmd ! 0 = vlUDP then readAddrPortStream s else Inr (zeroDst, s)) (\<lambda>(d, s).
              Inr (\<lparr> rh_UUID = take 16 (drop 1 fixed), rh_Addons = addons, rh_Command = cmd ! 0, rh_Dst = d \<rparr>, s)))))"

definition writeRequestHeader :: "bytes \<Rightarrow> bytes \<Rightarrow> u8 \<Rightarrow> Socksaddr \<Rightarrow> (vlessErr, bytes) result" where
  "writeRequestHeader mem uuid cmd dst =
    (case vl_Encode \<lparr> rh_UUID = uuid, rh_Addons = [], rh_Command = cmd, rh_Dst = dst \<rparr> (buf_New mem) of
       Inl e \<Rightarrow> Inl (VBuf e) | Inr b \<Rightarrow> Inr (buf_Bytes b))"

section \<open>Handshakes\<close>

definition flowVision :: string where "flowVision = ''xtls-rprx-vision''"
definition CarrierFqdn :: string where "CarrierFqdn = ''v1.mux.cool''"
definition CarrierPort :: u16 where "CarrierPort = 9527"

definition encodeFlowAddon :: "string \<Rightarrow> bytes" where
  "encodeFlowAddon flow = [0x0A, word_of_nat (length flow)] @ bytes_of_string flow"

definition parseFlowAddon :: "bytes \<Rightarrow> string" where
  "parseFlowAddon addons =
    (if length addons \<ge> 2 \<and> addons ! 0 = 0x0A \<and> 2 + unat (addons ! 1) \<le> length addons
     then string_of_bytes (take (unat (addons ! 1)) (drop 2 addons)) else [])"

text \<open>The stream a handshake returns: the plain one, or Vision's on top of it.\<close>

datatype vstream = Plain | Vision

record belowLayer =
  bl_TLS :: bool
  bl_visionOK :: bool

definition vision :: "belowLayer \<Rightarrow> (vlessErr, vstream) result" where
  "vision below = (if \<not> bl_TLS below then Inl VNotTLS else if bl_visionOK below then Inr Vision else Inl VVision)"

definition vl_ServerHandshake ::
    "belowLayer \<Rightarrow> (bytes \<Rightarrow> 'r option) \<Rightarrow> bytes \<Rightarrow> (vlessErr, (vstream \<times> 'r Request) \<times> bytes) result" where
  "vl_ServerHandshake below auth s =
    res_bind (readRequestHeader s) (\<lambda>(h, s).
      case auth (rh_UUID h) of
        None \<Rightarrow> Inl (VUnknownUser (rh_UUID h))
      | Some ref \<Rightarrow>
          (let dst = (if rh_Command h = vlMux then FromFqdn CarrierFqdn CarrierPort else rh_Dst h);
               net = (if rh_Command h = vlUDP then UDP else TCP);
               rq = \<lparr> rq_Dst = dst, rq_Cred = ref, rq_Network = net, rq_Command = rh_Command h \<rparr> in
           if parseFlowAddon (rh_Addons h) = flowVision then
             (if rh_Command h = vlUDP then Inl VFlowUDP
              else res_bind (vision below) (\<lambda>vs. Inr ((vs, rq), s)))
           else Inr ((Plain, rq), s)))"

text \<open>
  A client handshake returns the stream and what has been written to the layer below.  With Vision the
  header is written by the first write (\<open>lazyWrite\<close>).
\<close>

definition vl_ClientHandshake ::
    "bytes \<Rightarrow> string \<Rightarrow> belowLayer \<Rightarrow> bytes \<Rightarrow> Socksaddr \<Rightarrow> (vlessErr, vstream \<times> bytes) result" where
  "vl_ClientHandshake mem flow below key dst =
    (if length key \<noteq> 16 then Inl (VKeyLen (length key))
     else if flow = flowVision then res_bind (vision below) (\<lambda>vs. Inr (vs, []))
     else if flow \<noteq> [] then Inl (VFlow flow)
     else
       (let cmd = (if IsFqdn dst \<and> sa_Fqdn dst = CarrierFqdn \<and> sa_Port dst = CarrierPort then vlMux else vlTCP) in
        res_bind (writeRequestHeader mem key cmd dst) (\<lambda>out. Inr (Plain, out))))"

record lazyClientStream =
  lz_uuid :: bytes
  lz_dst :: Socksaddr
  lz_addons :: bytes
  lz_wroteHdr :: bool

definition lazy_Write :: "bytes \<Rightarrow> bytes \<Rightarrow> lazyClientStream \<Rightarrow> lazyClientStream \<times> (vlessErr, bytes) result" where
  "lazy_Write mem p l =
    (if lz_wroteHdr l then (l, Inr p)
     else (l\<lparr>lz_wroteHdr := True\<rparr>,
       (case res_bind (vl_Encode \<lparr> rh_UUID = lz_uuid l, rh_Addons = lz_addons l, rh_Command = vlTCP, rh_Dst = lz_dst l \<rparr>
                  (buf_New mem)) (put p) of
          Inl e \<Rightarrow> Inl (VBuf e) | Inr b \<Rightarrow> Inr (buf_Bytes b))))"

definition vl_DialPacketConn :: "bytes \<Rightarrow> string \<Rightarrow> bytes \<Rightarrow> Socksaddr \<Rightarrow> (vlessErr, bytes) result" where
  "vl_DialPacketConn mem flow key dst =
    (if flow \<noteq> [] then Inl (VFlow flow)
     else if length key \<noteq> 16 then Inl (VKeyLen (length key))
     else writeRequestHeader mem key vlUDP dst)"

section \<open>The response header\<close>

text \<open>A write to the server's stream: whether the header was written before, and the bytes that go below.\<close>

definition srv_Write :: "bytes \<Rightarrow> bytes \<Rightarrow> bool \<Rightarrow> bool \<times> (vlessErr, bytes) result" where
  "srv_Write mem p wroteResp =
    (if wroteResp then (True, Inr p)
     else (True,
       (case res_bind (EncodeResponseHeader (buf_New mem)) (put p) of
          Inl e \<Rightarrow> Inl (VBuf e) | Inr b \<Rightarrow> Inr (buf_Bytes b))))"

text \<open>A read of the client's stream; \<open>n\<close> bytes are what the layer below hands out at most.\<close>

definition cli_Read :: "nat \<Rightarrow> bool \<Rightarrow> bytes \<Rightarrow> bool \<times> (vlessErr, bytes \<times> bytes) result" where
  "cli_Read n strippedResp s =
    (True,
     res_bind (if strippedResp then Inr s
       else
         res_bind (vio (readFull 2 s)) (\<lambda>(vh, s).
           if vh ! 0 \<noteq> vlVersion then Inl VVersion
           else if unat (vh ! 1) > 0 then res_bind (vio (readFull (unat (vh ! 1)) s)) (\<lambda>(_, s). Inr s)
           else Inr s))
       (\<lambda>s. if s = [] \<and> n > 0 then Inl (VIO EOF) else Inr (take n s, drop n s)))"

section \<open>Datagrams\<close>

definition vl_WritePacket :: "Buffer \<Rightarrow> (vlessErr, Buffer \<times> bytes) result option" where
  "vl_WritePacket b =
    (let n = buf_Len b in
     if n > 0xFFFF then Some (Inl VTooLarge)
     else case ExtendHeader 2 b of
       None \<Rightarrow> None
     | Some (b', i, _) \<Rightarrow> (let b' = putSlice i (be16 (word_of_nat n)) b' in Some (Inr (b', buf_Bytes b'))))"

definition vl_ReadPacket :: "Socksaddr \<Rightarrow> Buffer \<Rightarrow> bytes \<Rightarrow> (vlessErr, (Socksaddr \<times> Buffer) \<times> bytes) result option" where
  "vl_ReadPacket dst b s =
    (case vio (rd16 s) of
       Inl e \<Rightarrow> Some (Inl e)
     | Inr (w, s) \<Rightarrow>
         (if unat w > Tailroom b then Some (Inl VTooLarge)
          else case ExtendTail (unat w) b of
            None \<Rightarrow> None
          | Some (b', i, n) \<Rightarrow>
              Some (res_bind (vio (readFull n s)) (\<lambda>(p, s). Inr ((dst, putSlice i p b'), s)))))"

section \<open>Credentials\<close>

fun hexDecode :: "string \<Rightarrow> bytes option" where
  "hexDecode [] = Some []"
| "hexDecode [c] = None"
| "hexDecode (a # b # s) =
    (case (hexVal a, hexVal b, hexDecode s) of
       (Some x, Some y, Some r) \<Rightarrow> Some (word_of_nat (16 * x + y) # r)
     | _ \<Rightarrow> None)"

definition parseUUID :: "string \<Rightarrow> (vlessErr, bytes) result" where
  "parseUUID s =
    (case hexDecode (filter (\<lambda>c. c \<noteq> CHR ''-'') s) of
       None \<Rightarrow> Inl VHex
     | Some b \<Rightarrow> if length b \<noteq> 16 then Inl (VUUIDLen (length b)) else Inr b)"


section \<open>What is written\<close>

lemma put_then: "bufOK b \<Longrightarrow> (\<And>b'. bufOK b' \<Longrightarrow> f b' = fold_res put ps b') \<Longrightarrow>
    res_bind (put p b) f = fold_res put (p # ps) b"
  using put_OK [of b p] by (cases "put p b") auto

lemma put1_then: "bufOK b \<Longrightarrow> (\<And>b'. bufOK b' \<Longrightarrow> f b' = fold_res put ps b') \<Longrightarrow>
    res_bind (put1 c b) f = fold_res put ([c] # ps) b"
  using put_then [of b f ps "[c]"] by (simp add: put1_put)

lemma put_last: "put p b = fold_res put [p] b"
  by (cases "put p b") simp_all

lemma put1_last: "bufOK b \<Longrightarrow> put1 c b = fold_res put [[c]] b"
  using put_last [of "[c]" b] by (simp add: put1_put)

definition dstPieces :: "Socksaddr \<Rightarrow> bytes list" where
  "dstPieces d = be16 (sa_Port d) #
    (if IsFqdn d then [[vlDomain], [word_of_nat (length (sa_Fqdn d))], bytes_of_string (sa_Fqdn d)]
     else case sa_Addr d of Addr4 w \<Rightarrow> [[vlIPv4], be32 w] | a \<Rightarrow> [[vlIPv6], As16 a])"

definition hdrPieces :: "RequestHeader \<Rightarrow> bytes list" where
  "hdrPieces h = [[vlVersion], rh_UUID h, [word_of_nat (length (rh_Addons h))]]
     @ (if rh_Addons h = [] then [] else [rh_Addons h]) @ [[rh_Command h]]
     @ (if rh_Command h = vlTCP \<or> rh_Command h = vlUDP then dstPieces (rh_Dst h) else [])"

lemma vl_writeAddrPort_pieces: "bufOK b \<Longrightarrow> vl_writeAddrPort d b = fold_res put (dstPieces d) b"
  unfolding vl_writeAddrPort_def dstPieces_def
  by (intro put_then) (auto split: Addr.split intro!: put_then put1_then put_last simp del: fold_res.simps(2))

lemma vl_Encode_pieces: "bufOK b \<Longrightarrow> vl_Encode h b = fold_res put (hdrPieces h) b"
  unfolding vl_Encode_def hdrPieces_def
  by (cases "rh_Addons h = []"; cases "rh_Command h = vlTCP \<or> rh_Command h = vlUDP")
    (auto intro!: put_then put1_then put1_last vl_writeAddrPort_pieces simp del: fold_res.simps(2))

definition hdrBytes :: "RequestHeader \<Rightarrow> bytes" where
  "hdrBytes h = concat (hdrPieces h)"

lemma vl_Encode_fits: "bufOK b \<Longrightarrow> length (hdrBytes h) \<le> Tailroom b \<Longrightarrow>
    \<exists>b'. vl_Encode h b = Inr b' \<and> bufOK b' \<and> buf_Bytes b' = buf_Bytes b @ hdrBytes h
      \<and> Tailroom b' = Tailroom b - length (hdrBytes h)"
  unfolding hdrBytes_def vl_Encode_pieces by (rule sink.puts_fit)

lemma vl_Encode_full: "bufOK b \<Longrightarrow> Tailroom b < length (hdrBytes h) \<Longrightarrow> vl_Encode h b = Inl ErrShortBuffer"
  unfolding hdrBytes_def vl_Encode_pieces by (rule sink.puts_full)

definition okHdr :: "RequestHeader \<Rightarrow> bool" where
  "okHdr h = (length (rh_UUID h) = 16 \<and> length (rh_Addons h) \<le> 255 \<and> carriable (rh_Dst h))"

lemma hdrBytes_length: "okHdr h \<Longrightarrow> length (hdrBytes h) \<le> 534"
  by (auto simp: hdrBytes_def hdrPieces_def dstPieces_def okHdr_def carriable_def split: Addr.split)


section \<open>What is read\<close>

lemma unat_byte [simp]: "n \<le> 255 \<Longrightarrow> unat (word_of_nat n :: u8) = n"
  by (simp add: unat_of_nat)

lemma vio_simps [simp]: "vio (Inl e) = Inl (VIO e)" "vio (Inr a) = Inr a"
  by (simp_all add: vio_def)

lemma readAddrPortStream_dst:
  assumes "carriable d"
  shows "readAddrPortStream (concat (dstPieces d) @ rest) = Inr (arrives d, rest)"
proof -
  have h: "readFull 3 (x # y # t # u) = Inr ([x, y, t], u)" for x y t :: u8 and u
    by (simp add: readFull_def)
  show ?thesis using assms
    by (cases "IsFqdn d"; cases "sa_Addr d")
      (simp_all add: readAddrPortStream_def dstPieces_def h be16_def Let_def arrives_def carriable_def)
qed

definition arrivesHdr :: "RequestHeader \<Rightarrow> RequestHeader" where
  "arrivesHdr h = h\<lparr>rh_Dst := (if rh_Command h = vlTCP \<or> rh_Command h = vlUDP then arrives (rh_Dst h) else zeroDst)\<rparr>"

lemma readRequestHeader_hdrBytes:
  assumes "okHdr h"
  shows "readRequestHeader (hdrBytes h @ rest) = Inr (arrivesHdr h, rest)"
proof -
  let ?f = "vlVersion # rh_UUID h @ [word_of_nat (length (rh_Addons h))]"
  let ?d = "(if rh_Command h = vlTCP \<or> rh_Command h = vlUDP then concat (dstPieces (rh_Dst h)) else [])"
  have e: "hdrBytes h @ rest = ?f @ rh_Addons h @ rh_Command h # ?d @ rest"
    by (simp add: hdrBytes_def hdrPieces_def)
  have l: "length ?f = 18" "length (rh_UUID h) = 16" "length (rh_Addons h) \<le> 255" using assms by (simp_all add: okHdr_def)
  have f: "readFull 18 (?f @ t) = Inr (?f, t)" for t by (rule readFull_append') (use l in simp)
  have a: "?f ! 17 = word_of_nat (length (rh_Addons h))" using l by (simp add: nth_append)
  have d: "carriable (rh_Dst h)" using assms by (simp add: okHdr_def)
  show ?thesis unfolding readRequestHeader_def e f using l a d
    by (cases "rh_Addons h = []") (auto simp: readAddrPortStream_dst arrivesHdr_def)
qed

section \<open>The two decoders\<close>

definition left :: "reader \<Rightarrow> bytes" where
  "left r = drop (rd_i r) (rd_b r)"

text \<open>What a reader on the slice returned, against what was read from the stream of its bytes.\<close>

definition agree :: "bytes \<Rightarrow> (vlessErr, 'a \<times> reader) result \<Rightarrow> (vlessErr, 'a \<times> bytes) result \<Rightarrow> bool" where
  "agree b x y =
    (case x of
       Inr (a, r) \<Rightarrow> rd_b r = b \<and> rd_i r \<le> length b \<and> y = Inr (a, left r)
     | Inl e \<Rightarrow> (\<exists>e'. y = Inl e' \<and> (e = VShort \<longrightarrow> (\<exists>i. e' = VIO i)) \<and> (e' = VAtyp \<longrightarrow> e = VAtyp)))"

lemma agree_bind:
  assumes "agree b x y"
    and "\<And>a r. x = Inr (a, r) \<Longrightarrow> rd_b r = b \<Longrightarrow> rd_i r \<le> length b \<Longrightarrow> agree b (f (a, r)) (g (a, left r))"
  shows "agree b (res_bind x f) (res_bind y g)"
proof (cases x)
  case (Inl e)
  then show ?thesis using assms(1) by (auto simp: agree_def)
next
  case (Inr p)
  obtain a r where p: "x = Inr (a, r)" using Inr by (cases p) simp
  then have "rd_b r = b" "rd_i r \<le> length b" "y = Inr (a, left r)" using assms(1) by (simp_all add: agree_def)
  then show ?thesis using assms(2) [of a r] p by simp
qed

lemma agree_read: "rd_b r = b \<Longrightarrow> rd_i r \<le> length b \<Longrightarrow> agree b (rd_read n r) (vio (readFull n (left r)))"
  by (auto simp: agree_def rd_read_def readFull_def left_def add.commute)

lemma agree_Inr [intro]: "rd_b r = b \<Longrightarrow> rd_i r \<le> length b \<Longrightarrow> agree b (Inr (a, r)) (Inr (a, left r))"
  by (simp add: agree_def)

lemma agree_Inl [intro]: "agree b (Inl VAtyp) (Inl VAtyp)"
  by (simp add: agree_def)

lemma rd_u8_read: "rd_u8 r = res_bind (rd_read 1 r) (\<lambda>(p, r). Inr (p ! 0, r))"
  by (auto simp: rd_u8_def rd_read_def)

lemma rd_u16_read: "rd_u16 r = res_bind (rd_read 2 r) (\<lambda>(p, r). Inr (get16 (p ! 0) (p ! 1), r))"
  by (auto simp: rd_u16_def rd_read_def)

lemma read_port_atyp:
  "res_bind (rd_u16 r) (\<lambda>(port, r). res_bind (rd_u8 r) (\<lambda>(atyp, r). F port atyp r))
   = res_bind (rd_read 3 r) (\<lambda>(p, r). F (get16 (p ! 0) (p ! 1)) (p ! 2) r)"
  by (auto simp: rd_u16_def rd_u8_def rd_read_def numeral_3_eq_3)

lemma agree_u8_read:
  assumes "rd_b r = b" "rd_i r \<le> length b"
    and "\<And>l r. rd_b r = b \<Longrightarrow> rd_i r \<le> length b \<Longrightarrow> agree b (f (l, r)) (g (l, left r))"
  shows "agree b (res_bind (rd_u8 r) f) (res_bind (vio (readFull 1 (left r))) (\<lambda>(l, s). g (l ! 0, s)))"
proof -
  have "res_bind (rd_u8 r) f = res_bind (rd_read 1 r) (\<lambda>(p, r). f (p ! 0, r))"
    by (auto simp: rd_u8_def rd_read_def)
  then show ?thesis using assms by (auto intro!: agree_bind agree_read)
qed

lemma agree_addr:
  assumes "rd_b r = b" "rd_i r \<le> length b"
  shows "agree b (vl_readAddrPort r) (readAddrPortStream (left r))"
  unfolding vl_readAddrPort_def readAddrPortStream_def read_port_atyp Let_def
  by (rule agree_bind [OF agree_read [OF assms]])
    (auto intro!: agree_bind agree_read agree_u8_read [where g = "\<lambda>(l, s). res_bind (vio (readFull (unat l) s)) _", simplified])


text \<open>\<open>Decode\<close> up to the final \<open>Advance\<close>.\<close>

definition decodeFields :: "reader \<Rightarrow> (vlessErr, RequestHeader \<times> reader) result" where
  "decodeFields r =
    res_bind (rd_u8 r) (\<lambda>(v, r).
      if v \<noteq> vlVersion then Inl VVersion
      else
        res_bind (rd_read 16 r) (\<lambda>(uuid, r).
          res_bind (rd_u8 r) (\<lambda>(alen, r).
            res_bind (if alen > 0 then rd_read (unat alen) r else Inr ([], r)) (\<lambda>(addons, r).
              res_bind (rd_u8 r) (\<lambda>(cmd, r).
                res_bind (if cmd = vlTCP \<or> cmd = vlUDP then vl_readAddrPort r else Inr (zeroDst, r)) (\<lambda>(dst, r).
                  Inr (\<lparr> rh_UUID = uuid, rh_Addons = addons, rh_Command = cmd, rh_Dst = dst \<rparr>, r)))))))"

lemma vl_Decode_fields: "vl_Decode src =
    res_bind (decodeFields \<lparr> rd_b = buf_Bytes src, rd_i = 0 \<rparr>) (\<lambda>(h, r). Inr (h, Advance (rd_i r) src))"
  unfolding vl_Decode_def decodeFields_def
  by (auto simp: res_bind_def split: sum.split prod.split)

lemma decodeFields_short: "length b < 18 \<Longrightarrow>
    decodeFields \<lparr> rd_b = b, rd_i = 0 \<rparr> = Inl VShort \<or> decodeFields \<lparr> rd_b = b, rd_i = 0 \<rparr> = Inl VVersion"
  by (auto simp: decodeFields_def rd_u8_def rd_read_def)

lemma decodeFields_long:
  assumes "18 \<le> length b"
  shows "decodeFields \<lparr> rd_b = b, rd_i = 0 \<rparr> =
    (if b ! 0 \<noteq> vlVersion then Inl VVersion
     else res_bind (if unat (b ! 17) > 0 then rd_read (unat (b ! 17)) \<lparr> rd_b = b, rd_i = 18 \<rparr> else Inr ([], \<lparr> rd_b = b, rd_i = 18 \<rparr>))
       (\<lambda>(addons, r). res_bind (rd_u8 r) (\<lambda>(cmd, r).
          res_bind (if cmd = vlTCP \<or> cmd = vlUDP then vl_readAddrPort r else Inr (zeroDst, r)) (\<lambda>(dst, r).
            Inr (\<lparr> rh_UUID = take 16 (drop 1 b), rh_Addons = addons, rh_Command = cmd, rh_Dst = dst \<rparr>, r)))))"
proof -
  have "rd_u8 \<lparr> rd_b = b, rd_i = 0 \<rparr> = Inr (b ! 0, \<lparr> rd_b = b, rd_i = 1 \<rparr>)" using assms by (auto simp: rd_u8_def)
  moreover have "rd_read 16 \<lparr> rd_b = b, rd_i = 1 \<rparr> = Inr (take 16 (drop 1 b), \<lparr> rd_b = b, rd_i = 17 \<rparr>)"
    using assms by (simp add: rd_read_def)
  moreover have "rd_u8 \<lparr> rd_b = b, rd_i = 17 \<rparr> = Inr (b ! 17, \<lparr> rd_b = b, rd_i = 18 \<rparr>)"
    using assms by (simp add: rd_u8_def)
  ultimately show ?thesis by (simp add: decodeFields_def word_gt_0 unat_gt_0)
qed

lemma agree_fields: "agree b (decodeFields \<lparr> rd_b = b, rd_i = 0 \<rparr>) (readRequestHeader b)"
proof (cases "18 \<le> length b")
  case False
  then have "\<exists>i. readRequestHeader b = Inl (VIO i)" by (simp add: readRequestHeader_def readFull_def)
  then show ?thesis using decodeFields_short [of b] False by (auto simp: agree_def)
next
  case True
  let ?r = "\<lparr> rd_b = b, rd_i = 18 \<rparr>"
  have l: "left ?r = drop 18 b" by (simp add: left_def)
  have s: "readFull 18 b = Inr (take 18 b, left ?r)" using True by (simp add: readFull_def left_def)
  have n: "take 18 b ! 0 = b ! 0" "take 18 b ! 17 = b ! 17" "take 16 (drop 1 (take 18 b)) = take 16 (drop 1 b)"
    by (simp_all add: drop_take)
  have r: "rd_b ?r = b" "rd_i ?r \<le> length b" using True by simp_all
  show ?thesis
  proof (cases "b ! 0 = vlVersion")
    case ver: True
    show ?thesis unfolding decodeFields_long [OF True] readRequestHeader_def s vio_simps res_bind_simps prod.case n using ver
      by (simp, intro conjI impI agree_bind agree_read agree_addr r)
        (auto intro!: agree_bind agree_read agree_addr r
           agree_u8_read [where g = "\<lambda>(c, s). res_bind (if c = vlTCP \<or> c = vlUDP then readAddrPortStream s else Inr (zeroDst, s)) (F c)" for F, simplified])
  next
    case False
    then show ?thesis unfolding decodeFields_long [OF True] readRequestHeader_def s vio_simps res_bind_simps prod.case n
      by (simp add: agree_def)
  qed
qed


lemma decoders_agree_aux:
  assumes "bufOK src"
  shows "case vl_Decode src of
      Inr (h, src') \<Rightarrow> bufOK src' \<and> readRequestHeader (buf_Bytes src) = Inr (h, buf_Bytes src')
    | Inl e \<Rightarrow> (\<exists>e'. readRequestHeader (buf_Bytes src) = Inl e' \<and> (e = VShort \<longrightarrow> (\<exists>i. e' = VIO i)))"
proof -
  let ?b = "buf_Bytes src"
  have a: "agree ?b (decodeFields \<lparr> rd_b = ?b, rd_i = 0 \<rparr>) (readRequestHeader ?b)" by (rule agree_fields)
  show ?thesis
  proof (cases "decodeFields \<lparr> rd_b = ?b, rd_i = 0 \<rparr>")
    case (Inl e)
    then show ?thesis using a by (auto simp: vl_Decode_fields agree_def)
  next
    case (Inr p)
    obtain h r where p: "p = (h, r)" by fastforce
    have r: "rd_b r = ?b" "rd_i r \<le> length ?b" "readRequestHeader ?b = Inr (h, left r)"
      using a Inr p by (simp_all add: agree_def)
    have "bufOK (Advance (rd_i r) src) \<and> buf_Bytes (Advance (rd_i r) src) = drop (rd_i r) ?b"
      by (rule buf_Advance [OF assms]) (use r(2) length_buf_Bytes [OF assms] in simp)
    then show ?thesis using Inr p r by (simp add: vl_Decode_fields left_def)
  qed
qed

section \<open>Both sides\<close>

definition vl_cmd :: "Network \<Rightarrow> Socksaddr \<Rightarrow> u8" where
  "vl_cmd net d = (if net = UDP then vlUDP
     else if IsFqdn d \<and> sa_Fqdn d = CarrierFqdn \<and> sa_Port d = CarrierPort then vlMux else vlTCP)"

definition vl_hello :: "bytes \<Rightarrow> bytes \<times> Network \<Rightarrow> Socksaddr \<Rightarrow> bytes" where
  "vl_hello key c d = hdrBytes \<lparr> rh_UUID = key, rh_Addons = fst c, rh_Command = vl_cmd (snd c) d, rh_Dst = d \<rparr>"

definition vl_serve :: "belowLayer \<Rightarrow> (bytes \<Rightarrow> 'r option) \<Rightarrow> bytes \<Rightarrow> (vlessErr, 'r Request \<times> bytes) result" where
  "vl_serve below auth s = res_bind (vl_ServerHandshake below auth s) (\<lambda>((_, rq), s). Inr (rq, s))"

definition vl_req :: "bytes \<times> Network \<Rightarrow> Socksaddr \<Rightarrow> 'r \<Rightarrow> 'r Request" where
  "vl_req c d ref = \<lparr> rq_Dst = arrives d, rq_Cred = ref, rq_Network = snd c, rq_Command = vl_cmd (snd c) d \<rparr>"

definition vl_ok :: "bytes \<times> Network \<Rightarrow> Socksaddr \<Rightarrow> bool" where
  "vl_ok c d = (carriable d \<and> length (fst c) \<le> 255 \<and> parseFlowAddon (fst c) \<noteq> flowVision)"

lemma vl_header_back:
  assumes "length key = 16" "carriable d" "length addons \<le> 255"
  shows "readRequestHeader (vl_hello key (addons, net) d @ rest)
    = Inr (\<lparr> rh_UUID = key, rh_Addons = addons, rh_Command = vl_cmd net d,
             rh_Dst = (if vl_cmd net d = vlMux then zeroDst else arrives d) \<rparr>, rest)"
  using readRequestHeader_hdrBytes [of "\<lparr> rh_UUID = key, rh_Addons = addons, rh_Command = vl_cmd net d, rh_Dst = d \<rparr>" rest] assms
  by (auto simp: vl_hello_def okHdr_def arrivesHdr_def vl_cmd_def)

lemma vl_carrier: "vl_cmd net d = vlMux \<Longrightarrow> arrives d = FromFqdn CarrierFqdn CarrierPort"
  by (auto simp: vl_cmd_def arrives_def split: if_splits)

lemma vl_server_sees:
  assumes "length key = 16" "vl_ok c d"
  shows "vl_ServerHandshake below auth (vl_hello key c d @ rest) =
    (case auth key of None \<Rightarrow> Inl (VUnknownUser key) | Some ref \<Rightarrow> Inr ((Plain, vl_req c d ref), rest))"
proof -
  obtain addons net where c: "c = (addons, net)" by fastforce
  have net: "(if vl_cmd net d = vlUDP then UDP else TCP) = net"
    by (cases net) (simp_all add: vl_cmd_def)
  have dst: "(if vl_cmd net d = vlMux then FromFqdn CarrierFqdn CarrierPort
      else if vl_cmd net d = vlMux then zeroDst else arrives d) = arrives d"
    using vl_carrier [of net d] by simp
  have h: "readRequestHeader (vl_hello key (addons, net) d @ rest)
    = Inr (\<lparr> rh_UUID = key, rh_Addons = addons, rh_Command = vl_cmd net d,
             rh_Dst = (if vl_cmd net d = vlMux then zeroDst else arrives d) \<rparr>, rest)"
    by (rule vl_header_back) (use assms c in \<open>simp_all add: vl_ok_def\<close>)
  have f: "parseFlowAddon addons \<noteq> flowVision" using assms(2) c by (simp add: vl_ok_def)
  show ?thesis unfolding c vl_ServerHandshake_def h using net dst f
    by (auto simp: Let_def vl_req_def split: option.split if_splits)
qed

interpretation vless: proxy_pair vl_hello "vl_serve below" "\<lambda>k. k" "\<lambda>k. length k = 16" vl_ok vl_req VUnknownUser
  by unfold_locales (simp_all add: vl_serve_def vl_server_sees)

lemma writeRequestHeader_eq:
  assumes "length key = 16" "carriable d" "length mem = DefaultSize"
  shows "writeRequestHeader mem key cmd d = Inr (hdrBytes \<lparr> rh_UUID = key, rh_Addons = [], rh_Command = cmd, rh_Dst = d \<rparr>)"
proof -
  let ?h = "\<lparr> rh_UUID = key, rh_Addons = [], rh_Command = cmd, rh_Dst = d \<rparr>"
  have "length (hdrBytes ?h) \<le> Tailroom (buf_New mem)"
    using hdrBytes_length [of ?h] assms by (simp add: okHdr_def DefaultSize_def)
  from vl_Encode_fits [OF buf_New_OK [OF assms(3)] this] show ?thesis
    by (auto simp: writeRequestHeader_def)
qed

lemma vl_ClientHandshake_eq: "length key = 16 \<Longrightarrow> carriable d \<Longrightarrow> length mem = DefaultSize \<Longrightarrow>
    vl_ClientHandshake mem [] below key d = Inr (Plain, vl_hello key ([], TCP) d)"
  by (simp add: vl_ClientHandshake_def flowVision_def Let_def writeRequestHeader_eq vl_hello_def vl_cmd_def)

lemma vl_DialPacketConn_eq: "length key = 16 \<Longrightarrow> carriable d \<Longrightarrow> length mem = DefaultSize \<Longrightarrow>
    vl_DialPacketConn mem [] key d = Inr (vl_hello key ([], UDP) d)"
  by (simp add: vl_DialPacketConn_def writeRequestHeader_eq vl_hello_def vl_cmd_def)

text \<open>With Vision the header goes out with the first write, and the server answers with its own Vision stream.\<close>

lemma flowAddon_back: "length flow \<le> 255 \<Longrightarrow> parseFlowAddon (encodeFlowAddon flow) = flow"
  by (simp add: parseFlowAddon_def encodeFlowAddon_def)

lemma vl_ok_plain: "carriable d \<Longrightarrow> vl_ok ([], net) d"
  by (simp add: vl_ok_def parseFlowAddon_def flowVision_def)


lemma vless_vision:
  assumes "length uuid = 16" "carriable d" "length mem = DefaultSize" "length p \<le> 31000"
    and "bl_TLS below" "bl_visionOK below" "auth uuid = Some ref"
  shows "\<exists>l' out. lazy_Write mem p \<lparr> lz_uuid = uuid, lz_dst = d, lz_addons = encodeFlowAddon flowVision, lz_wroteHdr = False \<rparr>
        = (l', Inr out) \<and> lz_wroteHdr l'
      \<and> vl_ServerHandshake below auth out
        = Inr ((Vision, \<lparr> rq_Dst = arrives d, rq_Cred = ref, rq_Network = TCP, rq_Command = vlTCP \<rparr>), p)"
proof -
  let ?h = "\<lparr> rh_UUID = uuid, rh_Addons = encodeFlowAddon flowVision, rh_Command = vlTCP, rh_Dst = d \<rparr>"
  have a: "length (encodeFlowAddon flowVision) \<le> 255" by (simp add: encodeFlowAddon_def flowVision_def)
  have ok: "okHdr ?h" using assms a by (simp add: okHdr_def)
  have room: "length (hdrBytes ?h) \<le> Tailroom (buf_New mem)"
    using hdrBytes_length [OF ok] assms(3) by (simp add: DefaultSize_def)
  obtain b where b: "vl_Encode ?h (buf_New mem) = Inr b" "bufOK b" "buf_Bytes b = hdrBytes ?h"
      "Tailroom b = Tailroom (buf_New mem) - length (hdrBytes ?h)"
    using vl_Encode_fits [OF buf_New_OK [OF assms(3)] room] by auto
  have "length p \<le> Tailroom b" using b(4) hdrBytes_length [OF ok] assms(3,4) by (simp add: DefaultSize_def)
  then obtain b' where b': "put p b = Inr b'" "buf_Bytes b' = hdrBytes ?h @ p"
    using put_fits_buf [OF b(2), of p] b(3) by auto
  have "parseFlowAddon (encodeFlowAddon flowVision) = flowVision"
    by (rule flowAddon_back) (simp add: flowVision_def)
  then have "vl_ServerHandshake below auth (hdrBytes ?h @ p)
        = Inr ((Vision, \<lparr> rq_Dst = arrives d, rq_Cred = ref, rq_Network = TCP, rq_Command = vlTCP \<rparr>), p)"
    using assms(5-7) by (simp add: vl_ServerHandshake_def readRequestHeader_hdrBytes [OF ok] arrivesHdr_def vision_def)
  then show ?thesis using b b' by (simp add: lazy_Write_def)
qed

lemma vless_opens_aux:
  assumes "length key = 16" "carriable d" "length mem = DefaultSize"
  shows "\<exists>out. vl_ClientHandshake mem [] below key d = Inr (Plain, out) \<and>
      vl_ServerHandshake below' auth (out @ payload) =
        (case auth key of None \<Rightarrow> Inl (VUnknownUser key)
         | Some ref \<Rightarrow> Inr ((Plain, \<lparr> rq_Dst = arrives d, rq_Cred = ref, rq_Network = TCP, rq_Command = vl_cmd TCP d \<rparr>), payload))"
    "\<exists>out. vl_DialPacketConn mem [] key d = Inr out \<and>
      vl_ServerHandshake below' auth (out @ payload) =
        (case auth key of None \<Rightarrow> Inl (VUnknownUser key)
         | Some ref \<Rightarrow> Inr ((Plain, \<lparr> rq_Dst = arrives d, rq_Cred = ref, rq_Network = UDP, rq_Command = vlUDP \<rparr>), payload))"
  by (simp_all add: vl_ClientHandshake_eq [OF assms] vl_DialPacketConn_eq [OF assms]
      vl_server_sees [OF assms(1) vl_ok_plain [OF assms(2)]] vl_req_def vl_cmd_def split: option.split)

section \<open>Responses and datagrams\<close>

lemma first_write:
  assumes "length mem = DefaultSize"
  shows "srv_Write mem p False = (True, if length p \<le> 32254 then Inr ([vlVersion, 0] @ p) else Inl (VBuf ErrShortBuffer))"
proof -
  have ok: "bufOK (buf_New mem)" "Tailroom (buf_New mem) = 32256" using assms by (simp_all add: DefaultSize_def)
  have e: "EncodeResponseHeader (buf_New mem) = fold_res put [[vlVersion], [0]] (buf_New mem)"
    unfolding EncodeResponseHeader_def by (intro put1_then ok) (rule put1_last)
  obtain b where b: "EncodeResponseHeader (buf_New mem) = Inr b" "bufOK b" "buf_Bytes b = [vlVersion, 0]" "Tailroom b = 32254"
    using sink.puts_fit [OF ok(1), of "[[vlVersion], [0]]"] ok(2) e by auto
  show ?thesis
  proof (cases "length p \<le> 32254")
    case True
    then obtain b' where "put p b = Inr b'" "buf_Bytes b' = [vlVersion, 0] @ p"
      using put_fits_buf [OF b(2), of p] b(3,4) by auto
    then show ?thesis using b(1) True by (simp add: srv_Write_def)
  next
    case False
    then show ?thesis using b(1,4) put_full_buf [of b p] by (simp add: srv_Write_def)
  qed
qed

lemma first_read: "s \<noteq> [] \<Longrightarrow> cli_Read n False (vlVersion # 0 # s) = (True, Inr (take n s, drop n s))"
  by (simp add: cli_Read_def readFull_def)

text \<open>One datagram on the wire.\<close>

definition vl_frame :: "bytes \<Rightarrow> bytes" where
  "vl_frame p = be16 (word_of_nat (length p)) @ p"

lemma vl_write_frame:
  assumes "bufOK b" "2 \<le> Headroom b" "buf_Len b \<le> 0xFFFF"
  shows "\<exists>b'. vl_WritePacket b = Some (Inr (b', vl_frame (buf_Bytes b))) \<and> length (bb_data b') = length (bb_data b)"
proof -
  let ?h = "be16 (word_of_nat (buf_Len b))"
  have l: "length ?h \<le> Headroom b" using assms(2) by simp
  obtain c i where c: "ExtendHeader 2 b = Some (c, i, 2)" "buf_Bytes (putSlice i ?h c) = ?h @ buf_Bytes b"
      "length (bb_data (putSlice i ?h c)) = length (bb_data b)"
    using ExtendHeader_put [OF assms(1) l, unfolded length_be] by blast
  then show ?thesis using assms(3) length_buf_Bytes [OF assms(1)]
    by (simp add: vl_WritePacket_def vl_frame_def Let_def)
qed

lemma vl_read_frame:
  assumes "bufOK b" "length p \<le> 0xFFFF" "length p \<le> Tailroom b"
  shows "\<exists>b'. vl_ReadPacket dst b (vl_frame p @ rest) = Some (Inr ((dst, b'), rest)) \<and> bufOK b'
      \<and> buf_Bytes b' = buf_Bytes b @ p \<and> Headroom b' = Headroom b \<and> length (bb_data b') = length (bb_data b)"
proof -
  have u: "unat (word_of_nat (length p) :: u16) = length p" using assms(2) by (simp add: unat_of_nat)
  obtain d j where d: "ExtendTail (length p) b = Some (d, j, length p)" "bufOK (putSlice j p d)"
      "buf_Bytes (putSlice j p d) = buf_Bytes b @ p" "Headroom (putSlice j p d) = Headroom b"
      "length (bb_data (putSlice j p d)) = length (bb_data b)"
    using ExtendTail_put [OF assms(1,3)] by blast
  then show ?thesis using assms(3) u by (simp add: vl_ReadPacket_def vl_frame_def)
qed

section \<open>Properties\<close>

text \<open>
  The header decoder that works on a buffer and the one that reads from the stream agree on every
  buffer: where the first returns a header, the second returns the same header and leaves the same
  bytes; where the first refuses, so does the second, and a header that is too short is an end of
  input there.
\<close>

theorem vless_decoders_agree:
  assumes "bufOK src"
  shows "case vl_Decode src of
      Inr (h, src') \<Rightarrow> bufOK src' \<and> readRequestHeader (buf_Bytes src) = Inr (h, buf_Bytes src')
    | Inl e \<Rightarrow> (\<exists>e'. readRequestHeader (buf_Bytes src) = Inl e' \<and> (e = VShort \<longrightarrow> (\<exists>i. e' = VIO i)))"
  by (rule decoders_agree_aux [OF assms])

text \<open>
  C19: For a 16-byte user identifier, a destination whose name fits the wire and a buffer from the
  pool, the TCP handshake and the UDP handshake of the client both succeed, and the server reading
  what they wrote followed by any payload either refuses the unknown user or returns the user, the
  network and the destination (without an IPv6 zone), with exactly the payload left to read.
\<close>

theorem vless_opens:
  assumes "length key = 16" "carriable d" "length mem = DefaultSize"
  shows "(\<exists>out. vl_ClientHandshake mem [] below key d = Inr (Plain, out) \<and>
      vl_ServerHandshake below' auth (out @ payload) =
        (case auth key of None \<Rightarrow> Inl (VUnknownUser key)
         | Some ref \<Rightarrow> Inr ((Plain, \<lparr> rq_Dst = arrives d, rq_Cred = ref, rq_Network = TCP, rq_Command = vl_cmd TCP d \<rparr>), payload)))
   \<and> (\<exists>out. vl_DialPacketConn mem [] key d = Inr out \<and>
      vl_ServerHandshake below' auth (out @ payload) =
        (case auth key of None \<Rightarrow> Inl (VUnknownUser key)
         | Some ref \<Rightarrow> Inr ((Plain, \<lparr> rq_Dst = arrives d, rq_Cred = ref, rq_Network = UDP, rq_Command = vlUDP \<rparr>), payload)))"
  using vless_opens_aux [OF assms] by blast

text \<open>
  C20: The first write to the server's stream goes below, behind the two bytes of the response header,
  exactly when it is at most 32254 bytes, and then the client's first read delivers the payload
  without the header; a longer first write fails for lack of buffer space (the relay copies in pieces
  of up to 32768 bytes).
\<close>

theorem vless_first_write:
  assumes "length mem = DefaultSize"
  shows "(length p \<le> 32254 \<longrightarrow> srv_Write mem p False = (True, Inr ([0, 0] @ p))
        \<and> (p @ after \<noteq> [] \<longrightarrow> cli_Read n False ([0, 0] @ p @ after) = (True, Inr (take n (p @ after), drop n (p @ after)))))
    \<and> (32254 < length p \<longrightarrow> srv_Write mem p False = (True, Inl (VBuf ErrShortBuffer)))"
  using first_write [OF assms, of p] first_read [of "p @ after" n] by simp


definition w_dst :: Socksaddr where
  "w_dst = \<lparr> sa_Addr = Addr4 0x01020304, sa_Fqdn = [], sa_Port = 443 \<rparr>"

theorem vless_decoders_agree_witness:
  "case vl_Decode (buf_As [1, 2, 3]) of
      Inr (h, src') \<Rightarrow> bufOK src' \<and> readRequestHeader (buf_Bytes (buf_As [1, 2, 3])) = Inr (h, buf_Bytes src')
    | Inl e \<Rightarrow> (\<exists>e'. readRequestHeader (buf_Bytes (buf_As [1, 2, 3])) = Inl e' \<and> (e = VShort \<longrightarrow> (\<exists>i. e' = VIO i)))"
  by (rule vless_decoders_agree) simp

theorem vless_opens_witness:
  "\<exists>out. vl_ClientHandshake (replicate DefaultSize 0) [] \<lparr> bl_TLS = True, bl_visionOK = True \<rparr> (replicate 16 7) w_dst = Inr (Plain, out) \<and>
      vl_ServerHandshake \<lparr> bl_TLS = True, bl_visionOK = True \<rparr> [replicate 16 7 \<mapsto> (5 :: nat)] (out @ [1, 2, 3])
      = Inr ((Plain, \<lparr> rq_Dst = w_dst, rq_Cred = 5, rq_Network = TCP, rq_Command = 1 \<rparr>), [1, 2, 3])"
proof -
  have a: "arrives w_dst = w_dst" by (simp add: w_dst_def arrives_def IsFqdn_def FromIPPort_def)
  have c: "vl_cmd TCP w_dst = 1" by (simp add: w_dst_def vl_cmd_def IsFqdn_def)
  show ?thesis
    using vless_opens [of "replicate 16 7" w_dst "replicate DefaultSize 0" "\<lparr> bl_TLS = True, bl_visionOK = True \<rparr>"
      "\<lparr> bl_TLS = True, bl_visionOK = True \<rparr>" "[replicate 16 7 \<mapsto> (5 :: nat)]" "[1, 2, 3]"] a c
    by (simp add: w_dst_def carriable_def)
qed

theorem vless_first_write_witness:
  "srv_Write (replicate DefaultSize 0) (replicate 32768 9) False = (True, Inl (VBuf ErrShortBuffer))"
  using vless_first_write [of "replicate DefaultSize 0" "replicate 32768 9"] by simp

end
