(* ===== verification/Sha224.thy ===== *)
theory Sha224
  imports Wire
begin

text \<open>
  \<open>sha256.Sum224\<close> and \<open>hex.Encode\<close> of the Go standard library, as the Trojan protocol uses them
  (FIPS 180-4).
\<close>

unbundle bit_operations_syntax

text \<open>
  The constants are defined as the standard defines them: the fractional parts of roots of the first
  primes.  \<open>iroot e n\<close> is the integer part of the \<open>e\<close>-th root of \<open>n < 2 ^ 144\<close>, bit by bit.
\<close>

definition firstPrimes :: "nat \<Rightarrow> nat list" where
  "firstPrimes k = take k (filter (\<lambda>n. list_all (\<lambda>d. n mod d \<noteq> 0) [2..<n]) [2..<312])"

fun rootBits :: "nat \<Rightarrow> nat \<Rightarrow> nat \<Rightarrow> nat \<Rightarrow> nat" where
  "rootBits e n 0 r = r"
| "rootBits e n (Suc b) r = rootBits e n b (if (r + 2 ^ b) ^ e \<le> n then r + 2 ^ b else r)"

definition iroot :: "nat \<Rightarrow> nat \<Rightarrow> nat" where
  "iroot e n = rootBits e n 72 0"

definition sha256_K :: "u32 list" where
  "sha256_K = map (\<lambda>p. word_of_nat (iroot 3 (p * 2 ^ 96))) (firstPrimes 64)"

type_synonym hash8 = "u32 \<times> u32 \<times> u32 \<times> u32 \<times> u32 \<times> u32 \<times> u32 \<times> u32"

text \<open>The second 32 bits of the fractional parts of the square roots of the 9th to 16th prime.\<close>

definition sha224_init :: hash8 where
  "sha224_init =
    (let h = map (\<lambda>p. word_of_nat (iroot 2 (p * 2 ^ 128))) (drop 8 (firstPrimes 16)) in
     (h ! 0, h ! 1, h ! 2, h ! 3, h ! 4, h ! 5, h ! 6, h ! 7))"

text \<open>The message schedule, latest word first.\<close>

definition schedNext :: "u32 list \<Rightarrow> u32" where
  "schedNext ws =
    (let a = ws ! 14; b = ws ! 1;
         s0 = word_rotr 7 a XOR word_rotr 18 a XOR drop_bit 3 a;
         s1 = word_rotr 17 b XOR word_rotr 19 b XOR drop_bit 10 b in
     ws ! 15 + s0 + ws ! 6 + s1)"

fun schedule :: "nat \<Rightarrow> u32 list \<Rightarrow> u32 list" where
  "schedule 0 ws = rev ws"
| "schedule (Suc n) ws = schedule n (schedNext ws # ws)"

definition sha_round :: "u32 \<times> u32 \<Rightarrow> hash8 \<Rightarrow> hash8" where
  "sha_round kw = (\<lambda>(a, b, c, d, e, f, g, h).
    (let t1 = h + (word_rotr 6 e XOR word_rotr 11 e XOR word_rotr 25 e)
            + ((e AND f) XOR (NOT e AND g)) + fst kw + snd kw;
         t2 = (word_rotr 2 a XOR word_rotr 13 a XOR word_rotr 22 a)
            + ((a AND b) XOR (a AND c) XOR (b AND c)) in
     (t1 + t2, a, b, c, d + t1, e, f, g)))"

fun words32 :: "bytes \<Rightarrow> u32 list" where
  "words32 (a # b # c # d # r) = get32 a b c d # words32 r"
| "words32 _ = []"

definition sha_block :: "bytes \<Rightarrow> hash8 \<Rightarrow> hash8" where
  "sha_block blk s =
    (let (a, b, c, d, e, f, g, h) = fold sha_round (zip sha256_K (schedule 48 (rev (words32 blk)))) s in
     case s of (a', b', c', d', e', f', g', h') \<Rightarrow>
       (a + a', b + b', c + c', d + d', e + e', f + f', g + g', h + h'))"

definition sha_pad :: "bytes \<Rightarrow> bytes" where
  "sha_pad m = m @ [0x80] @ replicate ((119 - length m mod 64) mod 64) 0 @ be64 (word_of_nat (8 * length m))"

fun sha_blocks :: "nat \<Rightarrow> bytes \<Rightarrow> hash8 \<Rightarrow> hash8" where
  "sha_blocks 0 m s = s"
| "sha_blocks (Suc n) m s = sha_blocks n (drop 64 m) (sha_block (take 64 m) s)"

definition Sum224 :: "bytes \<Rightarrow> bytes" where
  "Sum224 m =
    (let p = sha_pad m in
     case sha_blocks (length p div 64) p sha224_init of (a, b, c, d, e, f, g, h) \<Rightarrow>
       concat (map be32 [a, b, c, d, e, f, g]))"

lemma length_Sum224 [simp]: "length (Sum224 m) = 28"
  by (simp add: Sum224_def Let_def split: prod.split)

definition hexDigit :: "u8 \<Rightarrow> u8" where
  "hexDigit n = (if n < 10 then 48 + n else 87 + n)"

fun hexEncode :: "bytes \<Rightarrow> bytes" where
  "hexEncode [] = []"
| "hexEncode (b # bs) = hexDigit (drop_bit 4 b) # hexDigit (b AND 15) # hexEncode bs"

lemma length_hexEncode [simp]: "length (hexEncode bs) = 2 * length bs"
  by (induction bs rule: hexEncode.induct) simp_all

end
