(* ===== verification/Trojan.thy ===== *)
theory Trojan
  imports Handshake ByteBuf Sha224
begin

text \<open>
  Trojan (\<open>proto/trojan\<close>): the authentication header, the two handshakes, and datagrams that each carry
  their own address.  What is written to a \<open>bytes.Buffer\<close> is a byte list, since that buffer grows.
\<close>

unbundle bit_operations_syntax

section \<open>Header\<close>

definition hashLen :: nat where "hashLen = 56"

abbreviation (input) "tjConnect \<equiv> (1 :: u8)"
abbreviation (input) "tjUDP \<equiv> (3 :: u8)"
abbreviation (input) "tjIPv4 \<equiv> (1 :: u8)"
abbreviation (input) "tjDomain \<equiv> (3 :: u8)"
abbreviation (input) "tjIPv6 \<equiv> (4 :: u8)"
abbreviation (input) "CRLF \<equiv> [13, 10 :: u8]"

datatype trojanErr = TBadHeader | TAtyp | TAuth | TIO ioErr | TTooLarge | TNoCRLF

definition tj_Key :: "string \<Rightarrow> bytes" where
  "tj_Key password = hexEncode (Sum224 (bytes_of_string password))"

definition tj_ClientKey :: "string \<Rightarrow> bytes" where
  "tj_ClientKey secret = bytes_of_string secret"

definition tj_AuthKey :: "string \<Rightarrow> bytes" where
  "tj_AuthKey secret = tj_Key secret"

definition tio :: "(ioErr, 'a) result \<Rightarrow> (trojanErr, 'a) result" where
  "tio x = (case x of Inl e \<Rightarrow> Inl (TIO e) | Inr a \<Rightarrow> Inr a)"

definition expectCRLF :: "bytes \<Rightarrow> (trojanErr, bytes) result" where
  "expectCRLF s = res_bind (tio (readFull 2 s)) (\<lambda>(c, s). if c ! 0 \<noteq> 13 \<or> c ! 1 \<noteq> 10 then Inl TBadHeader else Inr s)"

definition tj_readRequest :: "bytes \<Rightarrow> (trojanErr, (u8 \<times> Socksaddr) \<times> bytes) result" where
  "tj_readRequest s =
    res_bind (tio (readFull 2 s)) (\<lambda>(head, s).
      let cmd = head ! 0; atyp = head ! 1; host = \<lparr> sa_Addr = AddrZero, sa_Fqdn = [], sa_Port = 0 \<rparr> in
      res_bind
        (if atyp = tjIPv4 then
           res_bind (tio (readFull 4 s)) (\<lambda>(a, s). Inr (host\<lparr>sa_Addr := AddrFrom4 a\<rparr>, s))
         else if atyp = tjIPv6 then
           res_bind (tio (readFull 16 s)) (\<lambda>(a, s). Inr (host\<lparr>sa_Addr := AddrFrom16 a\<rparr>, s))
         else if atyp = tjDomain then
           res_bind (tio (readFull 1 s)) (\<lambda>(l, s).
             res_bind (tio (readFull (unat (l ! 0)) s)) (\<lambda>(name, s). Inr (host\<lparr>sa_Fqdn := string_of_bytes name\<rparr>, s)))
         else Inl TAtyp)
        (\<lambda>(host, s).
           res_bind (tio (readFull 2 s)) (\<lambda>(pb, s). Inr ((cmd, host\<lparr>sa_Port := get16 (pb ! 0) (pb ! 1)\<rparr>), s))))"

definition tj_writeRequest :: "u8 \<Rightarrow> Socksaddr \<Rightarrow> bytes" where
  "tj_writeRequest cmd d =
    [cmd]
    @ (if IsFqdn d then [tjDomain, word_of_nat (length (sa_Fqdn d))] @ bytes_of_string (sa_Fqdn d)
       else case sa_Addr d of Addr4 w \<Rightarrow> [tjIPv4] @ be32 w | a \<Rightarrow> [tjIPv6] @ As16 a)
    @ be16 (sa_Port d)"

section \<open>Handshakes\<close>

definition tj_ServerHandshake :: "(bytes \<Rightarrow> 'r option) \<Rightarrow> bytes \<Rightarrow> (trojanErr, 'r Request \<times> bytes) result" where
  "tj_ServerHandshake auth s =
    res_bind (tio (readFull hashLen s)) (\<lambda>(h, s).
      res_bind (expectCRLF s) (\<lambda>s.
        res_bind (tj_readRequest s) (\<lambda>((cmd, dst), s).
          res_bind (expectCRLF s) (\<lambda>s.
            case auth h of
              None \<Rightarrow> Inl TAuth
            | Some ref \<Rightarrow>
                Inr (\<lparr> rq_Dst = dst, rq_Cred = ref, rq_Network = (if cmd = tjUDP then UDP else TCP), rq_Command = cmd \<rparr>, s)))))"

text \<open>What the client writes to the layer below.\<close>

definition tj_ClientHandshake :: "bytes \<Rightarrow> Socksaddr \<Rightarrow> bytes" where
  "tj_ClientHandshake key dst = tj_Key (string_of_bytes key) @ CRLF @ tj_writeRequest tjConnect dst @ CRLF"

definition tj_DialPacketConn :: "bytes \<Rightarrow> Socksaddr \<Rightarrow> bytes" where
  "tj_DialPacketConn key dst = tj_Key (string_of_bytes key) @ CRLF @ tj_writeRequest tjUDP dst @ CRLF"

section \<open>Datagrams\<close>

definition writeSocksAddr :: "Socksaddr \<Rightarrow> bytes" where
  "writeSocksAddr d =
    (if IsFqdn d then [tjDomain, word_of_nat (length (sa_Fqdn d))] @ bytes_of_string (sa_Fqdn d)
     else case sa_Addr d of Addr4 w \<Rightarrow> [tjIPv4] @ be32 w | a \<Rightarrow> [tjIPv6] @ As16 a)
    @ be16 (sa_Port d)"

definition readPort :: "Addr \<Rightarrow> bytes \<Rightarrow> (trojanErr, Socksaddr \<times> bytes) result" where
  "readPort ip s = res_bind (tio (readFull 2 s)) (\<lambda>(pb, s).
     Inr (FromIPPort \<lparr> ap_addr = ip, ap_port = get16 (pb ! 0) (pb ! 1) \<rparr>, s))"

definition readSocksAddr :: "bytes \<Rightarrow> (trojanErr, Socksaddr \<times> bytes) result" where
  "readSocksAddr s =
    res_bind (tio (readFull 1 s)) (\<lambda>(at, s).
      if at ! 0 = tjIPv4 then res_bind (tio (readFull 4 s)) (\<lambda>(a, s). readPort (AddrFrom4 a) s)
      else if at ! 0 = tjIPv6 then res_bind (tio (readFull 16 s)) (\<lambda>(a, s). readPort (AddrFrom16 a) s)
      else if at ! 0 = tjDomain then
        res_bind (tio (readFull 1 s)) (\<lambda>(l, s).
          res_bind (tio (readFull (unat (l ! 0)) s)) (\<lambda>(name, s).
            res_bind (tio (readFull 2 s)) (\<lambda>(pb, s).
              Inr (FromFqdn (string_of_bytes name) (get16 (pb ! 0) (pb ! 1)), s))))
      else Inl TAtyp)"

text \<open>A datagram is written from the payload of a buffer, its header put in front in the same buffer; \<^const>\<open>None\<close> is the panic of a
  buffer without head room.\<close>

definition tj_WritePacket :: "Buffer \<Rightarrow> Socksaddr \<Rightarrow> (trojanErr, Buffer \<times> bytes) result option" where
  "tj_WritePacket b dst =
    (let n = buf_Len b in
     if n > 0xFFFF then Some (Inl TTooLarge)
     else
       (let hb = writeSocksAddr dst @ be16 (word_of_nat n) @ CRLF in
        case ExtendHeader (length hb) b of
          None \<Rightarrow> None
        | Some (b', i, _) \<Rightarrow> (let b' = putSlice i hb b' in Some (Inr (b', buf_Bytes b')))))"

definition tj_ReadPacket :: "Buffer \<Rightarrow> bytes \<Rightarrow> (trojanErr, (Socksaddr \<times> Buffer) \<times> bytes) result option" where
  "tj_ReadPacket b s =
    (case readSocksAddr s of
       Inl e \<Rightarrow> Some (Inl e)
     | Inr (dst, s) \<Rightarrow>
         (case tio (readFull 4 s) of
            Inl e \<Rightarrow> Some (Inl e)
          | Inr (lc, s) \<Rightarrow>
              if lc ! 2 \<noteq> 0x0D \<or> lc ! 3 \<noteq> 0x0A then Some (Inl TNoCRLF)
              else
                (let n = unat (get16 (lc ! 0) (lc ! 1)) in
                 if n > Tailroom b then Some (Inl TTooLarge)
                 else case ExtendTail n b of
                   None \<Rightarrow> None
                 | Some (b', i, n) \<Rightarrow>
                     Some (res_bind (tio (readFull n s)) (\<lambda>(p, s). Inr ((dst, putSlice i p b'), s))))))"

section \<open>What is written is read\<close>

lemma tio_simps [simp]: "tio (Inl e) = Inl (TIO e)" "tio (Inr a) = Inr a"
  by (simp_all add: tio_def)

lemma unat_byte' [simp]: "n \<le> 255 \<Longrightarrow> unat (word_of_nat n :: u8) = n"
  by (simp add: unat_of_nat)

lemma readFull_2 [simp]: "readFull 2 (x # y # s) = Inr ([x, y], s)"
  by (simp add: readFull_def)

lemma readFull_be16 [simp]: "readFull 2 (be16 w @ s) = Inr (be16 w, s)" "readFull 2 (be16 w) = Inr (be16 w, [])"
  by (simp_all add: readFull_def)

lemma be16_nth [simp]: "get16 (be16 w ! 0) (be16 w ! Suc 0) = w"
  by (simp add: be16_def)

lemma expectCRLF_back [simp]: "expectCRLF (13 # 10 # s) = Inr s"
  by (simp add: expectCRLF_def)

lemma readSocksAddr_back: "carriable d \<Longrightarrow> readSocksAddr (writeSocksAddr d @ rest) = Inr (arrives d, rest)"
  by (cases "IsFqdn d"; cases "sa_Addr d")
    (simp_all add: readSocksAddr_def writeSocksAddr_def readPort_def arrives_def carriable_def)

lemma tj_readRequest_back: "carriable d \<Longrightarrow> tj_readRequest (tj_writeRequest cmd d @ rest) = Inr ((cmd, arrives d), rest)"
  by (cases "IsFqdn d"; cases "sa_Addr d")
    (simp_all add: tj_readRequest_def tj_writeRequest_def arrives_def carriable_def FromFqdn_def FromIPPort_def Let_def)

definition tj_hello :: "string \<Rightarrow> Network \<Rightarrow> Socksaddr \<Rightarrow> bytes" where
  "tj_hello password net d =
    (if net = UDP then tj_DialPacketConn (tj_ClientKey password) d else tj_ClientHandshake (tj_ClientKey password) d)"

definition tj_req :: "Network \<Rightarrow> Socksaddr \<Rightarrow> 'r \<Rightarrow> 'r Request" where
  "tj_req net d ref = \<lparr> rq_Dst = arrives d, rq_Cred = ref, rq_Network = net, rq_Command = (if net = UDP then tjUDP else tjConnect) \<rparr>"

lemma length_tj_Key [simp]: "length (tj_Key p) = hashLen"
  by (simp add: tj_Key_def hashLen_def)

lemma tj_server_sees:
  assumes "carriable d"
  shows "tj_ServerHandshake auth (tj_hello password net d @ rest) =
    (case auth (tj_AuthKey password) of None \<Rightarrow> Inl TAuth | Some ref \<Rightarrow> Inr (tj_req net d ref, rest))"
proof -
  have k: "readFull hashLen (tj_Key password @ t) = Inr (tj_Key password, t)" for t
    by (rule readFull_append') simp
  show ?thesis using assms
    by (cases net)
      (simp_all add: tj_hello_def tj_ClientHandshake_def tj_DialPacketConn_def tj_ClientKey_def tj_AuthKey_def
        tj_ServerHandshake_def k tj_readRequest_back tj_req_def split: option.split)
qed

interpretation trojan: proxy_pair tj_hello tj_ServerHandshake tj_AuthKey "\<lambda>_. True" "\<lambda>_. carriable" tj_req "\<lambda>_. TAuth"
  by unfold_locales (simp_all add: tj_server_sees)

text \<open>One datagram on the wire.\<close>

definition tj_frame :: "Socksaddr \<Rightarrow> bytes \<Rightarrow> bytes" where
  "tj_frame d p = writeSocksAddr d @ be16 (word_of_nat (length p)) @ CRLF @ p"

lemma writeSocksAddr_length: "carriable d \<Longrightarrow> length (writeSocksAddr d) \<le> 259"
  by (auto simp: writeSocksAddr_def carriable_def split: Addr.split)

text \<open>The bytes of a destination are those of the form it arrives in.\<close>

lemma writeSocksAddr_arrives: "writeSocksAddr (arrives d) = writeSocksAddr d"
  by (cases "sa_Addr d") (auto simp: writeSocksAddr_def arrives_def FromFqdn_def FromIPPort_def IsFqdn_def)

lemma tj_write_frame:
  assumes "bufOK b" "263 \<le> Headroom b" "buf_Len b \<le> 0xFFFF" "carriable dst"
  shows "\<exists>b'. tj_WritePacket b dst = Some (Inr (b', tj_frame dst (buf_Bytes b))) \<and> length (bb_data b') = length (bb_data b)"
proof -
  let ?h = "writeSocksAddr dst @ be16 (word_of_nat (buf_Len b)) @ CRLF"
  have l: "length ?h \<le> Headroom b" using assms(2) writeSocksAddr_length [OF assms(4)] by simp
  obtain c i where c: "ExtendHeader (length ?h) b = Some (c, i, length ?h)" "buf_Bytes (putSlice i ?h c) = ?h @ buf_Bytes b"
      "length (bb_data (putSlice i ?h c)) = length (bb_data b)"
    using ExtendHeader_put [OF assms(1) l] by blast
  have "tj_WritePacket b dst = Some (Inr (putSlice i ?h c, ?h @ buf_Bytes b))"
    unfolding tj_WritePacket_def Let_def c(1) option.case prod.case c(2) using assms(3) by simp
  then show ?thesis using c(3) length_buf_Bytes [OF assms(1)] by (simp add: tj_frame_def)
qed

lemma tj_read_frame:
  assumes "bufOK b" "length p \<le> 0xFFFF" "length p \<le> Tailroom b" "carriable dst"
  shows "\<exists>b'. tj_ReadPacket b (tj_frame dst p @ rest) = Some (Inr ((arrives dst, b'), rest)) \<and> bufOK b'
      \<and> buf_Bytes b' = buf_Bytes b @ p \<and> Headroom b' = Headroom b \<and> length (bb_data b') = length (bb_data b)"
proof -
  have u: "unat (word_of_nat (length p) :: u16) = length p" using assms(2) by (simp add: unat_of_nat)
  obtain d j where d: "ExtendTail (length p) b = Some (d, j, length p)" "bufOK (putSlice j p d)"
      "buf_Bytes (putSlice j p d) = buf_Bytes b @ p" "Headroom (putSlice j p d) = Headroom b"
      "length (bb_data (putSlice j p d)) = length (bb_data b)"
    using ExtendTail_put [OF assms(1,3)] by blast
  have r4: "readFull 4 (be16 v @ 13 # 10 # s) = Inr (be16 v @ CRLF, s)" for v s
    by (simp add: readFull_def be16_def)
  have g: "get16 ((be16 v @ CRLF) ! 0) ((be16 v @ CRLF) ! 1) = v" "(be16 v @ CRLF) ! 2 = 13" "(be16 v @ CRLF) ! 3 = 10" for v
    by (simp_all add: be16_def)
  have "tj_ReadPacket b (tj_frame dst p @ rest) = Some (Inr ((arrives dst, putSlice j p d), rest))"
    using assms(3,4) d(1) u
    by (simp add: tj_ReadPacket_def tj_frame_def readSocksAddr_back r4 g Let_def del: One_nat_def)
  then show ?thesis using d by blast
qed

section \<open>Properties\<close>

text \<open>
  C21: For every password and every destination whose name fits the wire, the server that reads what
  the client's TCP or UDP handshake wrote, followed by any payload, looks up the key registered for
  that password and either refuses or returns the user, the network and the destination, with exactly
  the payload left to read.
\<close>

theorem trojan_opens:
  assumes "carriable d"
  shows "tj_ServerHandshake auth (tj_ClientHandshake (tj_ClientKey password) d @ payload) =
      (case auth (tj_AuthKey password) of None \<Rightarrow> Inl TAuth
       | Some ref \<Rightarrow> Inr (\<lparr> rq_Dst = arrives d, rq_Cred = ref, rq_Network = TCP, rq_Command = tjConnect \<rparr>, payload))
    \<and> tj_ServerHandshake auth (tj_DialPacketConn (tj_ClientKey password) d @ payload) =
      (case auth (tj_AuthKey password) of None \<Rightarrow> Inl TAuth
       | Some ref \<Rightarrow> Inr (\<lparr> rq_Dst = arrives d, rq_Cred = ref, rq_Network = UDP, rq_Command = tjUDP \<rparr>, payload))"
  using tj_server_sees [OF assms, of auth password TCP payload] tj_server_sees [OF assms, of auth password UDP payload]
  by (simp add: tj_hello_def tj_req_def split: option.split)

definition tw_dst :: Socksaddr where
  "tw_dst = \<lparr> sa_Addr = AddrZero, sa_Fqdn = ''example.com'', sa_Port = 80 \<rparr>"

theorem trojan_opens_witness:
  "tj_ServerHandshake [tj_AuthKey ''pw'' \<mapsto> (3 :: nat)] (tj_ClientHandshake (tj_ClientKey ''pw'') tw_dst @ [9])
    = Inr (\<lparr> rq_Dst = tw_dst, rq_Cred = 3, rq_Network = TCP, rq_Command = 1 \<rparr>, [9])"
proof -
  have a: "arrives tw_dst = tw_dst" by (simp add: tw_dst_def arrives_def IsFqdn_def FromFqdn_def)
  have c: "carriable tw_dst" by (simp add: tw_dst_def carriable_def)
  show ?thesis using trojan_opens [OF c, of "[tj_AuthKey ''pw'' \<mapsto> (3 :: nat)]" "''pw''" "[9]"] a by simp
qed

end
