(* ===== verification/UdpRelay.thy ===== *)
theory UdpRelay
  imports Vless Trojan
begin

text \<open>
  One direction of the datagram relay (\<open>core/relay\<close>, \<open>copyPacket\<close>), over whatever two packet connections
  the protocols provide: a locale for a packet connection, one for a relay between two, and the
  interpretations for VLESS and Trojan.
\<close>

section \<open>The relay loop\<close>

text \<open>
  The loop ends with the error of a read or a write; the model runs \<open>n\<close> rounds at most and then has no
  result, as when a buffer operation panics.
\<close>

fun copyPacket ::
    "(Buffer \<Rightarrow> bytes \<Rightarrow> ('e, ('d \<times> Buffer) \<times> bytes) result option) \<Rightarrow> (Buffer \<Rightarrow> 'd \<Rightarrow> ('f, Buffer \<times> bytes) result option)
     \<Rightarrow> nat \<Rightarrow> Buffer \<Rightarrow> bytes \<Rightarrow> bytes \<Rightarrow> (('e + 'f) \<times> bytes) option" where
  "copyPacket rd wr 0 b s out = None"
| "copyPacket rd wr (Suc n) b s out =
    (case rd (buf_Reset b) s of
       None \<Rightarrow> None
     | Some (Inl e) \<Rightarrow> Some (Inl e, out)
     | Some (Inr ((dst, b), s)) \<Rightarrow>
         (case wr b dst of
            None \<Rightarrow> None
          | Some (Inl e) \<Rightarrow> Some (Inr e, out)
          | Some (Inr (b, w)) \<Rightarrow> copyPacket rd wr n b s (out @ w)))"

section \<open>Packet connections\<close>

locale packet_conn =
  fixes rd :: "Buffer \<Rightarrow> bytes \<Rightarrow> ('e, ('d \<times> Buffer) \<times> bytes) result option"
    and wr :: "Buffer \<Rightarrow> 'd \<Rightarrow> ('e, Buffer \<times> bytes) result option"
    and frame :: "'d \<Rightarrow> bytes \<Rightarrow> bytes"
    and okd :: "'d \<Rightarrow> bool" and seen :: "'d \<Rightarrow> 'd" and eof :: 'e
  assumes rd_frame: "bufOK b \<Longrightarrow> okd d \<Longrightarrow> length p \<le> 0xFFFF \<Longrightarrow> length p \<le> Tailroom b \<Longrightarrow>
      \<exists>b'. rd b (frame d p @ rest) = Some (Inr ((seen d, b'), rest)) \<and> bufOK b'
        \<and> buf_Bytes b' = buf_Bytes b @ p \<and> Headroom b' = Headroom b \<and> length (bb_data b') = length (bb_data b)"
    and rd_end: "rd b [] = Some (Inl eof)"
    and wr_frame: "bufOK b \<Longrightarrow> okd d \<Longrightarrow> 263 \<le> Headroom b \<Longrightarrow> buf_Len b \<le> 0xFFFF \<Longrightarrow>
      \<exists>b'. wr b d = Some (Inr (b', frame d (buf_Bytes b))) \<and> length (bb_data b') = length (bb_data b)"

locale packet_relay =
  src: packet_conn rdA wrA frameA okA seenA eofA + dst: packet_conn rdB wrB frameB okB seenB eofB
  for rdA :: "Buffer \<Rightarrow> bytes \<Rightarrow> ('e, ('d \<times> Buffer) \<times> bytes) result option" and wrA frameA okA seenA eofA
    and rdB :: "Buffer \<Rightarrow> bytes \<Rightarrow> ('f, ('d \<times> Buffer) \<times> bytes) result option" and wrB frameB okB seenB eofB +
  assumes ok_seen: "okA d \<Longrightarrow> okB (seenA d)"
begin

lemma buf_Reset_facts:
  assumes "length (bb_data b) = DefaultSize"
  shows "bufOK (buf_Reset b)" "buf_Bytes (buf_Reset b) = []" "Headroom (buf_Reset b) = 512"
    "Tailroom (buf_Reset b) = 32256" "length (bb_data (buf_Reset b)) = DefaultSize"
  using assms by (simp_all add: buf_Reset_def bufOK_def buf_Bytes_def Headroom_def Tailroom_def DefaultSize_def DefaultHeadroom_def)

lemma relays_all:
  assumes "length (bb_data b) = DefaultSize" "\<And>d p. (d, p) \<in> set pkts \<Longrightarrow> okA d \<and> length p \<le> 32256" "length pkts < n"
  shows "copyPacket rdA wrB n b (concat (map (\<lambda>(d, p). frameA d p) pkts)) out
    = Some (Inl eofA, out @ concat (map (\<lambda>(d, p). frameB (seenA d) p) pkts))"
  using assms
proof (induction pkts arbitrary: n b out)
  case Nil
  then obtain m where "n = Suc m" by (cases n) auto
  then show ?case by (simp add: src.rd_end)
next
  case (Cons dp pkts)
  obtain d p where dp: "dp = (d, p)" by fastforce
  obtain m where n: "n = Suc m" using Cons.prems(3) by (cases n) auto
  note R = buf_Reset_facts [OF Cons.prems(1)]
  have ok: "okA d" "length p \<le> 32256" using Cons.prems(2) [of d p] dp by auto
  have l: "length p \<le> 0xFFFF" "length p \<le> Tailroom (buf_Reset b)" using ok(2) R(4) by simp_all
  obtain b1 where b1: "rdA (buf_Reset b) (frameA d p @ concat (map (\<lambda>(d, p). frameA d p) pkts))
        = Some (Inr ((seenA d, b1), concat (map (\<lambda>(d, p). frameA d p) pkts)))"
      "bufOK b1" "buf_Bytes b1 = p" "Headroom b1 = 512" "length (bb_data b1) = DefaultSize"
    using src.rd_frame [OF R(1) ok(1) l, of "concat (map (\<lambda>(d, p). frameA d p) pkts)"] R(2,3,5) by auto
  have l1: "buf_Len b1 \<le> 0xFFFF" "263 \<le> Headroom b1" using length_buf_Bytes [OF b1(2)] b1(3,4) l(1) by simp_all
  obtain b2 where b2: "wrB b1 (seenA d) = Some (Inr (b2, frameB (seenA d) p))" "length (bb_data b2) = DefaultSize"
    using dst.wr_frame [OF b1(2) ok_seen [OF ok(1)] l1(2,1)] b1(3,5) by auto
  have "copyPacket rdA wrB m b2 (concat (map (\<lambda>(d, p). frameA d p) pkts)) (out @ frameB (seenA d) p)
    = Some (Inl eofA, (out @ frameB (seenA d) p) @ concat (map (\<lambda>(d, p). frameB (seenA d) p) pkts))"
    by (rule Cons.IH [OF b2(2)]) (use Cons.prems(2,3) n in auto)
  then show ?case using dp n b1(1) b2(1) by simp
qed

end

section \<open>VLESS and Trojan\<close>

interpretation tjc: packet_conn tj_ReadPacket tj_WritePacket tj_frame carriable arrives "TIO EOF"
proof
  fix b :: Buffer
  show "tj_ReadPacket b [] = Some (Inl (TIO EOF))" by (simp add: tj_ReadPacket_def readSocksAddr_def readFull_def)
qed (simp_all add: tj_read_frame tj_write_frame)

interpretation vlc: packet_conn "vl_ReadPacket dst" "\<lambda>b _. vl_WritePacket b" "\<lambda>_. vl_frame" "\<lambda>_. True" "\<lambda>_. dst" "VIO EOF"
proof
  fix b :: Buffer
  show "vl_ReadPacket dst b [] = Some (Inl (VIO EOF))" by (simp add: vl_ReadPacket_def rd16_def readFull_def)
qed (simp_all add: vl_read_frame vl_write_frame)

lemma carriable_arrives: "carriable d \<Longrightarrow> carriable (arrives d)"
  by (simp add: carriable_def arrives_def FromFqdn_def FromIPPort_def)

interpretation tj_tj: packet_relay tj_ReadPacket tj_WritePacket tj_frame carriable arrives "TIO EOF"
    tj_ReadPacket tj_WritePacket tj_frame carriable arrives "TIO EOF"
  by unfold_locales (rule carriable_arrives)

lemma vless_to_trojan: "carriable dst \<Longrightarrow> packet_relay (vl_ReadPacket dst) (\<lambda>b _. vl_WritePacket b) (\<lambda>_. vl_frame) (\<lambda>_. True) (\<lambda>_. dst) (VIO EOF)
    tj_ReadPacket tj_WritePacket tj_frame carriable arrives (TIO EOF)"
  by unfold_locales simp

section \<open>Properties\<close>

lemma tj_frame_arrives: "tj_frame (arrives d) p = tj_frame d p"
  by (simp add: tj_frame_def writeSocksAddr_arrives)

text \<open>
  C26: For every sequence of datagrams of at most 32256 bytes, the relay loop between two Trojan
  connections writes byte for byte the stream it reads, and the loop from a VLESS connection to a
  Trojan connection writes the same datagrams in the same order under the destination of the VLESS
  request; both end with the end of the input, after as many rounds as there are datagrams and one
  more.
\<close>

theorem datagram_relay:
  assumes "length (bb_data b) = DefaultSize" "\<forall>(d, p) \<in> set pkts. carriable d \<and> length p \<le> 32256" "carriable dst"
    and "length pkts < n"
  shows "copyPacket tj_ReadPacket tj_WritePacket n b (concat (map (\<lambda>(d, p). tj_frame d p) pkts)) []
      = Some (Inl (TIO EOF), concat (map (\<lambda>(d, p). tj_frame d p) pkts))
    \<and> copyPacket (vl_ReadPacket dst) tj_WritePacket n b (concat (map (\<lambda>(_, p). vl_frame p) pkts)) []
      = Some (Inl (VIO EOF), concat (map (\<lambda>(_, p). tj_frame dst p) pkts))"
proof
  have ok: "(d, p) \<in> set pkts \<Longrightarrow> carriable d \<and> length p \<le> 32256" for d p using assms(2) by auto
  show "copyPacket tj_ReadPacket tj_WritePacket n b (concat (map (\<lambda>(d, p). tj_frame d p) pkts)) []
      = Some (Inl (TIO EOF), concat (map (\<lambda>(d, p). tj_frame d p) pkts))"
    using tj_tj.relays_all [OF assms(1) ok assms(4), of "[]"] by (simp add: tj_frame_arrives)
  show "copyPacket (vl_ReadPacket dst) tj_WritePacket n b (concat (map (\<lambda>(_, p). vl_frame p) pkts)) []
      = Some (Inl (VIO EOF), concat (map (\<lambda>(_, p). tj_frame dst p) pkts))"
    using packet_relay.relays_all [OF vless_to_trojan [OF assms(3)] assms(1) _ assms(4), of "[]"] ok by auto
qed

theorem datagram_relay_witness:
  "copyPacket (vl_ReadPacket tw_dst) tj_WritePacket 3 (buf_New (replicate DefaultSize 0)) (vl_frame [1, 2] @ vl_frame []) []
    = Some (Inl (VIO EOF), tj_frame tw_dst [1, 2] @ tj_frame tw_dst [])"
proof -
  have c: "carriable tw_dst" by (simp add: tw_dst_def carriable_def)
  show ?thesis
    using datagram_relay [of "buf_New (replicate DefaultSize 0)" "[(tw_dst, [1, 2]), (tw_dst, [])]" tw_dst 3] c
    by (simp add: buf_New_def)
qed

end
