(* ===== verification/FakeIP.thy ===== *)
theory FakeIP
  imports GoNet
begin

text \<open>
  The pool of fake addresses (\<open>dns/fakeip.go\<close>): names get addresses of a range in turn, the oldest being
  given up when the range has been gone through.  An address leads back to its name until every other
  address of the range has been given out.
\<close>

unbundle bit_operations_syntax

section \<open>The pool\<close>

abbreviation (input) "TypeA \<equiv> (1 :: u16)"
abbreviation (input) "TypeAAAA \<equiv> (28 :: u16)"

record FakeIPConfig =
  fc_Inet4 :: Prefix
  fc_Inet6 :: Prefix
  fc_Exclude :: "string list"

record fakeIPPool =
  fp_p4 :: Prefix
  fp_p6 :: Prefix
  fp_have4 :: bool
  fp_have6 :: bool
  fp_cur4 :: Addr
  fp_cur6 :: Addr
  fp_d2v4 :: "string \<rightharpoonup> Addr"
  fp_d2v6 :: "string \<rightharpoonup> Addr"
  fp_ip2d :: "Addr \<rightharpoonup> string"
  fp_exclude :: "string list"

abbreviation "zeroPrefix \<equiv> \<lparr> pfx_ip = AddrZero, pfx_bits = 0 \<rparr>"

definition newFakeIPPool :: "FakeIPConfig \<Rightarrow> fakeIPPool" where
  "newFakeIPPool cfg =
    (let p = \<lparr> fp_p4 = zeroPrefix, fp_p6 = zeroPrefix, fp_have4 = False, fp_have6 = False,
               fp_cur4 = AddrZero, fp_cur6 = AddrZero, fp_d2v4 = Map.empty, fp_d2v6 = Map.empty, fp_ip2d = Map.empty,
               fp_exclude = filter (\<lambda>s. s \<noteq> []) (map (\<lambda>e. toLower (trimSuffix (trimSpace e) ''.'')) (fc_Exclude cfg)) \<rparr>;
         p = (if pfx_IsValid (fc_Inet4 cfg) \<and> Is4 (Unmap (pfx_ip (fc_Inet4 cfg))) then
                p\<lparr>fp_p4 := pfx_Masked (fc_Inet4 cfg), fp_have4 := True,
                  fp_cur4 := addr_Next (pfx_ip (pfx_Masked (fc_Inet4 cfg)))\<rparr>
              else p);
         p = (if pfx_IsValid (fc_Inet6 cfg) \<and> Is6 (pfx_ip (fc_Inet6 cfg)) \<and> \<not> Is4In6 (pfx_ip (fc_Inet6 cfg)) then
                p\<lparr>fp_p6 := pfx_Masked (fc_Inet6 cfg), fp_have6 := True,
                  fp_cur6 := addr_Next (pfx_ip (pfx_Masked (fc_Inet6 cfg)))\<rparr>
              else p) in p)"

definition fp_excluded :: "string \<Rightarrow> fakeIPPool \<Rightarrow> bool" where
  "fp_excluded name p =
    (let host = trimSuffix name ''.'' in
     list_ex (\<lambda>suf. host = suf \<or> hasSuffix host (''.'' @ suf)) (fp_exclude p))"

definition wrapNext :: "Addr \<Rightarrow> Prefix \<Rightarrow> Addr" where
  "wrapNext ip pfx =
    (let n = addr_Next ip in
     if \<not> addr_IsValid n \<or> \<not> pfx_Contains pfx n then addr_Next (pfx_ip pfx) else n)"

text \<open>A missing entry of a Go map reads as the zero address; deleting a missing entry does nothing.\<close>

definition getAddr :: "(string \<rightharpoonup> Addr) \<Rightarrow> string \<Rightarrow> Addr" where
  "getAddr m h = (case m h of Some a \<Rightarrow> a | None \<Rightarrow> AddrZero)"

definition evictLocked :: "Addr \<Rightarrow> fakeIPPool \<Rightarrow> fakeIPPool" where
  "evictLocked ip p =
    (case fp_ip2d p ip of
       None \<Rightarrow> p
     | Some old \<Rightarrow>
         (let p = p\<lparr>fp_ip2d := (fp_ip2d p)(ip := None)\<rparr>;
              p = (if getAddr (fp_d2v4 p) old = ip then p\<lparr>fp_d2v4 := (fp_d2v4 p)(old := None)\<rparr> else p) in
          if getAddr (fp_d2v6 p) old = ip then p\<lparr>fp_d2v6 := (fp_d2v6 p)(old := None)\<rparr> else p))"

definition alloc :: "string \<Rightarrow> u16 \<Rightarrow> fakeIPPool \<Rightarrow> Addr option \<times> fakeIPPool" where
  "alloc name qtype p =
    (let host = trimSuffix name ''.'' in
     if qtype = TypeA then
       (if \<not> fp_have4 p then (None, p)
        else case fp_d2v4 p host of
          Some ip \<Rightarrow> (Some ip, p)
        | None \<Rightarrow>
            (let ip = fp_cur4 p;
                 p = p\<lparr>fp_cur4 := wrapNext (fp_cur4 p) (fp_p4 p)\<rparr>;
                 p = evictLocked ip p;
                 p = p\<lparr>fp_d2v4 := (fp_d2v4 p)(host \<mapsto> ip)\<rparr>;
                 p = p\<lparr>fp_ip2d := (fp_ip2d p)(ip \<mapsto> host)\<rparr> in (Some ip, p)))
     else if qtype = TypeAAAA then
       (if \<not> fp_have6 p then (None, p)
        else case fp_d2v6 p host of
          Some ip \<Rightarrow> (Some ip, p)
        | None \<Rightarrow>
            (let ip = fp_cur6 p;
                 p = p\<lparr>fp_cur6 := wrapNext (fp_cur6 p) (fp_p6 p)\<rparr>;
                 p = evictLocked ip p;
                 p = p\<lparr>fp_d2v6 := (fp_d2v6 p)(host \<mapsto> ip)\<rparr>;
                 p = p\<lparr>fp_ip2d := (fp_ip2d p)(ip \<mapsto> host)\<rparr> in (Some ip, p)))
     else (None, p))"

definition fp_lookup :: "Addr \<Rightarrow> fakeIPPool \<Rightarrow> string option" where
  "fp_lookup ip p = fp_ip2d p (Unmap ip)"

definition fp_contains :: "Addr \<Rightarrow> fakeIPPool \<Rightarrow> bool" where
  "fp_contains ip p =
    (let ip = Unmap ip in (fp_have4 p \<and> pfx_Contains (fp_p4 p) ip) \<or> (fp_have6 p \<and> pfx_Contains (fp_p6 p) ip))"

section \<open>The ring of a range\<close>

lemma div_eq_range: "(q::nat) = x div 2 ^ k \<longleftrightarrow> q * 2 ^ k \<le> x \<and> x < q * 2 ^ k + 2 ^ k"
proof
  assume "q = x div 2 ^ k"
  then show "q * 2 ^ k \<le> x \<and> x < q * 2 ^ k + 2 ^ k"
    using dividend_less_div_times [of "2 ^ k" x] by (simp add: add.commute)
next
  assume r: "q * 2 ^ k \<le> x \<and> x < q * 2 ^ k + 2 ^ k"
  have "x div 2 ^ k = q" by (rule div_nat_eqI) (use r in \<open>simp_all add: mult.commute\<close>)
  then show "q = x div 2 ^ k" by simp
qed

text \<open>A network address: the low \<open>k\<close> bits are zero.\<close>

definition netAddr :: "nat \<Rightarrow> 'a::len word \<Rightarrow> bool" where
  "netAddr k v = (v = push_bit k (drop_bit k v) \<and> 1 \<le> k \<and> k \<le> LENGTH('a))"

lemma unat_drop: "unat (drop_bit k (x :: 'a::len word)) = unat x div 2 ^ k"
  unfolding unat_drop_bit_eq by (rule drop_bit_eq_div)

lemma netAddr_unat:
  fixes v :: "'a::len word"
  assumes "netAddr k v"
  obtains q where "unat v = q * 2 ^ k" "unat v + 2 ^ k \<le> 2 ^ LENGTH('a)"
proof
  let ?q = "unat v div 2 ^ k"
  have "unat v = unat (push_bit k (drop_bit k v))" using assms by (simp add: netAddr_def)
  also have "\<dots> = take_bit LENGTH('a) (?q * 2 ^ k)" 
    unfolding unsigned_push_bit_eq unat_drop by (simp add: push_bit_eq_mult)
  also have "\<dots> = ?q * 2 ^ k"
  proof (rule take_bit_nat_eq_self)
    have "?q * 2 ^ k \<le> unat v" by simp
    also have "unat v < 2 ^ LENGTH('a)" by simp
    finally show "?q * 2 ^ k < 2 ^ LENGTH('a)" .
  qed
  finally show q: "unat v = ?q * 2 ^ k" .
  have "k \<le> LENGTH('a)" using assms by (simp add: netAddr_def)
  then have e: "(2::nat) ^ LENGTH('a) = 2 ^ (LENGTH('a) - k) * 2 ^ k" by (simp flip: power_add)
  have "?q * 2 ^ k < 2 ^ (LENGTH('a) - k) * 2 ^ k" using q unsigned_less [of v, where 'a = nat] e by simp
  then have "?q < 2 ^ (LENGTH('a) - k)" by simp
  then have "(?q + 1) * 2 ^ k \<le> 2 ^ (LENGTH('a) - k) * 2 ^ k" by (intro mult_le_mono1) simp
  then show "unat v + 2 ^ k \<le> 2 ^ LENGTH('a)" using q e by simp
qed

lemma contains_bounds:
  fixes v w :: "'a::len word"
  assumes "netAddr k v"
  shows "drop_bit k (v XOR w) = 0 \<longleftrightarrow> unat v \<le> unat w \<and> unat w < unat v + 2 ^ k"
proof -
  obtain q where q: "unat v = q * 2 ^ k" using netAddr_unat [OF assms] by blast
  have "drop_bit k (v XOR w) = 0 \<longleftrightarrow> drop_bit k v = drop_bit k w"
    unfolding drop_bit_xor by (simp add: bit_eq_iff bit_xor_iff)
  also have "\<dots> \<longleftrightarrow> unat v div 2 ^ k = unat w div 2 ^ k"
    by (metis unat_drop word_eq_iff_unsigned)
  also have "\<dots> \<longleftrightarrow> unat v \<le> unat w \<and> unat w < unat v + 2 ^ k"
    unfolding q by (auto simp: div_eq_range)
  finally show ?thesis .
qed

definition ringW :: "'a::len word \<Rightarrow> nat \<Rightarrow> 'a word" where
  "ringW v i = v + 1 + word_of_nat i"

lemma ringW_unat:
  fixes v :: "'a::len word"
  assumes "netAddr k v" "i < 2 ^ k - 1"
  shows "unat (ringW v i) = unat v + 1 + i" "ringW v i \<noteq> 0"
proof -
  have b: "unat v + 2 ^ k \<le> 2 ^ LENGTH('a)" using netAddr_unat [OF assms(1)] by blast
  have "ringW v i = word_of_nat (unat v + 1 + i)" by (simp add: ringW_def)
  then have "unat (ringW v i) = (unat v + 1 + i) mod 2 ^ LENGTH('a)" by (simp only: unat_of_nat)
  also have "\<dots> = unat v + 1 + i" by (rule mod_less) (use b assms(2) in linarith)
  finally show u: "unat (ringW v i) = unat v + 1 + i" .
  show "ringW v i \<noteq> 0"
  proof
    assume "ringW v i = 0"
    then have "unat (ringW v i) = 0" by (simp only: unsigned_0)
    then show False using u by linarith
  qed
qed

lemma ringW_inj:
  assumes "netAddr k v" "i < 2 ^ k - 1" "j < 2 ^ k - 1" "ringW v i = ringW v j"
  shows "i = j"
proof -
  have "unat v + 1 + i = unat v + 1 + j"
    using ringW_unat(1) [OF assms(1,2)] ringW_unat(1) [OF assms(1,3)] unfolding assms(4) by (rule trans [OF sym])
  then show ?thesis by linarith
qed

lemma ringW_contains:
  assumes "netAddr k v" "i < 2 ^ k - 1"
  shows "drop_bit k (v XOR ringW v i) = 0"
  unfolding contains_bounds [OF assms(1)] ringW_unat(1) [OF assms] using assms(2) by linarith

lemma ringW_next:
  fixes v :: "'a::len word"
  assumes "netAddr k v" "i < 2 ^ k - 1"
  shows "(if ringW v i + 1 = 0 \<or> drop_bit k (v XOR (ringW v i + 1)) \<noteq> 0 then ringW v 0 else ringW v i + 1)
    = ringW v (if i + 1 < 2 ^ k - 1 then i + 1 else 0)"
proof -
  have s: "ringW v i + 1 = ringW v (i + 1)" by (simp add: ringW_def)
  show ?thesis
  proof (cases "i + 1 < 2 ^ k - 1")
    case True
    then show ?thesis unfolding s using ringW_unat(2) [OF assms(1) True] ringW_contains [OF assms(1) True]
      by (simp only: if_True if_False simp_thms)
  next
    case False
    then have i: "i + 2 = 2 ^ k" using assms(2) by linarith
    have b: "unat v + 2 ^ k \<le> 2 ^ LENGTH('a)" using netAddr_unat [OF assms(1)] by blast
    have "ringW v i + 1 = word_of_nat (unat v + (i + 2))" by (simp add: ringW_def)
    then have "ringW v i + 1 = word_of_nat (unat v + 2 ^ k)" by (simp only: i)
    then have u: "unat (ringW v i + 1) = (unat v + 2 ^ k) mod 2 ^ LENGTH('a)" by (simp only: unat_of_nat)
    have "ringW v i + 1 = 0 \<or> drop_bit k (v XOR (ringW v i + 1)) \<noteq> 0"
    proof (cases "unat v + 2 ^ k = 2 ^ LENGTH('a)")
      case True
      then have "unat (ringW v i + 1) = 0" using u by simp
      then show ?thesis by (simp add: unat_eq_0)
    next
      case False
      then have "unat (ringW v i + 1) = unat v + 2 ^ k" using u b by simp
      then have "\<not> unat (ringW v i + 1) < unat v + 2 ^ k" by linarith
      then show ?thesis unfolding contains_bounds [OF assms(1)] by blast
    qed
    then show ?thesis using False by (simp only: if_True if_False simp_thms)
  qed
qed


text \<open>The addresses of a range in the order they are given out; the network address is left out.\<close>

definition capacity :: "Prefix \<Rightarrow> nat" where
  "capacity p = 2 ^ (BitLen (pfx_ip p) - nat (pfx_bits p)) - 1"

definition slot :: "Prefix \<Rightarrow> nat \<Rightarrow> Addr" where
  "slot p i = (case pfx_ip p of Addr4 v \<Rightarrow> Addr4 (ringW v i) | Addr6 v z \<Rightarrow> Addr6 (ringW v i) [] | AddrZero \<Rightarrow> AddrZero)"

text \<open>A range of more than one address, given by its network address.\<close>

definition goodRange :: "Prefix \<Rightarrow> bool" where
  "goodRange p = (0 \<le> pfx_bits p \<and>
    (case pfx_ip p of
       AddrZero \<Rightarrow> False
     | Addr4 v \<Rightarrow> netAddr (32 - nat (pfx_bits p)) v
     | Addr6 v z \<Rightarrow> z = [] \<and> netAddr (128 - nat (pfx_bits p)) v))"

lemma nat_diff_bits: "0 \<le> b \<Longrightarrow> nat (32 - b) = 32 - nat b" "0 \<le> b \<Longrightarrow> nat (128 - b) = 128 - nat b"
  by (simp_all add: nat_diff_distrib)

lemma netAddr_ge: "netAddr k v \<Longrightarrow> 2 \<le> (2::nat) ^ k"
  using power_increasing [of 1 k "2::nat"] by (simp add: netAddr_def)

lemma capacity_pos: "goodRange p \<Longrightarrow> 0 < capacity p"
  using netAddr_ge by (cases "pfx_ip p") (auto simp: goodRange_def capacity_def dest!: netAddr_ge)

lemma slot_first: "goodRange p \<Longrightarrow> addr_Next (pfx_ip p) = slot p 0"
proof (cases "pfx_ip p")
  case (Addr4 v)
  moreover assume "goodRange p"
  ultimately have n: "netAddr (32 - nat (pfx_bits p)) v" by (simp add: goodRange_def)
  then have "v + 1 \<noteq> 0" using ringW_unat(2) [OF n, of 0] netAddr_ge [OF n] by (simp add: ringW_def)
  then show ?thesis using Addr4 by (simp add: slot_def ringW_def)
next
  case (Addr6 v z)
  moreover assume "goodRange p"
  ultimately have n: "netAddr (128 - nat (pfx_bits p)) v" "z = []" by (simp_all add: goodRange_def)
  then have "v + 1 \<noteq> 0" using ringW_unat(2) [OF n(1), of 0] netAddr_ge [OF n(1)] by (simp add: ringW_def)
  then show ?thesis using Addr6 n by (simp add: slot_def ringW_def)
qed (simp add: goodRange_def)

lemma slot_contains: "goodRange p \<Longrightarrow> i < capacity p \<Longrightarrow> pfx_Contains p (slot p i)"
  by (cases "pfx_ip p")
    (auto simp: goodRange_def capacity_def slot_def pfx_Contains_def pfx_IsValid_def nat_diff_bits intro: ringW_contains [simplified])

lemma slot_valid: "goodRange p \<Longrightarrow> slot p i \<noteq> AddrZero"
  by (cases "pfx_ip p") (auto simp: goodRange_def slot_def)

lemma slot_inj: "goodRange p \<Longrightarrow> i < capacity p \<Longrightarrow> j < capacity p \<Longrightarrow> slot p i = slot p j \<Longrightarrow> i = j"
  by (cases "pfx_ip p") (auto simp: goodRange_def capacity_def slot_def intro: ringW_inj)

lemma slot_next:
  assumes "goodRange p" "i < capacity p"
  shows "wrapNext (slot p i) p = slot p (if i + 1 < capacity p then i + 1 else 0)"
proof (cases "pfx_ip p")
  case (Addr4 v)
  have n: "netAddr (32 - nat (pfx_bits p)) v" "0 \<le> pfx_bits p" using assms(1) Addr4 by (simp_all add: goodRange_def)
  have i: "i < 2 ^ (32 - nat (pfx_bits p)) - 1" using assms(2) Addr4 by (simp add: capacity_def)
  have f: "addr_Next (Addr4 v) = Addr4 (ringW v 0)" using slot_first [OF assms(1)] Addr4 by (simp add: slot_def)
  have "wrapNext (slot p i) p =
      Addr4 (if ringW v i + 1 = 0 \<or> drop_bit (32 - nat (pfx_bits p)) (v XOR (ringW v i + 1)) \<noteq> 0 then ringW v 0 else ringW v i + 1)"
    using Addr4 n(2) f by (simp add: wrapNext_def slot_def pfx_Contains_def pfx_IsValid_def addr_IsValid_def nat_diff_bits Let_def
        del: drop_bit_xor)
  also have "\<dots> = Addr4 (ringW v (if i + 1 < 2 ^ (32 - nat (pfx_bits p)) - 1 then i + 1 else 0))"
    by (simp only: ringW_next [OF n(1) i])
  finally show ?thesis using Addr4 by (simp add: slot_def capacity_def)
next
  case (Addr6 v z)
  have n: "netAddr (128 - nat (pfx_bits p)) v" "0 \<le> pfx_bits p" "z = []" using assms(1) Addr6 by (simp_all add: goodRange_def)
  have i: "i < 2 ^ (128 - nat (pfx_bits p)) - 1" using assms(2) Addr6 by (simp add: capacity_def)
  have f: "addr_Next (Addr6 v []) = Addr6 (ringW v 0) []" using slot_first [OF assms(1)] Addr6 n by (simp add: slot_def)
  have "wrapNext (slot p i) p =
      Addr6 (if ringW v i + 1 = 0 \<or> drop_bit (128 - nat (pfx_bits p)) (v XOR (ringW v i + 1)) \<noteq> 0 then ringW v 0 else ringW v i + 1) []"
    using Addr6 n(2,3) f by (simp add: wrapNext_def slot_def pfx_Contains_def pfx_IsValid_def addr_IsValid_def nat_diff_bits Let_def
        del: drop_bit_xor)
  also have "\<dots> = Addr6 (ringW v (if i + 1 < 2 ^ (128 - nat (pfx_bits p)) - 1 then i + 1 else 0)) []"
    by (simp only: ringW_next [OF n(1) i])
  finally show ?thesis using Addr6 by (simp add: slot_def capacity_def)
qed (use assms in \<open>simp add: goodRange_def\<close>)


section \<open>The two families\<close>

definition fam :: "u16 \<Rightarrow> bool" where
  "fam q = (q = TypeA \<or> q = TypeAAAA)"

definition have' :: "u16 \<Rightarrow> fakeIPPool \<Rightarrow> bool" where
  "have' q p = (if q = TypeA then fp_have4 p else q = TypeAAAA \<and> fp_have6 p)"

definition range' :: "u16 \<Rightarrow> fakeIPPool \<Rightarrow> Prefix" where
  "range' q p = (if q = TypeA then fp_p4 p else fp_p6 p)"

definition cur' :: "u16 \<Rightarrow> fakeIPPool \<Rightarrow> Addr" where
  "cur' q p = (if q = TypeA then fp_cur4 p else fp_cur6 p)"

definition names' :: "u16 \<Rightarrow> fakeIPPool \<Rightarrow> string \<rightharpoonup> Addr" where
  "names' q p = (if q = TypeA then fp_d2v4 p else fp_d2v6 p)"

text \<open>The names and the addresses in use lead to each other, and the cursor is at an address of its range.\<close>

definition poolInv :: "fakeIPPool \<Rightarrow> bool" where
  "poolInv p =
    ((\<forall>q. have' q p \<longrightarrow> goodRange (range' q p) \<and> (\<exists>c < capacity (range' q p). cur' q p = slot (range' q p) c))
     \<and> (fp_have4 p \<longrightarrow> Is4 (pfx_ip (fp_p4 p))) \<and> (fp_have6 p \<longrightarrow> Is6 (pfx_ip (fp_p6 p)))
     \<and> (\<forall>q h ip. names' q p h = Some ip \<longrightarrow> fp_ip2d p ip = Some h \<and> ip \<noteq> AddrZero
          \<and> (fam q \<longrightarrow> have' q p \<and> (\<exists>i < capacity (range' q p). ip = slot (range' q p) i)))
     \<and> (\<forall>ip h. fp_ip2d p ip = Some h \<longrightarrow> names' TypeA p h = Some ip \<or> names' TypeAAAA p h = Some ip))"

text \<open>Every name's address leads back to it.\<close>

definition linked :: "fakeIPPool \<Rightarrow> bool" where
  "linked p = (\<forall>h ip. fp_d2v4 p h = Some ip \<or> fp_d2v6 p h = Some ip \<longrightarrow> fp_ip2d p ip = Some h)"

lemma evict_fields:
  assumes "linked p" "ip \<noteq> AddrZero"
  shows "fp_ip2d (evictLocked ip p) = (fp_ip2d p)(ip := None)"
    "fp_d2v4 (evictLocked ip p) = (\<lambda>h. if fp_d2v4 p h = Some ip then None else fp_d2v4 p h)"
    "fp_d2v6 (evictLocked ip p) = (\<lambda>h. if fp_d2v6 p h = Some ip then None else fp_d2v6 p h)"
    "fp_p4 (evictLocked ip p) = fp_p4 p" "fp_p6 (evictLocked ip p) = fp_p6 p"
    "fp_have4 (evictLocked ip p) = fp_have4 p" "fp_have6 (evictLocked ip p) = fp_have6 p"
    "fp_cur4 (evictLocked ip p) = fp_cur4 p" "fp_cur6 (evictLocked ip p) = fp_cur6 p"
proof -
  have g: "getAddr m h = ip \<longleftrightarrow> m h = Some ip" for m h using assms(2) by (auto simp: getAddr_def split: option.splits)
  have a: "fp_d2v4 p h = Some ip \<Longrightarrow> fp_ip2d p ip = Some h" "fp_d2v6 p h = Some ip \<Longrightarrow> fp_ip2d p ip = Some h" for h
    using assms(1) unfolding linked_def by blast+
  show "fp_ip2d (evictLocked ip p) = (fp_ip2d p)(ip := None)"
    by (auto simp: evictLocked_def Let_def split: option.split)
  show "fp_d2v4 (evictLocked ip p) = (\<lambda>h. if fp_d2v4 p h = Some ip then None else fp_d2v4 p h)"
    using a(1) by (fastforce simp: evictLocked_def Let_def g split: option.split)
  show "fp_d2v6 (evictLocked ip p) = (\<lambda>h. if fp_d2v6 p h = Some ip then None else fp_d2v6 p h)"
    using a(2) by (fastforce simp: evictLocked_def Let_def g split: option.split)
qed (simp_all add: evictLocked_def Let_def split: option.split)

lemma poolInv_cur:
  assumes "poolInv p" "have' q p"
  obtains c where "c < capacity (range' q p)" "cur' q p = slot (range' q p) c" "goodRange (range' q p)" "cur' q p \<noteq> AddrZero"
  using assms slot_valid unfolding poolInv_def by metis

text \<open>What an allocation of a new name does.\<close>

definition afterAlloc :: "u16 \<Rightarrow> string \<Rightarrow> fakeIPPool \<Rightarrow> fakeIPPool \<Rightarrow> bool" where
  "afterAlloc q host p p' =
    (cur' q p' = wrapNext (cur' q p) (range' q p) \<and> (\<forall>q'. fam q' \<longrightarrow> q' \<noteq> q \<longrightarrow> cur' q' p' = cur' q' p)
     \<and> fp_p4 p' = fp_p4 p \<and> fp_p6 p' = fp_p6 p \<and> fp_have4 p' = fp_have4 p \<and> fp_have6 p' = fp_have6 p
     \<and> (\<forall>q' h. fam q' \<longrightarrow> names' q' p' h = (if q' = q \<and> h = host then Some (cur' q p)
          else if names' q' p h = Some (cur' q p) then None else names' q' p h))
     \<and> fp_ip2d p' = (fp_ip2d p)(cur' q p \<mapsto> host))"

lemma poolInv_linked: "poolInv p \<Longrightarrow> linked p"
proof -
  assume "poolInv p"
  then have n: "\<forall>q h ip. names' q p h = Some ip \<longrightarrow> fp_ip2d p ip = Some h" unfolding poolInv_def by blast
  show ?thesis unfolding linked_def
    using n [rule_format, of TypeA] n [rule_format, of TypeAAAA] by (simp add: names'_def)
qed

lemma linked_cur [simp]: "linked (p\<lparr>fp_cur4 := a\<rparr>) = linked p" "linked (p\<lparr>fp_cur6 := a\<rparr>) = linked p"
  by (simp_all add: linked_def)

lemma alloc_fresh:
  assumes "poolInv p" "fam q" "have' q p" "names' q p (trimSuffix name ''.'') = None"
  shows "\<exists>p'. alloc name q p = (Some (cur' q p), p') \<and> afterAlloc q (trimSuffix name ''.'') p p'"
proof -
  have z: "cur' q p \<noteq> AddrZero" using poolInv_cur [OF assms(1,3)] by blast
  have l: "linked p" by (rule poolInv_linked [OF assms(1)])
  show ?thesis
  proof (cases "q = TypeA")
    case True
    then show ?thesis
      using assms(3,4) evict_fields [of "p\<lparr>fp_cur4 := wrapNext (fp_cur4 p) (fp_p4 p)\<rparr>" "fp_cur4 p"] l z
      by (simp add: alloc_def have'_def names'_def cur'_def range'_def afterAlloc_def fam_def Let_def)
  next
    case False
    then have "q = TypeAAAA" using assms(2) by (simp add: fam_def)
    then show ?thesis
      using assms(3,4) evict_fields [of "p\<lparr>fp_cur6 := wrapNext (fp_cur6 p) (fp_p6 p)\<rparr>" "fp_cur6 p"] l z
      by (simp add: alloc_def have'_def names'_def cur'_def range'_def afterAlloc_def fam_def Let_def)
  qed
qed

lemma alloc_kept: "\<not> fam q \<or> \<not> have' q p \<Longrightarrow> alloc name q p = (None, p)"
    "fam q \<Longrightarrow> have' q p \<Longrightarrow> names' q p (trimSuffix name ''.'') = Some ip \<Longrightarrow> alloc name q p = (Some ip, p)"
  by (auto simp: alloc_def fam_def have'_def names'_def Let_def split: if_splits)

lemma afterAlloc_frame:
  assumes "afterAlloc q host p p'"
  shows "have' q' p' = have' q' p" "range' q' p' = range' q' p"
  using assms by (simp_all add: afterAlloc_def have'_def range'_def)

lemma poolInv_fam:
  assumes "poolInv p"
  shows "have' TypeA p \<Longrightarrow> Is4 (slot (range' TypeA p) i)" "have' TypeAAAA p \<Longrightarrow> \<not> Is4 (slot (range' TypeAAAA p) i)"
proof -
  have "fp_have4 p \<longrightarrow> Is4 (pfx_ip (fp_p4 p))" "fp_have6 p \<longrightarrow> Is6 (pfx_ip (fp_p6 p))"
    using assms unfolding poolInv_def by blast+
  then show "have' TypeA p \<Longrightarrow> Is4 (slot (range' TypeA p) i)" "have' TypeAAAA p \<Longrightarrow> \<not> Is4 (slot (range' TypeAAAA p) i)"
    by (cases "pfx_ip (fp_p4 p)"; cases "pfx_ip (fp_p6 p)"; simp add: have'_def range'_def slot_def)+
qed

lemma poolInv_disjoint:
  assumes "poolInv p" "fam q" "fam q'" "have' q p" "have' q' p" "slot (range' q p) i = slot (range' q' p) j"
  shows "q = q'"
  using poolInv_fam [OF assms(1)] assms(2-6) unfolding fam_def by metis

lemma poolInv_after:
  assumes inv: "poolInv p" and q: "fam q" "have' q p" "names' q p host = None" and af: "afterAlloc q host p p'"
  shows "poolInv p'"
proof -
  obtain c where c: "c < capacity (range' q p)" "cur' q p = slot (range' q p) c" "goodRange (range' q p)" "cur' q p \<noteq> AddrZero"
    using poolInv_cur [OF inv q(2)] by blast
  note fr = afterAlloc_frame [OF af]
  have n: "names' q' p' h = (if q' = q \<and> h = host then Some (cur' q p)
          else if names' q' p h = Some (cur' q p) then None else names' q' p h)" if "fam q'" for q' h
    using af that unfolding afterAlloc_def by blast
  have ip: "fp_ip2d p' = (fp_ip2d p)(cur' q p \<mapsto> host)" using af unfolding afterAlloc_def by blast
  have nm: "fp_ip2d p a = Some h" "a \<noteq> AddrZero" "fam q' \<Longrightarrow> have' q' p \<and> (\<exists>i < capacity (range' q' p). a = slot (range' q' p) i)"
    if "names' q' p h = Some a" for q' h a
    using inv that unfolding poolInv_def by blast+
  have bk: "names' TypeA p h = Some a \<or> names' TypeAAAA p h = Some a" if "fp_ip2d p a = Some h" for a h
    using inv that unfolding poolInv_def by blast
  have fA: "fam TypeA" "fam TypeAAAA" by (simp_all add: fam_def)
  have cur: "\<exists>c < capacity (range' q' p'). cur' q' p' = slot (range' q' p') c" if h: "have' q' p'" for q'
  proof -
    have fq: "fam q'" "have' q' p" using h fr by (auto simp: fam_def have'_def split: if_splits)
    show ?thesis
    proof (cases "q' = q")
      case True
      have "cur' q p' = slot (range' q p) (if c + 1 < capacity (range' q p) then c + 1 else 0)"
        using af slot_next [OF c(3,1)] c(2) unfolding afterAlloc_def by simp
      moreover have "(if c + 1 < capacity (range' q p) then c + 1 else 0) < capacity (range' q p)"
        using capacity_pos [OF c(3)] by simp
      ultimately show ?thesis using True fr(2) by metis
    next
      case False
      then have "cur' q' p' = cur' q' p" using af fq unfolding afterAlloc_def by blast
      then show ?thesis using poolInv_cur [OF inv fq(2)] fr(2) by metis
    qed
  qed
  have names: "fp_ip2d p' a = Some h \<and> a \<noteq> AddrZero \<and> have' q' p' \<and> (\<exists>i < capacity (range' q' p'). a = slot (range' q' p') i)"
    if f: "fam q'" and s: "names' q' p' h = Some a" for q' h a
  proof (cases "q' = q \<and> h = host")
    case True
    then have "a = cur' q p" using n [OF f, of h] s by simp
    then show ?thesis using True c q(2) ip fr by auto
  next
    case False
    then have o': "names' q' p h = Some a" "a \<noteq> cur' q p" using n [OF f, of h] s by (auto split: if_splits)
    then show ?thesis using nm [OF o'(1)] f ip fr by simp
  qed
  have back': "names' TypeA p' h = Some a \<or> names' TypeAAAA p' h = Some a" if s: "fp_ip2d p' a = Some h" for a h
  proof (cases "a = cur' q p")
    case True
    then have "h = host" using s ip by simp
    then show ?thesis using True n [OF q(1), of host] q(1) by (auto simp: fam_def)
  next
    case False
    then have "fp_ip2d p a = Some h" using s ip by simp
    from bk [OF this] show ?thesis using n [OF fA(1), of h] n [OF fA(2), of h] False q(3) by auto
  qed
  have other: "names' q' p' = names' TypeAAAA p'" if "\<not> fam q'" for q' using that by (simp add: names'_def fam_def)
  have "(\<forall>q' h a. names' q' p' h = Some a \<longrightarrow> fp_ip2d p' a = Some h \<and> a \<noteq> AddrZero
          \<and> (fam q' \<longrightarrow> have' q' p' \<and> (\<exists>i < capacity (range' q' p'). a = slot (range' q' p') i)))"
    using names other fA by metis
  moreover have "\<forall>q'. have' q' p' \<longrightarrow> goodRange (range' q' p')" using inv fr unfolding poolInv_def by simp
  moreover have "fp_have4 p' \<longrightarrow> Is4 (pfx_ip (fp_p4 p'))" "fp_have6 p' \<longrightarrow> Is6 (pfx_ip (fp_p6 p'))"
    using inv af unfolding poolInv_def afterAlloc_def by simp_all
  ultimately show ?thesis unfolding poolInv_def using cur back' by blast
qed


section \<open>Runs\<close>

fun allocs :: "(string \<times> u16) list \<Rightarrow> fakeIPPool \<Rightarrow> fakeIPPool" where
  "allocs [] p = p"
| "allocs ((name, q) # ops) p = allocs ops (snd (alloc name q p))"

lemma alloc_cases:
  assumes "poolInv p"
  obtains (same) "snd (alloc name q p) = p"
  | (new) "fam q" "have' q p" "names' q p (trimSuffix name ''.'') = None" "fst (alloc name q p) = Some (cur' q p)"
      "afterAlloc q (trimSuffix name ''.'') p (snd (alloc name q p))"
proof (cases "fam q \<and> have' q p \<and> names' q p (trimSuffix name ''.'') = None")
  case True
  then show ?thesis using alloc_fresh [OF assms, of q name] new by auto
next
  case False
  then have "snd (alloc name q p) = p"
    using alloc_kept [of q p name] by (cases "fam q \<and> have' q p"; cases "names' q p (trimSuffix name ''.'')") auto
  then show ?thesis by (rule same)
qed

lemma poolInv_alloc: "poolInv p \<Longrightarrow> poolInv (snd (alloc name q p))"
  by (rule alloc_cases [of p name q]) (auto intro: poolInv_after)

lemma poolInv_allocs: "poolInv p \<Longrightarrow> poolInv (allocs ops p)"
  by (induction ops p rule: allocs.induct) (simp_all add: poolInv_alloc)

text \<open>How many allocations bring the cursor from \<open>c\<close> to \<open>i\<close>.\<close>

definition gap :: "nat \<Rightarrow> nat \<Rightarrow> nat \<Rightarrow> nat" where
  "gap N c i = (if c \<le> i then i - c else N - c + i)"

lemma gap_next: "c < N \<Longrightarrow> i < N \<Longrightarrow> c \<noteq> i \<Longrightarrow> gap N (if c + 1 < N then c + 1 else 0) i = gap N c i - 1 \<and> 0 < gap N c i"
  by (auto simp: gap_def)

lemma gap_after: "i < N \<Longrightarrow> gap N (if i + 1 < N then i + 1 else 0) i = N - 1"
  by (auto simp: gap_def)

lemma kept_while_gap:
  assumes "poolInv p" "fam q" "have' q p" "i < capacity (range' q p)" "fp_ip2d p (slot (range' q p) i) = Some h"
    and "c < capacity (range' q p)" "cur' q p = slot (range' q p) c" "length ops \<le> gap (capacity (range' q p)) c i"
  shows "fp_ip2d (allocs ops p) (slot (range' q p) i) = Some h"
  using assms
proof (induction ops arbitrary: p c)
  case (Cons op ops)
  obtain name q' where op: "op = (name, q')" by fastforce
  let ?p = "snd (alloc name q' p)" and ?r = "range' q p" and ?N = "capacity (range' q p)"
  have inv: "poolInv ?p" by (rule poolInv_alloc [OF Cons.prems(1)])
  have gr: "goodRange ?r" using poolInv_cur [OF Cons.prems(1,3)] by blast
  show ?case
  proof (rule alloc_cases [OF Cons.prems(1), of name q'])
    assume "?p = p"
    then show ?thesis using Cons.IH [OF Cons.prems(1-7)] Cons.prems(8) op by simp
  next
    assume f: "fam q'" "have' q' p" and af: "afterAlloc q' (trimSuffix name ''.'') p ?p"
    note fr = afterAlloc_frame [OF af]
    have ip: "fp_ip2d ?p = (fp_ip2d p)(cur' q' p \<mapsto> trimSuffix name ''.'')" using af unfolding afterAlloc_def by blast
    show ?thesis
    proof (cases "q' = q")
      case True
      have "c \<noteq> i" using Cons.prems(8) by (auto simp: gap_def)
      then have ne: "cur' q' p \<noteq> slot ?r i" using slot_inj [OF gr Cons.prems(6,4)] Cons.prems(7) True by auto
      have cu: "cur' q ?p = slot ?r (if c + 1 < ?N then c + 1 else 0)"
        using af True slot_next [OF gr Cons.prems(6)] Cons.prems(7) unfolding afterAlloc_def by simp
      have lt: "(if c + 1 < ?N then c + 1 else 0) < ?N" using capacity_pos [OF gr] by simp
      have le: "length ops \<le> gap ?N (if c + 1 < ?N then c + 1 else 0) i"
        using gap_next [OF Cons.prems(6,4) \<open>c \<noteq> i\<close>] Cons.prems(8) by simp
      have e: "have' q ?p" "range' q ?p = ?r" using fr Cons.prems(3) by simp_all
      have "fp_ip2d (allocs ops ?p) (slot (range' q ?p) i) = Some h"
      proof (rule Cons.IH [OF inv Cons.prems(2)])
        show "fp_ip2d ?p (slot (range' q ?p) i) = Some h" using ip ne e Cons.prems(5) by simp
        show "cur' q ?p = slot (range' q ?p) (if c + 1 < ?N then c + 1 else 0)" using cu e by simp
        show "length ops \<le> gap (capacity (range' q ?p)) (if c + 1 < ?N then c + 1 else 0) i" using le e by simp
      qed (use e lt Cons.prems(4) in simp_all)
      then show ?thesis using e op by simp
    next
      case False
      obtain c' where "cur' q' p = slot (range' q' p) c'" using poolInv_cur [OF Cons.prems(1) f(2)] by blast
      then have ne: "cur' q' p \<noteq> slot ?r i" using poolInv_disjoint [OF Cons.prems(1) f(1) Cons.prems(2) f(2) Cons.prems(3)] False by auto
      have e: "have' q ?p" "range' q ?p = ?r" using fr Cons.prems(3) by simp_all
      have cu: "cur' q ?p = slot ?r c" using af False Cons.prems(2,7) unfolding afterAlloc_def by auto
      have "fp_ip2d (allocs ops ?p) (slot (range' q ?p) i) = Some h"
      proof (rule Cons.IH [OF inv Cons.prems(2)])
        show "fp_ip2d ?p (slot (range' q ?p) i) = Some h" using ip ne e Cons.prems(5) by simp
        show "cur' q ?p = slot (range' q ?p) c" using cu e by simp
      qed (use e Cons.prems(4,6,8) in simp_all)
      then show ?thesis using e op by simp
    qed
  qed
qed simp


section \<open>From a configuration\<close>

text \<open>
  Ranges the pool can work with: an IPv4 range of IPv4 addresses with more than one address, an IPv6
  range with more than one address and no IPv4-mapped one.
\<close>

definition rangesOK :: "FakeIPConfig \<Rightarrow> bool" where
  "rangesOK cfg =
    ((pfx_IsValid (fc_Inet4 cfg) \<longrightarrow> Is4 (pfx_ip (fc_Inet4 cfg)) \<and> pfx_bits (fc_Inet4 cfg) < 32)
     \<and> (pfx_IsValid (fc_Inet6 cfg) \<longrightarrow> Is6 (pfx_ip (fc_Inet6 cfg)) \<and> pfx_bits (fc_Inet6 cfg) < 128
          \<and> (\<forall>w. pfx_Contains (fc_Inet6 cfg) (Addr6 w []) \<longrightarrow> drop_bit 32 w \<noteq> 0xffff)))"

lemma netAddr_masked: "1 \<le> k \<Longrightarrow> k \<le> LENGTH('a) \<Longrightarrow> netAddr k (push_bit k (drop_bit k (v :: 'a::len word)))"
  by (simp add: netAddr_def)

lemma goodRange_masked:
  assumes "pfx_IsValid p" "pfx_ip p \<noteq> AddrZero" "pfx_bits p < int (BitLen (pfx_ip p))"
  shows "goodRange (pfx_Masked p)"
  using assms netAddr_masked [of "32 - nat (pfx_bits p)", where 'a = 32] netAddr_masked [of "128 - nat (pfx_bits p)", where 'a = 128]
  by (cases "pfx_ip p") (simp_all add: goodRange_def pfx_Masked_def pfx_IsValid_def Let_def nat_diff_bits)

lemma Masked_family: "Is4 (pfx_ip (pfx_Masked p)) = (pfx_IsValid p \<and> Is4 (pfx_ip p))" "Is6 (pfx_ip (pfx_Masked p)) = (pfx_IsValid p \<and> Is6 (pfx_ip p))"
  by (cases "pfx_ip p"; simp add: pfx_Masked_def Let_def)+

lemma poolInv_new:
  assumes "rangesOK cfg"
  shows "poolInv (newFakeIPPool cfg)"
proof -
  let ?p = "newFakeIPPool cfg"
  have h4: "fp_have4 ?p \<Longrightarrow> pfx_IsValid (fc_Inet4 cfg) \<and> fp_p4 ?p = pfx_Masked (fc_Inet4 cfg) \<and> fp_cur4 ?p = addr_Next (pfx_ip (fp_p4 ?p))"
    by (auto simp: newFakeIPPool_def Let_def split: if_splits)
  have h6: "fp_have6 ?p \<Longrightarrow> pfx_IsValid (fc_Inet6 cfg) \<and> fp_p6 ?p = pfx_Masked (fc_Inet6 cfg) \<and> fp_cur6 ?p = addr_Next (pfx_ip (fp_p6 ?p))"
    by (auto simp: newFakeIPPool_def Let_def split: if_splits)
  have e: "fp_d2v4 ?p = Map.empty" "fp_d2v6 ?p = Map.empty" "fp_ip2d ?p = Map.empty"
    by (simp_all add: newFakeIPPool_def Let_def)
  have i4: "pfx_IsValid (fc_Inet4 cfg) \<Longrightarrow> Is4 (pfx_ip (fc_Inet4 cfg)) \<and> pfx_bits (fc_Inet4 cfg) < 32"
    and i6: "pfx_IsValid (fc_Inet6 cfg) \<Longrightarrow> Is6 (pfx_ip (fc_Inet6 cfg)) \<and> pfx_bits (fc_Inet6 cfg) < 128"
    using assms unfolding rangesOK_def by blast+
  have g4: "fp_have4 ?p \<Longrightarrow> goodRange (fp_p4 ?p)"
    using h4 i4 goodRange_masked [of "fc_Inet4 cfg"] by (cases "pfx_ip (fc_Inet4 cfg)") auto
  have g6: "fp_have6 ?p \<Longrightarrow> goodRange (fp_p6 ?p)"
    using h6 i6 goodRange_masked [of "fc_Inet6 cfg"] by (cases "pfx_ip (fc_Inet6 cfg)") auto
  have c4: "fp_have4 ?p \<Longrightarrow> fp_cur4 ?p = slot (fp_p4 ?p) 0 \<and> 0 < capacity (fp_p4 ?p)"
    using h4 slot_first [OF g4] capacity_pos [OF g4] by simp
  have c6: "fp_have6 ?p \<Longrightarrow> fp_cur6 ?p = slot (fp_p6 ?p) 0 \<and> 0 < capacity (fp_p6 ?p)"
    using h6 slot_first [OF g6] capacity_pos [OF g6] by simp
  have "have' q ?p \<longrightarrow> goodRange (range' q ?p) \<and> (\<exists>c < capacity (range' q ?p). cur' q ?p = slot (range' q ?p) c)" for q
    using g4 g6 c4 c6 by (cases "q = TypeA") (auto simp: have'_def range'_def cur'_def)
  moreover have "names' q ?p h = None" for q h using e by (simp add: names'_def)
  moreover have "fp_have4 ?p \<longrightarrow> Is4 (pfx_ip (fp_p4 ?p))" "fp_have6 ?p \<longrightarrow> Is6 (pfx_ip (fp_p6 ?p))"
    using h4 h6 i4 i6 by (auto simp: Masked_family)
  ultimately show ?thesis unfolding poolInv_def using e(3) by simp
qed

text \<open>The ranges of a pool never change.\<close>

definition rangesOf :: "fakeIPPool \<Rightarrow> bool \<times> bool \<times> Prefix \<times> Prefix" where
  "rangesOf p = (fp_have4 p, fp_have6 p, fp_p4 p, fp_p6 p)"

lemma rangesOf_alloc: "poolInv p \<Longrightarrow> rangesOf (snd (alloc name q p)) = rangesOf p"
  by (rule alloc_cases [of p name q]) (auto simp: rangesOf_def afterAlloc_def)

lemma rangesOf_allocs: "poolInv p \<Longrightarrow> rangesOf (allocs ops p) = rangesOf p"
  by (induction ops p rule: allocs.induct) (simp_all add: rangesOf_alloc poolInv_alloc)

lemma rangesOf_cong: "rangesOf p = rangesOf p' \<Longrightarrow> have' q p = have' q p' \<and> range' q p = range' q p'"
  by (simp add: rangesOf_def have'_def range'_def)

lemma plain_slots:
  assumes "rangesOK cfg" "rangesOf p = rangesOf (newFakeIPPool cfg)" "poolInv p" "have' q p" "i < capacity (range' q p)"
  shows "Unmap (slot (range' q p) i) = slot (range' q p) i"
proof (cases "q = TypeA")
  case True
  then have "Is4 (slot (range' q p) i)" using poolInv_fam(1) [OF assms(3), of i] assms(4) by simp
  then show ?thesis by (cases "slot (range' q p) i") simp_all
next
  case False
  then have h: "fp_have6 p" "range' q p = fp_p6 p" using assms(4) by (auto simp: have'_def range'_def split: if_splits)
  then have v: "pfx_IsValid (fc_Inet6 cfg)" "fp_p6 p = pfx_Masked (fc_Inet6 cfg)" "Is6 (pfx_ip (fp_p6 p))"
    using assms(2,3) by (auto simp: rangesOf_def newFakeIPPool_def Let_def poolInv_def split: if_splits)
  obtain w where w: "slot (range' q p) i = Addr6 w []" using v(3) h(2) by (cases "pfx_ip (fp_p6 p)") (simp_all add: slot_def)
  have "goodRange (range' q p)" using poolInv_cur [OF assms(3,4)] by blast
  then have "pfx_Contains (fc_Inet6 cfg) (Addr6 w [])" using slot_contains [OF _ assms(5)] w v(2) h(2) by simp
  then have "drop_bit 32 w \<noteq> 0xffff" using assms(1) v(1) unfolding rangesOK_def by blast
  then show ?thesis using w by simp
qed

lemma alloc_result:
  assumes ok: "rangesOK cfg" and p: "p = allocs ops (newFakeIPPool cfg)" and r: "alloc name q p = (Some ip, p')"
  obtains i where "poolInv p'" "fam q" "have' q p'" "i < capacity (range' q p')" "ip = slot (range' q p') i"
    "fp_ip2d p' ip = Some (trimSuffix name ''.'')" "names' q p' (trimSuffix name ''.'') = Some ip"
    "rangesOf p' = rangesOf (newFakeIPPool cfg)" "Unmap ip = ip"
    "p' \<noteq> p \<Longrightarrow> cur' q p' = slot (range' q p') (if i + 1 < capacity (range' q p') then i + 1 else 0)"
proof -
  let ?h = "trimSuffix name ''.''"
  have inv: "poolInv p" using poolInv_allocs [OF poolInv_new [OF ok]] p by simp
  have inv': "poolInv p'" using poolInv_alloc [OF inv, of name q] r by simp
  have ro: "rangesOf p' = rangesOf (newFakeIPPool cfg)" "rangesOf p' = rangesOf p"
    using rangesOf_alloc [OF inv, of name q] rangesOf_allocs [OF poolInv_new [OF ok], of ops] p r by simp_all
  note eq = rangesOf_cong [OF ro(2), of q]
  have f: "fam q" "have' q p" using r alloc_kept(1) [of q p name] by auto
  have n: "names' q p' ?h = Some ip" and c: "p' \<noteq> p \<Longrightarrow> ip = cur' q p \<and> cur' q p' = wrapNext ip (range' q p)"
  proof -
    show "names' q p' ?h = Some ip"
    proof (cases "names' q p ?h")
      case None
      then show ?thesis using alloc_fresh [OF inv f None] r f(1) unfolding afterAlloc_def by auto
    next
      case (Some a)
      then show ?thesis using alloc_kept(2) [OF f Some] r by simp
    qed
    show "p' \<noteq> p \<Longrightarrow> ip = cur' q p \<and> cur' q p' = wrapNext ip (range' q p)"
      using alloc_cases [OF inv, of name q] r unfolding afterAlloc_def by (metis fst_conv option.inject snd_conv)
  qed
  have m: "fp_ip2d p' ip = Some ?h" "\<exists>i < capacity (range' q p'). ip = slot (range' q p') i"
    using inv' n f(1) unfolding poolInv_def by blast+
  then obtain i where i: "i < capacity (range' q p')" "ip = slot (range' q p') i" by blast
  have gr: "goodRange (range' q p')" using poolInv_cur [OF inv'] f(2) eq by metis
  show ?thesis
  proof (rule that [of i])
    show "Unmap ip = ip" using plain_slots [OF ok ro(1) inv' _ i(1)] f(2) eq i(2) by simp
    show "p' \<noteq> p \<Longrightarrow> cur' q p' = slot (range' q p') (if i + 1 < capacity (range' q p') then i + 1 else 0)"
      using c slot_next [OF gr i(1)] i(2) eq by metis
  qed (use inv' f eq i m(1) n ro in simp_all)
qed


section \<open>Properties\<close>

lemma fakeip_leads_back:
  assumes "rangesOK cfg" "alloc name q (allocs ops (newFakeIPPool cfg)) = (Some ip, p')"
  shows "fp_lookup ip p' = Some (trimSuffix name ''.'') \<and> fp_contains ip p' \<and> alloc name q p' = (Some ip, p')"
proof -
  obtain i where i: "poolInv p'" "fam q" "have' q p'" "i < capacity (range' q p')" "ip = slot (range' q p') i"
    "fp_ip2d p' ip = Some (trimSuffix name ''.'')" "names' q p' (trimSuffix name ''.'') = Some ip" "Unmap ip = ip"
    using alloc_result [OF assms(1) refl assms(2)] by blast
  have "goodRange (range' q p')" using poolInv_cur [OF i(1,3)] by blast
  then have "pfx_Contains (range' q p') ip" using slot_contains i(4,5) by simp
  then have "fp_contains ip p'" using i(3,8) by (auto simp: fp_contains_def have'_def range'_def split: if_splits)
  then show ?thesis using i(2,3,6,7,8) alloc_kept(2) [of q p' name ip] by (simp add: fp_lookup_def)
qed

lemma fakeip_lifetime_aux:
  assumes "rangesOK cfg" "alloc name q (allocs ops (newFakeIPPool cfg)) = (Some ip, p')"
    and "p' \<noteq> allocs ops (newFakeIPPool cfg)" "length later < capacity (range' q p')"
  shows "fp_lookup ip (allocs later p') = Some (trimSuffix name ''.'')"
proof -
  obtain i where i: "poolInv p'" "fam q" "have' q p'" "i < capacity (range' q p')" "ip = slot (range' q p') i"
    "fp_ip2d p' ip = Some (trimSuffix name ''.'')" "Unmap ip = ip"
    "cur' q p' = slot (range' q p') (if i + 1 < capacity (range' q p') then i + 1 else 0)"
    using alloc_result [OF assms(1) refl assms(2)] assms(3) by metis
  have "fp_ip2d (allocs later p') (slot (range' q p') i) = Some (trimSuffix name ''.'')"
  proof (rule kept_while_gap [OF i(1-4)])
    show "fp_ip2d p' (slot (range' q p') i) = Some (trimSuffix name ''.'')" using i(5,6) by simp
    show "(if i + 1 < capacity (range' q p') then i + 1 else 0) < capacity (range' q p')" using i(4) by simp
    show "cur' q p' = slot (range' q p') (if i + 1 < capacity (range' q p') then i + 1 else 0)" by (rule i(8))
    show "length later \<le> gap (capacity (range' q p')) (if i + 1 < capacity (range' q p') then i + 1 else 0) i"
      unfolding gap_after [OF i(4)] using assms(4) by linarith
  qed
  then show ?thesis using i(5,7) by (simp add: fp_lookup_def)
qed

text \<open>
  C33: Whatever was allocated before, an address newly given to a name leads back to that name after
  any further allocations, as long as they are fewer than the addresses of the range; the range must
  be one of more than one address of its own family.
\<close>

theorem fakeip_lifetime:
  assumes "rangesOK cfg" "alloc name q (allocs ops (newFakeIPPool cfg)) = (Some ip, p')"
    and "p' \<noteq> allocs ops (newFakeIPPool cfg)" "length later < capacity (range' q p')"
  shows "fp_lookup ip (allocs later p') = Some (trimSuffix name ''.'')"
  by (rule fakeip_lifetime_aux [OF assms])

text \<open>The ranges the configuration has by default: 198.18.0.0/15 and fc00::/18.\<close>

definition defaultRanges :: FakeIPConfig where
  "defaultRanges = \<lparr> fc_Inet4 = \<lparr> pfx_ip = Addr4 0xc6120000, pfx_bits = 15 \<rparr>,
     fc_Inet6 = \<lparr> pfx_ip = Addr6 0xfc000000000000000000000000000000 [], pfx_bits = 18 \<rparr>, fc_Exclude = [] \<rparr>"

lemma defaultRanges_OK: "rangesOK defaultRanges"
proof -
  have "drop_bit 32 w \<noteq> 0xffff" if "drop_bit 110 (0xfc000000000000000000000000000000 XOR w) = 0" for w :: u128
  proof
    assume w: "drop_bit 32 w = 0xffff"
    have "drop_bit 110 w = drop_bit 78 (drop_bit 32 w)" by simp
    also have "\<dots> = 0" unfolding w by (simp add: drop_bit_eq_div)
    finally have "drop_bit 110 (0xfc000000000000000000000000000000 :: u128) = 0" using that by simp
    then show False by (simp add: drop_bit_eq_div)
  qed
  then show ?thesis by (simp add: rangesOK_def defaultRanges_def pfx_IsValid_def pfx_Contains_def)
qed

lemma default_pool: "newFakeIPPool defaultRanges =
    \<lparr> fp_p4 = \<lparr> pfx_ip = Addr4 0xc6120000, pfx_bits = 15 \<rparr>,
      fp_p6 = \<lparr> pfx_ip = Addr6 0xfc000000000000000000000000000000 [], pfx_bits = 18 \<rparr>, fp_have4 = True, fp_have6 = True,
      fp_cur4 = Addr4 0xc6120001, fp_cur6 = Addr6 0xfc000000000000000000000000000001 [],
      fp_d2v4 = Map.empty, fp_d2v6 = Map.empty, fp_ip2d = Map.empty, fp_exclude = [] \<rparr>"
  by (simp add: newFakeIPPool_def defaultRanges_def Let_def pfx_IsValid_def pfx_Masked_def drop_bit_eq_div push_bit_eq_mult)

lemma default_alloc: "alloc ''a.'' TypeA (newFakeIPPool defaultRanges) =
    (Some (Addr4 0xc6120001), (newFakeIPPool defaultRanges)\<lparr>fp_cur4 := Addr4 0xc6120002,
       fp_d2v4 := [''a'' \<mapsto> Addr4 0xc6120001], fp_ip2d := [Addr4 0xc6120001 \<mapsto> ''a'']\<rparr>)"
  by (simp add: default_pool alloc_def wrapNext_def evictLocked_def addr_IsValid_def pfx_Contains_def pfx_IsValid_def Let_def
      trimSuffix_def hasSuffix_def drop_bit_eq_div)

theorem fakeip_lifetime_witness:
  "fp_lookup (Addr4 0xc6120001) (allocs [(''b'', 1), (''c'', 1)] (snd (alloc ''a.'' 1 (newFakeIPPool defaultRanges)))) = Some ''a''"
proof -
  let ?p = "snd (alloc ''a.'' 1 (newFakeIPPool defaultRanges))"
  have "?p \<noteq> newFakeIPPool defaultRanges"
  proof
    assume "?p = newFakeIPPool defaultRanges"
    then have "fp_ip2d ?p (Addr4 0xc6120001) = fp_ip2d (newFakeIPPool defaultRanges) (Addr4 0xc6120001)" by simp
    then show False unfolding default_alloc by (simp add: default_pool)
  qed
  moreover have "2 < capacity (range' 1 ?p)"
    unfolding default_alloc by (simp add: default_pool range'_def capacity_def)
  ultimately show ?thesis
    using fakeip_lifetime [OF defaultRanges_OK, of "''a.''" 1 "[]" "Addr4 0xc6120001" ?p "[(''b'', 1), (''c'', 1)]"] default_alloc
    by (simp add: trimSuffix_def hasSuffix_def)
qed

end
