(* ===== verification/Dns.thy ===== *)
theory Dns
  imports FakeIP
begin

text \<open>
  The resolver (\<open>dns\<close>): the cache in 256 shards, static hosts, the policies that select the upstream
  servers of a name, and the exchange that goes through hosts, fake addresses, cache and upstream in
  this order.

  The message library (\<open>golang.org/x/net/dns/dnsmessage\<close>) is the argument \<open>lib\<close>; an upstream server
  is a function from a query to its answer or failure.
\<close>

unbundle bit_operations_syntax

section \<open>The cache\<close>

record qkey =
  qk_name :: string
  qk_type :: u16

record entry =
  en_raw :: bytes
  en_expireAt :: int

type_synonym shard = "qkey \<rightharpoonup> entry"
type_synonym cache = "u8 \<Rightarrow> shard"

definition newCache :: cache where
  "newCache = (\<lambda>_. Map.empty)"

definition shardOf :: "qkey \<Rightarrow> u8" where
  "shardOf k =
    (let h = (if length (qk_name k) > 0 then byte_of_char (qk_name k ! (length (qk_name k) - 1)) else 0) in
     h XOR ucast (qk_type k))"

definition cache_get :: "int \<Rightarrow> qkey \<Rightarrow> cache \<Rightarrow> bytes option \<times> cache" where
  "cache_get now k c =
    (case c (shardOf k) k of
       None \<Rightarrow> (None, c)
     | Some e \<Rightarrow>
         if now > en_expireAt e then (None, c(shardOf k := (c (shardOf k))(k := None)))
         else (Some (en_raw e), c))"

abbreviation (input) "seconds \<equiv> (1000000000 :: int)"

definition cache_put :: "int \<Rightarrow> qkey \<Rightarrow> bytes \<Rightarrow> u32 \<Rightarrow> cache \<Rightarrow> cache" where
  "cache_put now k raw ttlSec c =
    (if ttlSec = 0 then c
     else c(shardOf k := (c (shardOf k))(k \<mapsto> \<lparr> en_raw = raw, en_expireAt = now + uint ttlSec * seconds \<rparr>)))"

text \<open>What a cache promises its client.\<close>

locale timed_store =
  fixes get :: "int \<Rightarrow> 'k \<Rightarrow> 's \<Rightarrow> 'v option \<times> 's"
    and put :: "int \<Rightarrow> 'k \<Rightarrow> 'v \<Rightarrow> u32 \<Rightarrow> 's \<Rightarrow> 's"
    and look :: "int \<Rightarrow> 'k \<Rightarrow> 's \<Rightarrow> 'v option"
  assumes get_look: "fst (get t k s) = look t k s"
    and get_keeps: "t \<le> t' \<Longrightarrow> look t' k' (snd (get t k s)) = look t' k' s"
    and get_shrinks: "look t' k' (snd (get t k s)) = Some v \<Longrightarrow> look t' k' s = Some v"
    and put_look: "look t' k' (put t k v n s) =
      (if n = 0 \<or> k' \<noteq> k then look t' k' s else if t' \<le> t + uint n * seconds then Some v else None)"
begin

lemma get_after_put: "n \<noteq> 0 \<Longrightarrow> t' \<le> t + uint n * seconds \<Longrightarrow> fst (get t' k (put t k v n s)) = Some v"
  by (simp add: get_look put_look)

lemma get_other: "k' \<noteq> k \<Longrightarrow> fst (get t' k' (put t k v n s)) = fst (get t' k' s)"
  by (simp add: get_look put_look)

text \<open>Whatever satisfies a predicate stays in the store only with values that do.\<close>

lemma put_all: "(\<And>t k v. look t k s = Some v \<Longrightarrow> P k v) \<Longrightarrow> P k0 v0 \<Longrightarrow> look t k (put t0 k0 v0 n s) = Some v \<Longrightarrow> P k v"
  by (auto simp: put_look split: if_splits)

end

definition cache_look :: "int \<Rightarrow> qkey \<Rightarrow> cache \<Rightarrow> bytes option" where
  "cache_look now k c = (case c (shardOf k) k of Some e \<Rightarrow> if now \<le> en_expireAt e then Some (en_raw e) else None | None \<Rightarrow> None)"

interpretation store: timed_store cache_get cache_put cache_look
proof
  fix t t' k k' s and v :: bytes and n :: u32
  show "fst (cache_get t k s) = cache_look t k s"
    by (simp add: cache_get_def cache_look_def split: option.split)
  show "cache_look t' k' (snd (cache_get t k s)) = cache_look t' k' s" if "t \<le> t'"
    using that by (auto simp: cache_get_def cache_look_def split: option.splits)
  show "cache_look t' k' s = Some v" if "cache_look t' k' (snd (cache_get t k s)) = Some v"
    using that by (auto simp: cache_get_def cache_look_def split: option.splits if_splits)
  show "cache_look t' k' (cache_put t k v n s) =
      (if n = 0 \<or> k' \<noteq> k then cache_look t' k' s else if t' \<le> t + uint n * seconds then Some v else None)"
    by (auto simp: cache_put_def cache_look_def split: option.split)
qed

section \<open>Names\<close>

definition dnsLower :: "string \<Rightarrow> string" where
  "dnsLower s = map (\<lambda>c. if 65 \<le> (of_char c :: nat) \<and> (of_char c :: nat) \<le> 90 then char_of ((of_char c :: nat) + 32) else c) s"

definition dnsName :: "string \<Rightarrow> string" where
  "dnsName host = dnsLower (if host = [] \<or> last host \<noteq> CHR ''.'' then host @ ''.'' else host)"

function bareLoop :: "string \<Rightarrow> string" where
  "bareLoop s = (if length s > 0 \<and> s ! (length s - 1) = CHR ''.'' then bareLoop (take (length s - 1) s) else s)"
  by auto
termination by (relation "measure length") auto

declare bareLoop.simps [simp del]

definition bareLower :: "string \<Rightarrow> string" where
  "bareLower s = bareLoop (toLower s)"

section \<open>Hosts\<close>

type_synonym hostsMap = "string \<rightharpoonup> Addr list"

definition newHosts :: "(string \<times> Addr list) list \<Rightarrow> hostsMap option" where
  "newHosts inp = (if inp = [] then None else Some (fold (\<lambda>(name, addrs) m. m(dnsName name \<mapsto> addrs)) inp Map.empty))"

definition hosts_lookup :: "string \<Rightarrow> u16 \<Rightarrow> hostsMap option \<Rightarrow> Addr list option" where
  "hosts_lookup name qtype h =
    (case h of
       None \<Rightarrow> None
     | Some m \<Rightarrow>
         (case m name of
            None \<Rightarrow> None
          | Some addrs \<Rightarrow>
              if qtype \<noteq> TypeA \<and> qtype \<noteq> TypeAAAA then Some []
              else Some (filter (\<lambda>a. (qtype = TypeA \<and> Is4 a) \<or> (qtype = TypeAAAA \<and> Is6 a \<and> \<not> Is4In6 a)) addrs)))"

section \<open>Policies\<close>

record domainMatcher =
  dm_exact :: "string list"
  dm_suffix :: "string list"
  dm_keyword :: "string list"

record NameserverPolicy =
  np_Domain :: "string list"
  np_DomainSuffix :: "string list"
  np_DomainKeyword :: "string list"
  np_Nameservers :: "string list"

definition newDomainMatcher :: "string list \<Rightarrow> string list \<Rightarrow> string list \<Rightarrow> domainMatcher" where
  "newDomainMatcher domain suf keyword =
    \<lparr> dm_exact = map bareLower domain, dm_suffix = map bareLower suf, dm_keyword = map toLower keyword \<rparr>"

definition dm_match :: "string \<Rightarrow> domainMatcher \<Rightarrow> bool" where
  "dm_match name m =
    (let n = bareLower name in
     n \<in> set (dm_exact m)
     \<or> list_ex (\<lambda>s. n = s \<or> (length n > length s \<and> hasSuffix n s \<and> n ! (length n - length s - 1) = CHR ''.'')) (dm_suffix m)
     \<or> list_ex (\<lambda>k. contains n k) (dm_keyword m))"

datatype dnsErr = ErrDisabled | ErrAllUpstreamsFailed | NoDomainDim nat | NoNameserver nat | UnknownTag nat string
  | NoServers | UnknownStrategy string | NoDetour string | BadAddress string | BadName string | NoRecords string

datatype strat = stratRace | stratSequential

record 'u policyRule =
  pr_m :: domainMatcher
  pr_ups :: "'u list"

record 'u plan =
  pl_nameservers :: "'u list"
  pl_policies :: "'u policyRule list"
  pl_strategy :: strat
  pl_hosts :: "hostsMap option"

fun tagged :: "nat \<Rightarrow> string list \<Rightarrow> (string \<rightharpoonup> 'u) \<Rightarrow> (dnsErr, 'u list) result" where
  "tagged i [] byTag = Inr []"
| "tagged i (tag # tags) byTag =
    (case byTag tag of None \<Rightarrow> Inl (UnknownTag i tag) | Some u \<Rightarrow> res_bind (tagged i tags byTag) (\<lambda>us. Inr (u # us)))"

fun buildPoliciesFrom :: "nat \<Rightarrow> NameserverPolicy list \<Rightarrow> (string \<rightharpoonup> 'u) \<Rightarrow> (dnsErr, 'u policyRule list) result" where
  "buildPoliciesFrom i [] byTag = Inr []"
| "buildPoliciesFrom i (pol # pols) byTag =
    (if length (np_Domain pol) + length (np_DomainSuffix pol) + length (np_DomainKeyword pol) = 0 then Inl (NoDomainDim i)
     else if np_Nameservers pol = [] then Inl (NoNameserver i)
     else
       res_bind (tagged i (np_Nameservers pol) byTag) (\<lambda>ups.
         res_bind (buildPoliciesFrom (i + 1) pols byTag) (\<lambda>prs.
           Inr (\<lparr> pr_m = newDomainMatcher (np_Domain pol) (np_DomainSuffix pol) (np_DomainKeyword pol), pr_ups = ups \<rparr> # prs))))"

definition buildPolicies :: "NameserverPolicy list \<Rightarrow> (string \<rightharpoonup> 'u) \<Rightarrow> (dnsErr, 'u policyRule list) result" where
  "buildPolicies policies byTag = buildPoliciesFrom 0 policies byTag"

definition upstreamsFor :: "string \<Rightarrow> 'u plan \<Rightarrow> 'u list" where
  "upstreamsFor name p =
    (if name \<noteq> [] then
       (case find (\<lambda>r. dm_match name (pr_m r)) (pl_policies p) of Some r \<Rightarrow> pr_ups r | None \<Rightarrow> pl_nameservers p)
     else pl_nameservers p)"

text \<open>A configured server: its tag, address, and outbound; \<open>mk\<close> is \<open>parseNameserver\<close> with the outbound set.\<close>

record 'd Nameserver =
  ns_Tag :: string
  ns_Address :: string
  ns_SNI :: string
  ns_Insecure :: bool
  ns_Detour :: "'d option"

fun buildServers :: "(string \<Rightarrow> string \<Rightarrow> bool \<Rightarrow> string \<Rightarrow> 'd \<Rightarrow> 'u option) \<Rightarrow> 'd Nameserver list \<Rightarrow> 'u list \<Rightarrow> (string \<rightharpoonup> 'u)
    \<Rightarrow> (dnsErr, 'u list \<times> (string \<rightharpoonup> 'u)) result" where
  "buildServers mk [] ups byTag = Inr (ups, byTag)"
| "buildServers mk (ns # nss) ups byTag =
    (case ns_Detour ns of
       None \<Rightarrow> Inl (NoDetour (ns_Tag ns))
     | Some d \<Rightarrow>
         (case mk (ns_Address ns) (ns_SNI ns) (ns_Insecure ns) (ns_Tag ns) d of
            None \<Rightarrow> Inl (BadAddress (ns_Address ns))
          | Some u \<Rightarrow> buildServers mk nss (ups @ [u]) (if ns_Tag ns \<noteq> [] then byTag(ns_Tag ns \<mapsto> u) else byTag)))"

definition buildPlan :: "(string \<Rightarrow> string \<Rightarrow> bool \<Rightarrow> string \<Rightarrow> 'd \<Rightarrow> 'u option) \<Rightarrow> 'd Nameserver list \<Rightarrow> NameserverPolicy list
    \<Rightarrow> string \<Rightarrow> (string \<times> Addr list) list \<Rightarrow> (dnsErr, 'u plan) result" where
  "buildPlan mk nss policies strategy hosts =
    (if nss = [] then Inl NoServers
     else
       res_bind (if strategy = [] \<or> strategy = ''race'' then Inr stratRace
                 else if strategy = ''sequential'' then Inr stratSequential
                 else Inl (UnknownStrategy strategy)) (\<lambda>st.
         res_bind (buildServers mk nss [] Map.empty) (\<lambda>(ups, byTag).
           res_bind (buildPolicies policies byTag) (\<lambda>prs.
             Inr \<lparr> pl_nameservers = ups, pl_policies = prs, pl_strategy = st, pl_hosts = newHosts hosts \<rparr>))))"

section \<open>Messages\<close>

text \<open>
  What the resolver uses of the message library.  \<open>ml_question\<close> is the first question of a message;
  \<open>ml_answers\<close> are the answers in order, each with the address it holds where its body can be read
  (\<^const>\<open>None\<close> otherwise, and then it is the last one the library gets to); \<open>ml_pack\<close> builds a message.
\<close>

record answer =
  an_type :: u16
  an_ttl :: u32
  an_body :: "Addr option option"

record msg =
  mg_id :: u16
  mg_response :: bool
  mg_name :: string
  mg_type :: u16
  mg_answers :: "Addr list"

record msglib =
  ml_question :: "bytes \<Rightarrow> (string \<times> u16) option"
  ml_answers :: "bytes \<Rightarrow> answer list option"
  ml_name :: "string \<Rightarrow> bool"
  ml_pack :: "msg \<Rightarrow> bytes option"

definition parseQuery :: "msglib \<Rightarrow> bytes \<Rightarrow> (qkey option \<times> u16)" where
  "parseQuery lib raw =
    (if length raw < 12 then (None, 0)
     else
       (let txid = get16 (raw ! 0) (raw ! 1) in
        case ml_question lib raw of
          None \<Rightarrow> (None, txid)
        | Some (name, ty) \<Rightarrow> (Some \<lparr> qk_name = toLower name, qk_type = ty \<rparr>, txid)))"

fun minTTLLoop :: "answer list \<Rightarrow> u32 option \<Rightarrow> u32 option" where
  "minTTLLoop [] m = m"
| "minTTLLoop (a # as) m =
    (let m = (case m of None \<Rightarrow> Some (an_ttl a) | Some x \<Rightarrow> if an_ttl a < x then Some (an_ttl a) else Some x) in
     if an_body a = None then m else minTTLLoop as m)"

definition minTTL :: "msglib \<Rightarrow> bytes \<Rightarrow> u32 option" where
  "minTTL lib raw = (case ml_answers lib raw of None \<Rightarrow> None | Some as \<Rightarrow> minTTLLoop as None)"

definition setTxID :: "bytes \<Rightarrow> u16 \<Rightarrow> bytes" where
  "setTxID raw txid = (if length raw \<ge> 2 then be16 txid @ drop 2 raw else raw)"

fun parseAddrsLoop :: "answer list \<Rightarrow> Addr list \<Rightarrow> Addr list" where
  "parseAddrsLoop [] out = out"
| "parseAddrsLoop (a # as) out =
    (case an_body a of
       None \<Rightarrow> out
     | Some b \<Rightarrow>
         if an_type a = TypeA \<or> an_type a = TypeAAAA then parseAddrsLoop as (out @ (case b of Some ip \<Rightarrow> [ip] | None \<Rightarrow> []))
         else parseAddrsLoop as out)"

definition parseAddrs :: "msglib \<Rightarrow> bytes \<Rightarrow> Addr list" where
  "parseAddrs lib raw = (case ml_answers lib raw of None \<Rightarrow> [] | Some as \<Rightarrow> parseAddrsLoop as [])"

definition buildHostsResponse :: "msglib \<Rightarrow> u16 \<Rightarrow> string \<Rightarrow> u16 \<Rightarrow> Addr list \<Rightarrow> bytes option" where
  "buildHostsResponse lib txid name qtype addrs =
    (if \<not> ml_name lib name then None
     else ml_pack lib \<lparr> mg_id = txid, mg_response = True, mg_name = name, mg_type = qtype,
       mg_answers = filter (\<lambda>a. (qtype = TypeA \<and> Is4 a) \<or> (qtype = TypeAAAA \<and> Is6 a)) addrs \<rparr>)"

definition buildQuery :: "msglib \<Rightarrow> string \<Rightarrow> u16 \<Rightarrow> (dnsErr, bytes) result" where
  "buildQuery lib host qt =
    (if \<not> ml_name lib (dnsName host) then Inl (BadName host)
     else case ml_pack lib \<lparr> mg_id = 0, mg_response = False, mg_name = dnsName host, mg_type = qt, mg_answers = [] \<rparr> of
       None \<Rightarrow> Inl (BadName host) | Some raw \<Rightarrow> Inr raw)"

section \<open>Exchange\<close>

text \<open>
  \<open>query u raw\<close> is what the upstream server answers.  A sequential exchange asks the servers in turn;
  a race asks all of them, and the first success in the order their answers arrive wins: that order
  is \<open>arrive\<close>.  The second component is which servers were asked.
\<close>

fun askInTurn :: "('u \<Rightarrow> bytes \<Rightarrow> bytes option) \<Rightarrow> 'u list \<Rightarrow> bytes \<Rightarrow> (dnsErr, bytes) result \<times> 'u list" where
  "askInTurn query [] raw = (Inl ErrAllUpstreamsFailed, [])"
| "askInTurn query (u # us) raw =
    (case query u raw of
       Some resp \<Rightarrow> (Inr resp, [u])
     | None \<Rightarrow> (let (r, asked) = askInTurn query us raw in (r, u # asked)))"

definition plan_exchange :: "('u \<Rightarrow> bytes \<Rightarrow> bytes option) \<Rightarrow> ('u list \<Rightarrow> 'u list) \<Rightarrow> 'u plan \<Rightarrow> bytes \<Rightarrow> string
    \<Rightarrow> (dnsErr, bytes) result \<times> 'u list" where
  "plan_exchange query arrive p raw name =
    (let ups = upstreamsFor name p in
     if pl_strategy p = stratSequential then askInTurn query ups raw
     else (case List.map_filter (\<lambda>u. query u raw) (arrive ups) of
             [] \<Rightarrow> Inl ErrAllUpstreamsFailed | resp # _ \<Rightarrow> Inr resp, ups))"

record 'u Resolver =
  rs_p :: "'u plan option"
  rs_cache :: cache
  rs_fake :: "fakeIPPool option"

text \<open>The world an exchange runs in: the clock and the servers.\<close>

record 'u net =
  nt_now :: int
  nt_query :: "'u \<Rightarrow> bytes \<Rightarrow> bytes option"
  nt_arrive :: "'u list \<Rightarrow> 'u list"

text \<open>The fake branch: an answer, or none with the pool as it is afterwards.\<close>

definition fakeAnswer :: "msglib \<Rightarrow> qkey \<Rightarrow> u16 \<Rightarrow> fakeIPPool \<Rightarrow> bytes option \<times> fakeIPPool" where
  "fakeAnswer lib key txid pool =
    (case alloc (qk_name key) (qk_type key) pool of
       (Some fip, pool) \<Rightarrow> (buildHostsResponse lib txid (qk_name key) (qk_type key) [fip], pool)
     | (None, pool) \<Rightarrow>
         (if qk_type key = TypeAAAA then buildHostsResponse lib txid (qk_name key) (qk_type key) [] else None, pool))"

definition exchange1 :: "msglib \<Rightarrow> 'u net \<Rightarrow> bytes \<Rightarrow> bool \<Rightarrow> 'u Resolver \<Rightarrow> (dnsErr, bytes) result \<times> 'u list \<times> 'u Resolver" where
  "exchange1 lib net q skipFake r =
    (case rs_p r of
       None \<Rightarrow> (Inl ErrDisabled, [], r)
     | Some p \<Rightarrow>
         (let (key, txid) = parseQuery lib q;
              fromHosts = (case key of None \<Rightarrow> None
                | Some k \<Rightarrow> (case hosts_lookup (qk_name k) (qk_type k) (pl_hosts p) of None \<Rightarrow> None
                    | Some addrs \<Rightarrow> buildHostsResponse lib txid (qk_name k) (qk_type k) addrs)) in
          case fromHosts of
            Some raw \<Rightarrow> (Inr raw, [], r)
          | None \<Rightarrow>
              (let (fromFake, r) =
                 (case (key, rs_fake r) of
                    (Some k, Some pool) \<Rightarrow>
                      (if \<not> skipFake \<and> (qk_type k = TypeA \<or> qk_type k = TypeAAAA) \<and> \<not> fp_excluded (qk_name k) pool then
                         (let (a, pool) = fakeAnswer lib k txid pool in (a, r\<lparr>rs_fake := Some pool\<rparr>))
                       else (None, r))
                  | _ \<Rightarrow> (None, r)) in
               case fromFake of
                 Some raw \<Rightarrow> (Inr raw, [], r)
               | None \<Rightarrow>
                   (let (cached, r) =
                      (case key of None \<Rightarrow> (None, r)
                       | Some k \<Rightarrow> (let (hit, c) = cache_get (nt_now net) k (rs_cache r) in (hit, r\<lparr>rs_cache := c\<rparr>))) in
                    case cached of
                      Some raw \<Rightarrow> (Inr (setTxID raw txid), [], r)
                    | None \<Rightarrow>
                        (let name = (case key of Some k \<Rightarrow> qk_name k | None \<Rightarrow> []) in
                         case plan_exchange (nt_query net) (nt_arrive net) p q name of
                           (Inl e, asked) \<Rightarrow> (Inl e, asked, r)
                         | (Inr resp, asked) \<Rightarrow>
                             (case (key, minTTL lib resp) of
                                (Some k, Some ttl) \<Rightarrow>
                                  (Inr resp, asked, r\<lparr>rs_cache := cache_put (nt_now net) k resp ttl (rs_cache r)\<rparr>)
                              | _ \<Rightarrow> (Inr resp, asked, r)))))))"

definition Exchange :: "msglib \<Rightarrow> 'u net \<Rightarrow> bytes \<Rightarrow> 'u Resolver \<Rightarrow> (dnsErr, bytes) result \<times> 'u list \<times> 'u Resolver" where
  "Exchange lib net q r = exchange1 lib net q False r"

section \<open>Lookups\<close>

datatype Strategy = StratBoth | StratPreferV4 | StratPreferV6 | StratV4Only | StratV6Only

fun queryTypes :: "Strategy \<Rightarrow> u16 list" where
  "queryTypes StratV4Only = [TypeA]"
| "queryTypes StratV6Only = [TypeAAAA]"
| "queryTypes StratPreferV6 = [TypeAAAA, TypeA]"
| "queryTypes _ = [TypeA, TypeAAAA]"

text \<open>The loop of \<open>Lookup\<close> and \<open>LookupReal\<close>, which differ in \<open>skipFake\<close>.\<close>

fun lookupLoop :: "msglib \<Rightarrow> 'u net \<Rightarrow> bool \<Rightarrow> string \<Rightarrow> u16 list \<Rightarrow> Addr list \<Rightarrow> 'u list \<Rightarrow> 'u Resolver
    \<Rightarrow> (dnsErr, Addr list) result \<times> 'u list \<times> 'u Resolver" where
  "lookupLoop lib net skip host [] addrs asked r =
    (if addrs = [] then (Inl (NoRecords host), asked, r) else (Inr addrs, asked, r))"
| "lookupLoop lib net skip host (qt # qts) addrs asked r =
    (case buildQuery lib host qt of
       Inl e \<Rightarrow> (Inl e, asked, r)
     | Inr raw \<Rightarrow>
         (case exchange1 lib net raw skip r of
            (Inl e, a, r) \<Rightarrow> (Inl e, asked @ a, r)
          | (Inr resp, a, r) \<Rightarrow> lookupLoop lib net skip host qts (addrs @ parseAddrs lib resp) (asked @ a) r))"

definition Lookup :: "msglib \<Rightarrow> 'u net \<Rightarrow> string \<Rightarrow> Strategy \<Rightarrow> 'u Resolver \<Rightarrow> (dnsErr, Addr list) result \<times> 'u list \<times> 'u Resolver" where
  "Lookup lib net host s r = (if rs_p r = None then (Inl ErrDisabled, [], r) else lookupLoop lib net False host (queryTypes s) [] [] r)"

definition LookupReal :: "msglib \<Rightarrow> 'u net \<Rightarrow> string \<Rightarrow> Strategy \<Rightarrow> 'u Resolver \<Rightarrow> (dnsErr, Addr list) result \<times> 'u list \<times> 'u Resolver" where
  "LookupReal lib net host s r = (if rs_p r = None then (Inl ErrDisabled, [], r) else lookupLoop lib net True host (queryTypes s) [] [] r)"

fun cachedLoop :: "msglib \<Rightarrow> int \<Rightarrow> string \<Rightarrow> u16 list \<Rightarrow> Addr list \<Rightarrow> cache \<Rightarrow> Addr list \<times> cache" where
  "cachedLoop lib now host [] addrs c = (addrs, c)"
| "cachedLoop lib now host (qt # qts) addrs c =
    (case cache_get now \<lparr> qk_name = dnsName host, qk_type = qt \<rparr> c of
       (Some raw, c) \<Rightarrow> cachedLoop lib now host qts (addrs @ parseAddrs lib raw) c
     | (None, c) \<Rightarrow> cachedLoop lib now host qts addrs c)"

definition LookupCached :: "msglib \<Rightarrow> int \<Rightarrow> string \<Rightarrow> Strategy \<Rightarrow> 'u Resolver \<Rightarrow> Addr list option \<times> 'u Resolver" where
  "LookupCached lib now host s r =
    (let (addrs, c) = cachedLoop lib now host (queryTypes s) [] (rs_cache r) in
     (if addrs = [] then None else Some addrs, r\<lparr>rs_cache := c\<rparr>))"

definition FakeIPToDomain :: "Addr \<Rightarrow> 'u Resolver \<Rightarrow> string option" where
  "FakeIPToDomain ip r = (case rs_fake r of None \<Rightarrow> None | Some pool \<Rightarrow> fp_lookup ip pool)"

definition dns_New :: "(string \<Rightarrow> string \<Rightarrow> bool \<Rightarrow> string \<Rightarrow> 'd \<Rightarrow> 'u option) \<Rightarrow> 'd Nameserver list \<Rightarrow> NameserverPolicy list
    \<Rightarrow> string \<Rightarrow> (string \<times> Addr list) list \<Rightarrow> FakeIPConfig option \<Rightarrow> (dnsErr, 'u Resolver) result" where
  "dns_New mk nss policies strategy hosts fake =
    res_bind (buildPlan mk nss policies strategy hosts) (\<lambda>pl.
      Inr \<lparr> rs_p = Some pl, rs_cache = newCache, rs_fake = map_option newFakeIPPool fake \<rparr>)"

definition dns_Reload :: "(string \<Rightarrow> string \<Rightarrow> bool \<Rightarrow> string \<Rightarrow> 'd \<Rightarrow> 'u option) \<Rightarrow> 'd Nameserver list \<Rightarrow> NameserverPolicy list
    \<Rightarrow> string \<Rightarrow> (string \<times> Addr list) list \<Rightarrow> 'u Resolver \<Rightarrow> (dnsErr, 'u Resolver) result" where
  "dns_Reload mk nss policies strategy hosts r =
    res_bind (buildPlan mk nss policies strategy hosts) (\<lambda>pl. Inr (r\<lparr>rs_p := Some pl\<rparr>))"


section \<open>Servers\<close>

lemma askInTurn_asked: "set (snd (askInTurn query us raw)) \<subseteq> set us"
  by (induction us) (auto split: option.split prod.split)

lemma askInTurn_answer: "fst (askInTurn query us raw) = Inr resp \<Longrightarrow> \<exists>u \<in> set us. query u raw = Some resp"
  by (induction us) (auto split: option.splits prod.splits)

lemma askInTurn_iff: "(\<exists>resp. fst (askInTurn query us raw) = Inr resp) \<longleftrightarrow> (\<exists>u \<in> set us. query u raw \<noteq> None)"
  by (induction us) (auto split: option.split prod.split)

lemma map_filter_hd: "List.map_filter f xs = y # ys \<Longrightarrow> \<exists>x \<in> set xs. f x = Some y"
  by (induction xs) (auto simp: List.map_filter_simps split: option.splits)

lemma map_filter_Nil: "List.map_filter f xs = [] \<longleftrightarrow> (\<forall>x \<in> set xs. f x = None)"
  by (induction xs) (auto simp: List.map_filter_simps split: option.splits)

lemma plan_asked: "set (snd (plan_exchange query arrive p raw name)) \<subseteq> set (upstreamsFor name p)"
  by (simp add: plan_exchange_def Let_def askInTurn_asked)

lemma plan_answer:
  assumes "set (arrive (upstreamsFor name p)) = set (upstreamsFor name p)"
    "fst (plan_exchange query arrive p raw name) = Inr resp"
  shows "\<exists>u \<in> set (upstreamsFor name p). query u raw = Some resp"
proof (cases "pl_strategy p = stratSequential")
  case True
  then show ?thesis using assms(2) askInTurn_answer [of query "upstreamsFor name p" raw resp] by (simp add: plan_exchange_def)
next
  case False
  then obtain ys where "List.map_filter (\<lambda>u. query u raw) (arrive (upstreamsFor name p)) = resp # ys"
    using assms(2) by (auto simp: plan_exchange_def Let_def split: list.splits)
  from map_filter_hd [OF this] show ?thesis using assms(1) by simp
qed

lemma plan_answers_iff:
  assumes "set (arrive (upstreamsFor name p)) = set (upstreamsFor name p)"
  shows "(\<exists>resp. fst (plan_exchange query arrive p raw name) = Inr resp) \<longleftrightarrow> (\<exists>u \<in> set (upstreamsFor name p). query u raw \<noteq> None)"
proof (cases "pl_strategy p = stratSequential")
  case True
  then show ?thesis using askInTurn_iff [of query "upstreamsFor name p" raw] by (simp add: plan_exchange_def)
next
  case False
  then show ?thesis using map_filter_Nil [of "\<lambda>u. query u raw" "arrive (upstreamsFor name p)"] assms
    by (auto simp: plan_exchange_def Let_def split: list.split)
qed

section \<open>What an exchange does\<close>

definition nameOf :: "qkey option \<Rightarrow> string" where
  "nameOf key = (case key of Some k \<Rightarrow> qk_name k | None \<Rightarrow> [])"

lemma exchange1_asked:
  assumes "rs_p r = Some p" "exchange1 lib net q skip r = (res, asked, r')"
  shows "set asked \<subseteq> set (upstreamsFor (nameOf (fst (parseQuery lib q))) p)"
  using assms plan_asked [of "nt_query net" "nt_arrive net" p q "nameOf (fst (parseQuery lib q))"]
  by (auto simp: exchange1_def nameOf_def Let_def split: option.splits prod.splits sum.splits if_splits)


lemma cache_put_look: "cache_look t k (cache_put now k0 v n c) = Some raw \<Longrightarrow>
    (k = k0 \<and> raw = v) \<or> cache_look t k c = Some raw"
  unfolding store.put_look by (auto split: if_splits)

lemma exchange1_cache:
  assumes "rs_p r = Some p" "exchange1 lib net q skip r = (res, asked, r')" "cache_look t k (rs_cache r') = Some raw"
    and arr: "\<And>us. set (nt_arrive net us) = set us"
  shows "cache_look t k (rs_cache r) = Some raw
    \<or> fst (parseQuery lib q) = Some k \<and> (\<exists>u \<in> set (upstreamsFor (qk_name k) p). nt_query net u q = Some raw)"
proof -
  obtain key txid where kq: "parseQuery lib q = (key, txid)" by fastforce
  show ?thesis
  proof (cases key)
    case None
    then have "rs_cache r' = rs_cache r" using assms(1,2) kq
      by (auto simp: exchange1_def Let_def split: option.splits prod.splits sum.splits if_splits)
    then show ?thesis using assms(3) by simp
  next
    case (Some k0)
    obtain hit c where g: "cache_get (nt_now net) k0 (rs_cache r) = (hit, c)" by fastforce
    have sh: "cache_look t k c = Some raw \<Longrightarrow> cache_look t k (rs_cache r) = Some raw"
      using store.get_shrinks [of t k "nt_now net" k0 "rs_cache r" raw] g by simp
    let ?pe = "plan_exchange (nt_query net) (nt_arrive net) p q (qk_name k0)"
    have "rs_cache r' = rs_cache r \<or> rs_cache r' = c
      \<or> (\<exists>resp ttl. fst ?pe = Inr resp \<and> rs_cache r' = cache_put (nt_now net) k0 resp ttl c)"
      using assms(1,2) kq Some g
      by (auto simp: exchange1_def Let_def split: option.splits prod.splits sum.splits if_splits)
    then show ?thesis
    proof (elim disjE exE conjE)
      fix resp ttl assume e: "fst ?pe = Inr resp" "rs_cache r' = cache_put (nt_now net) k0 resp ttl c"
      have "(k = k0 \<and> raw = resp) \<or> cache_look t k c = Some raw" using assms(3) e(2) cache_put_look by metis
      moreover have "\<exists>u \<in> set (upstreamsFor (qk_name k0) p). nt_query net u q = Some resp"
        by (rule plan_answer [OF arr e(1)])
      ultimately show ?thesis using sh kq Some by auto
    qed (use assms(3) sh in auto)
  qed
qed

lemma exchange1_real:
  "exchange1 lib net q True r =
    (let (res, asked, r') = exchange1 lib net q False (r\<lparr>rs_fake := None\<rparr>) in (res, asked, r'\<lparr>rs_fake := rs_fake r\<rparr>))"
  by (cases r) (auto simp: exchange1_def Let_def split: option.splits prod.splits sum.splits if_splits)


section \<open>Runs\<close>

text \<open>
  The states of a resolver after any sequence of exchanges, cache lookups and reloads, with the
  (key, answer) pairs that some server selected for the name returned to a query with that key.
\<close>

definition answersTo :: "msglib \<Rightarrow> 'u net \<Rightarrow> bytes \<Rightarrow> 'u Resolver \<Rightarrow> (qkey \<times> bytes) set" where
  "answersTo lib net q r = {(k, raw). fst (parseQuery lib q) = Some k \<and>
     (\<exists>p u. rs_p r = Some p \<and> u \<in> set (upstreamsFor (qk_name k) p) \<and> nt_query net u q = Some raw)}"

inductive dns_run :: "msglib \<Rightarrow> (string \<Rightarrow> string \<Rightarrow> bool \<Rightarrow> string \<Rightarrow> 'd \<Rightarrow> 'u option) \<Rightarrow> FakeIPConfig option
    \<Rightarrow> 'u Resolver \<Rightarrow> (qkey \<times> bytes) set \<Rightarrow> bool" for lib mk cfg where
  start: "dns_New mk nss policies strategy hosts cfg = Inr r \<Longrightarrow> dns_run lib mk cfg r {}"
| exch: "dns_run lib mk cfg r A \<Longrightarrow> \<forall>us. set (nt_arrive net us) = set us \<Longrightarrow> exchange1 lib net q skip r = (res, asked, r') \<Longrightarrow>
    dns_run lib mk cfg r' (A \<union> answersTo lib net q r)"
| cached: "dns_run lib mk cfg r A \<Longrightarrow> LookupCached lib now host s r = (res, r') \<Longrightarrow> dns_run lib mk cfg r' A"
| reload: "dns_run lib mk cfg r A \<Longrightarrow> dns_Reload mk nss policies strategy hosts r = Inr r' \<Longrightarrow> dns_run lib mk cfg r' A"

lemma cachedLoop_shrinks: "cache_look t k (snd (cachedLoop lib now host qts addrs c)) = Some raw \<Longrightarrow> cache_look t k c = Some raw"
proof (induction qts arbitrary: addrs c)
  case (Cons qt qts)
  obtain hit c' where g: "cache_get now \<lparr> qk_name = dnsName host, qk_type = qt \<rparr> c = (hit, c')" by fastforce
  have "cache_look t k c' = Some raw" using Cons g by (cases hit) auto
  then show ?case using store.get_shrinks [of t k now "\<lparr> qk_name = dnsName host, qk_type = qt \<rparr>" c raw] g by simp
qed simp

lemma dns_run_cache:
  assumes "dns_run lib mk cfg r A" "cache_look t k (rs_cache r) = Some raw"
  shows "(k, raw) \<in> A"
  using assms
proof (induction rule: dns_run.induct)
  case (start nss policies strategy hosts r)
  then show ?case by (auto simp: dns_New_def res_bind_Inr_iff newCache_def cache_look_def)
next
  case (exch r A net q skip res asked r')
  show ?case
  proof (cases "rs_p r")
    case None
    then have "r' = r" using exch.hyps(3) by (simp add: exchange1_def)
    then show ?thesis using exch.IH exch.prems by simp
  next
    case (Some p)
    then show ?thesis using exchange1_cache [OF Some exch.hyps(3) exch.prems] exch.hyps(2) exch.IH
      by (auto simp: answersTo_def)
  qed
next
  case (cached r A now host s res r')
  then show ?case using cachedLoop_shrinks [of t k lib now host "queryTypes s" "[]" "rs_cache r" raw]
    by (auto simp: LookupCached_def Let_def split: prod.splits)
next
  case (reload r A nss policies strategy hosts r')
  then show ?case by (auto simp: dns_Reload_def res_bind_Inr_iff)
qed

text \<open>The pool of a run is one that allocations have built.\<close>

lemma fakeAnswer_pool: "fakeAnswer lib k txid pool = (a, pool') \<Longrightarrow> pool' = snd (alloc (qk_name k) (qk_type k) pool)"
  by (auto simp: fakeAnswer_def split: prod.splits option.splits)

lemma exchange1_pool:
  assumes "exchange1 lib net q skip r = (res, asked, r')"
  shows "rs_fake r' = rs_fake r \<or> (\<exists>pool (k :: qkey). rs_fake r = Some pool \<and> rs_fake r' = Some (snd (alloc (qk_name k) (qk_type k) pool)))"
proof -
  obtain key txid where kq: "parseQuery lib q = (key, txid)" by fastforce
  show ?thesis
  proof (cases "key = None \<or> rs_fake r = None")
    case True
    then have "rs_fake r' = rs_fake r" using assms kq
      by (auto simp: exchange1_def Let_def split: option.splits prod.splits sum.splits if_splits)
    then show ?thesis ..
  next
    case False
    then obtain k pool where k: "key = Some k" "rs_fake r = Some pool" by auto
    obtain a pool' where fa: "fakeAnswer lib k txid pool = (a, pool')" by fastforce
    have "rs_fake r' = rs_fake r \<or> rs_fake r' = Some pool'" using assms kq k fa
      by (auto simp: exchange1_def Let_def split: option.splits prod.splits sum.splits if_splits)
    then show ?thesis using k(2) fakeAnswer_pool [OF fa] by blast
  qed
qed

lemma allocs_snoc: "allocs (ops @ [(name, q)]) p = snd (alloc name q (allocs ops p))"
  by (induction ops p rule: allocs.induct) simp_all

lemma dns_run_pool:
  assumes "dns_run lib mk cfg r A" "rs_fake r = Some pool"
  shows "\<exists>c ops. cfg = Some c \<and> pool = allocs ops (newFakeIPPool c)"
  using assms
proof (induction arbitrary: pool rule: dns_run.induct)
  case (start nss policies strategy hosts r)
  then show ?case by (cases cfg) (auto simp: dns_New_def res_bind_Inr_iff intro: exI [of _ "[]"])
next
  case (exch r A net q skip res asked r')
  from exchange1_pool [OF exch.hyps(3)] show ?case
  proof (elim disjE exE conjE)
    fix pool' k assume p: "rs_fake r = Some pool'" "rs_fake r' = Some (snd (alloc (qk_name k) (qk_type k) pool'))"
    obtain c ops where c: "cfg = Some c" "pool' = allocs ops (newFakeIPPool c)" using exch.IH [OF p(1)] by blast
    then have "pool = allocs (ops @ [(qk_name k, qk_type k)]) (newFakeIPPool c)"
      using p(2) exch.prems by (simp add: allocs_snoc)
    then show ?thesis using c(1) by blast
  qed (use exch in simp)
next
  case (cached r A now host s res r')
  then show ?case by (auto simp: LookupCached_def Let_def split: prod.splits)
next
  case (reload r A nss policies strategy hosts r')
  then show ?case by (auto simp: dns_Reload_def res_bind_Inr_iff)
qed

text \<open>The lookups are sequences of exchanges.\<close>

lemma lookupLoop_run: "dns_run lib mk cfg r A \<Longrightarrow> \<forall>us. set (nt_arrive net us) = set us \<Longrightarrow>
    lookupLoop lib net skip host qts addrs asked r = (res, asked', r') \<Longrightarrow> \<exists>A'. dns_run lib mk cfg r' A'"
proof (induction qts arbitrary: addrs asked r A)
  case Nil
  then show ?case by (auto split: if_splits)
next
  case (Cons qt qts)
  show ?case
  proof (cases "buildQuery lib host qt")
    case (Inl e)
    then show ?thesis using Cons.prems by auto
  next
    case (Inr raw)
    obtain res1 a r1 where e: "exchange1 lib net raw skip r = (res1, a, r1)" using prod_cases3 by blast
    have "dns_run lib mk cfg r1 (A \<union> answersTo lib net raw r)" by (rule dns_run.exch [OF Cons.prems(1,2) e])
    then show ?thesis using Cons.prems(2,3) Cons.IH Inr e by (cases res1) auto
  qed
qed


section \<open>Properties\<close>

text \<open>A name that fits the message format, so that the library packs every message about it.\<close>

definition packs :: "msglib \<Rightarrow> string \<Rightarrow> bool" where
  "packs lib name = (ml_name lib name \<and> (\<forall>m. mg_name m = name \<longrightarrow> ml_pack lib m \<noteq> None))"

lemma packs_response: "packs lib name \<Longrightarrow> buildHostsResponse lib txid name qt addrs \<noteq> None"
  by (auto simp: packs_def buildHostsResponse_def)

lemma exchange1_hosts_asked:
  assumes "rs_p r = Some p" "parseQuery lib q = (Some k, txid)" "exchange1 lib net q skip r = (res, asked, r')"
    "packs lib (qk_name k)" "hosts_lookup (qk_name k) (qk_type k) (pl_hosts p) \<noteq> None"
  shows "asked = []"
proof -
  obtain addrs where h: "hosts_lookup (qk_name k) (qk_type k) (pl_hosts p) = Some addrs" using assms(5) by blast
  obtain raw where "buildHostsResponse lib txid (qk_name k) (qk_type k) addrs = Some raw"
    using packs_response [OF assms(4)] by blast
  then show ?thesis using assms(1-3) h by (simp add: exchange1_def Let_def)
qed

lemma alloc_total: "poolInv p \<Longrightarrow> fam q \<Longrightarrow> have' q p \<Longrightarrow> \<exists>ip. fst (alloc name q p) = Some ip"
  using alloc_fresh [of p q name] alloc_kept(2) [of q p name] by (cases "names' q p (trimSuffix name ''.'')") auto

lemma alloc_some: "qt = TypeA \<and> fp_have4 pool \<Longrightarrow> \<exists>ip pool'. alloc name qt pool = (Some ip, pool')"
  by (auto simp: alloc_def Let_def split: option.split)

lemma fakeAnswer_some:
  assumes "packs lib (qk_name k)" "qk_type k = TypeAAAA \<or> qk_type k = TypeA \<and> fp_have4 pool"
  shows "\<exists>raw pool'. fakeAnswer lib k txid pool = (Some raw, pool')"
proof -
  obtain o1 pool' where a: "alloc (qk_name k) (qk_type k) pool = (o1, pool')" by fastforce
  have n: "\<exists>raw. buildHostsResponse lib txid (qk_name k) (qk_type k) addrs = Some raw" for addrs
    using packs_response [OF assms(1)] by blast
  show ?thesis using a n assms(2) alloc_some [of "qk_type k" pool "qk_name k"] by (cases o1) (auto simp: fakeAnswer_def)
qed

lemma exchange1_fake_asked:
  assumes "rs_p r = Some p" "parseQuery lib q = (Some k, txid)" "exchange1 lib net q False r = (res, asked, r')"
    "packs lib (qk_name k)" "rs_fake r = Some pool" "qk_type k = TypeAAAA \<or> qk_type k = TypeA \<and> fp_have4 pool"
    "\<not> fp_excluded (qk_name k) pool"
  shows "asked = []"
proof -
  obtain raw pool' where "fakeAnswer lib k txid pool = (Some raw, pool')"
    using fakeAnswer_some [OF assms(4,6), of txid] by blast
  moreover have "\<not> False \<and> (qk_type k = TypeA \<or> qk_type k = TypeAAAA) \<and> \<not> fp_excluded (qk_name k) pool" using assms(6,7) by blast
  ultimately show ?thesis using assms(1-3,5)
    by (auto simp: exchange1_def Let_def split: option.splits)
qed

lemma exchange1_fake:
  assumes "rs_p r = Some p" "parseQuery lib q = (Some k, txid)" "hosts_lookup (qk_name k) (qk_type k) (pl_hosts p) = None"
    "rs_fake r = Some pool" "qk_type k = TypeA" "\<not> fp_excluded (qk_name k) pool" "alloc (qk_name k) (qk_type k) pool = (Some ip, pool')"
    "buildHostsResponse lib txid (qk_name k) (qk_type k) [ip] = Some raw"
  shows "exchange1 lib net q False r = (Inr raw, [], r\<lparr>rs_fake := Some pool'\<rparr>)"
  using assms by (simp add: exchange1_def Let_def fakeAnswer_def)

text \<open>The servers for a name: those of the first policy that matches it, or else the default ones.\<close>

definition namedFor :: "string \<Rightarrow> 'u plan \<Rightarrow> 'u \<Rightarrow> bool" where
  "namedFor name p u =
    ((\<exists>i < length (pl_policies p). name \<noteq> [] \<and> dm_match name (pr_m (pl_policies p ! i)) \<and> u \<in> set (pr_ups (pl_policies p ! i))
        \<and> (\<forall>j < i. \<not> dm_match name (pr_m (pl_policies p ! j))))
     \<or> (u \<in> set (pl_nameservers p) \<and> (name = [] \<or> (\<forall>r \<in> set (pl_policies p). \<not> dm_match name (pr_m r)))))"

lemma upstreamsFor_named: "u \<in> set (upstreamsFor name p) \<Longrightarrow> namedFor name p u"
  by (auto simp: upstreamsFor_def namedFor_def find_Some_iff find_None_iff split: if_splits option.splits)

text \<open>
  C34: An exchange for a name the message format can carry asks only servers that the first matching
  policy, or else the default table, names for it; it asks none when the name has an entry in the
  static hosts, and none when fake addresses are on and the name is not excluded (for IPv4 queries:
  when there is an IPv4 range).
\<close>

theorem dns_no_leak:
  assumes "rs_p r = Some p" "parseQuery lib q = (Some k, txid)" "packs lib (qk_name k)"
    and "exchange1 lib net q skip r = (res, asked, r')"
  shows "(\<forall>u \<in> set asked. namedFor (qk_name k) p u)
    \<and> (hosts_lookup (qk_name k) (qk_type k) (pl_hosts p) \<noteq> None \<longrightarrow> asked = [])
    \<and> (\<not> skip \<and> rs_fake r = Some pool \<and> (qk_type k = TypeAAAA \<or> qk_type k = TypeA \<and> fp_have4 pool) \<and> \<not> fp_excluded (qk_name k) pool
        \<longrightarrow> asked = [])"
  using exchange1_asked [OF assms(1,4)] exchange1_hosts_asked [OF assms(1,2,4,3)] exchange1_fake_asked [OF assms(1,2) _ assms(3)] assms(2,4)
  by (auto simp: nameOf_def intro!: upstreamsFor_named)

text \<open>
  C35: After any sequence of exchanges, cache lookups and reloads, an answer that the cache would give
  for a key was returned by a server selected for the name to a query with that key; in particular no
  fake or static answer is ever cached.
\<close>

theorem dns_cache_origin:
  assumes "dns_run lib mk cfg r A" "cache_look t k (rs_cache r) = Some raw"
  shows "(k, raw) \<in> A"
  by (rule dns_run_cache [OF assms])

text \<open>
  The exchange that bypasses fake addresses returns the same answer, asks the same servers and
  changes the resolver in the same way as an ordinary exchange of a resolver that has no fake
  addresses.
\<close>

theorem dns_real:
  "exchange1 lib net q True r =
    (let (res, asked, r') = exchange1 lib net q False (r\<lparr>rs_fake := None\<rparr>) in (res, asked, r'\<lparr>rs_fake := rs_fake r\<rparr>))"
  by (rule exchange1_real)

text \<open>
  In every reachable state, an IPv4 query for a name without a static entry and not excluded is
  answered without asking a server, with a message that holds one fake address, and that address leads
  back to the name.
\<close>

theorem dns_fake_answer:
  assumes "dns_run lib mk (Some c) r A" "rangesOK c" "rs_p r = Some p" "parseQuery lib q = (Some k, txid)" "packs lib (qk_name k)"
    and "hosts_lookup (qk_name k) (qk_type k) (pl_hosts p) = None" "rs_fake r = Some pool"
    and "qk_type k = TypeA" "fp_have4 pool" "\<not> fp_excluded (qk_name k) pool"
  shows "\<exists>ip raw r'. Exchange lib net q r = (Inr raw, [], r')
      \<and> ml_pack lib \<lparr> mg_id = txid, mg_response = True, mg_name = qk_name k, mg_type = TypeA, mg_answers = [ip] \<rparr> = Some raw
      \<and> FakeIPToDomain ip r' = Some (trimSuffix (qk_name k) ''.'')"
proof -
  obtain ops where pool: "pool = allocs ops (newFakeIPPool c)" using dns_run_pool [OF assms(1,7)] by auto
  obtain ip pool' where a: "alloc (qk_name k) TypeA pool = (Some ip, pool')"
    using alloc_some [of TypeA pool "qk_name k"] assms(9) by blast
  have back': "fp_lookup ip pool' = Some (trimSuffix (qk_name k) ''.'')"
    using fakeip_leads_back [OF assms(2)] a pool by blast
  have "Is4 ip" using alloc_result [OF assms(2) pool a] poolInv_fam(1) by metis
  then have m: "buildHostsResponse lib txid (qk_name k) (qk_type k) [ip]
      = ml_pack lib \<lparr> mg_id = txid, mg_response = True, mg_name = qk_name k, mg_type = TypeA, mg_answers = [ip] \<rparr>"
    using assms(5,8) by (simp add: buildHostsResponse_def packs_def)
  obtain raw where raw: "buildHostsResponse lib txid (qk_name k) (qk_type k) [ip] = Some raw"
    using packs_response [OF assms(5)] by blast
  have "Exchange lib net q r = (Inr raw, [], r\<lparr>rs_fake := Some pool'\<rparr>)"
    unfolding Exchange_def using exchange1_fake [OF assms(3,4,6,7,8,10) _ raw] a assms(8) by simp
  then show ?thesis using m raw back' by (auto simp: FakeIPToDomain_def)
qed

text \<open>
  Whatever order the answers of a race arrive in, an exchange with the servers succeeds exactly
  when one of the selected servers answers the query, and its result is the answer of one of them.
\<close>

theorem dns_answers:
  assumes "set (arrive (upstreamsFor name p)) = set (upstreamsFor name p)"
  shows "((\<exists>resp. fst (plan_exchange query arrive p raw name) = Inr resp) \<longleftrightarrow> (\<exists>u \<in> set (upstreamsFor name p). query u raw \<noteq> None))
    \<and> (\<forall>resp. fst (plan_exchange query arrive p raw name) = Inr resp \<longrightarrow> (\<exists>u \<in> set (upstreamsFor name p). query u raw = Some resp))"
  using plan_answers_iff [where arrive = arrive and name = name and p = p and query = query and raw = raw]
    plan_answer [where arrive = arrive and name = name and p = p and query = query and raw = raw] assms by blast


text \<open>A small instance: one server, a message library that knows one question.\<close>

definition wlib :: msglib where
  "wlib = \<lparr> ml_question = \<lambda>_. Some (''a.'', 1),
     ml_answers = \<lambda>_. Some [\<lparr> an_type = 1, an_ttl = 60, an_body = Some (Some (Addr4 5)) \<rparr>],
     ml_name = \<lambda>_. True, ml_pack = \<lambda>m. Some (be16 (mg_id m) @ replicate 10 0) \<rparr>"

definition wnet :: "nat net" where
  "wnet = \<lparr> nt_now = 0, nt_query = \<lambda>u _. if u = 7 then Some [1, 2, 3] else None, nt_arrive = \<lambda>us. us \<rparr>"

definition wplan :: "nat plan" where
  "wplan = \<lparr> pl_nameservers = [7], pl_policies = [], pl_strategy = stratRace, pl_hosts = None \<rparr>"

definition wres :: "FakeIPConfig option \<Rightarrow> nat Resolver" where
  "wres fake = \<lparr> rs_p = Some wplan, rs_cache = newCache, rs_fake = map_option newFakeIPPool fake \<rparr>"

definition wq :: bytes where "wq = replicate 12 0"

abbreviation "wkey \<equiv> \<lparr> qk_name = ''a.'', qk_type = 1 \<rparr>"

lemma w_parse: "parseQuery wlib wq = (Some wkey, 0)"
  by (simp add: parseQuery_def wlib_def wq_def get16_def toLower_def lowerChar_def Let_def)

lemma w_packs: "packs wlib name"
  by (simp add: packs_def wlib_def)

lemma w_new: "dns_New (\<lambda>_ _ _ _ d. Some d) [\<lparr> ns_Tag = ''s'', ns_Address = ''1.1.1.1'', ns_SNI = [], ns_Insecure = False, ns_Detour = Some 7 \<rparr>]
    [] [] [] fake = Inr (wres fake)"
  by (simp add: dns_New_def buildPlan_def buildPolicies_def newHosts_def wres_def wplan_def)

lemma w_exchange: "exchange1 wlib wnet wq False (wres None) =
    (Inr [1, 2, 3], [7], (wres None)\<lparr>rs_cache := cache_put 0 wkey [1, 2, 3] 60 newCache\<rparr>)"
  unfolding exchange1_def w_parse
  by (simp add: wres_def wplan_def wnet_def hosts_lookup_def cache_get_def newCache_def plan_exchange_def upstreamsFor_def
      minTTL_def wlib_def List.map_filter_simps)

theorem dns_no_leak_witness:
  "set (fst (snd (exchange1 wlib wnet wq False (wres (Some defaultRanges))))) = {}"
proof -
  obtain res asked r' where e: "exchange1 wlib wnet wq False (wres (Some defaultRanges)) = (res, asked, r')" using prod_cases3 by blast
  have p: "rs_p (wres (Some defaultRanges)) = Some wplan" "rs_fake (wres (Some defaultRanges)) = Some (newFakeIPPool defaultRanges)"
    by (simp_all add: wres_def)
  have f: "fp_have4 (newFakeIPPool defaultRanges)" "\<not> fp_excluded ''a.'' (newFakeIPPool defaultRanges)"
    by (simp_all add: default_pool fp_excluded_def Let_def)
  show ?thesis using dns_no_leak [OF p(1) w_parse w_packs e, of "newFakeIPPool defaultRanges"] p(2) f e by simp
qed

theorem dns_cache_origin_witness:
  "(wkey, [1, 2, 3]) \<in> {} \<union> answersTo wlib wnet wq (wres None)"
proof -
  have "dns_run wlib (\<lambda>_ _ _ _ d. Some d) None (wres None) {}" by (rule dns_run.start [OF w_new])
  then have "dns_run wlib (\<lambda>_ _ _ _ d. Some d) None ((wres None)\<lparr>rs_cache := cache_put 0 wkey [1, 2, 3] 60 newCache\<rparr>)
      ({} \<union> answersTo wlib wnet wq (wres None))"
    by (rule dns_run.exch [OF _ _ w_exchange]) (simp add: wnet_def)
  then show ?thesis
    by (rule dns_cache_origin [where t = 0]) (simp add: cache_put_def cache_look_def)
qed

theorem dns_fake_answer_witness:
  "\<exists>ip raw r'. Exchange wlib wnet wq (wres (Some defaultRanges)) = (Inr raw, [], r') \<and> FakeIPToDomain ip r' = Some ''a''"
proof -
  have run: "dns_run wlib (\<lambda>_ _ _ _ d. Some d) (Some defaultRanges) (wres (Some defaultRanges)) {}" by (rule dns_run.start [OF w_new])
  have p: "rs_p (wres (Some defaultRanges)) = Some wplan" "rs_fake (wres (Some defaultRanges)) = Some (newFakeIPPool defaultRanges)"
    by (simp_all add: wres_def)
  have f: "fp_have4 (newFakeIPPool defaultRanges)" "\<not> fp_excluded (qk_name wkey) (newFakeIPPool defaultRanges)"
    by (simp_all add: default_pool fp_excluded_def Let_def)
  have h: "hosts_lookup (qk_name wkey) (qk_type wkey) (pl_hosts wplan) = None" by (simp add: wplan_def hosts_lookup_def)
  have t: "qk_type wkey = TypeA" "trimSuffix (qk_name wkey) ''.'' = ''a''" by (simp_all add: trimSuffix_def hasSuffix_def)
  show ?thesis using dns_fake_answer [OF run defaultRanges_OK p(1) w_parse w_packs h p(2) t(1) f, of wnet] t(2) by metis
qed

theorem dns_answers_witness:
  "\<exists>resp. fst (plan_exchange (\<lambda>u _. if u = 7 then Some [1] else None) rev wplan wq ''b.'') = Inr resp"
  using dns_answers [of rev "''b.''" wplan "\<lambda>u _. if u = 7 then Some [1] else None" wq] by (simp add: wplan_def upstreamsFor_def)

end
