(* ===== verification/Succinct.thy ===== *)
theory Succinct
  imports GoStrings
begin

text \<open>
  The bit layer of the compressed domain sets (\<open>ruleset/succinct.go\<close>): rank by prefix sums and select by
  binary search agree with counting on the list of bits.  An access outside a slice panics, which
  is \<^const>\<open>None\<close>; positions are Go ints.
\<close>

unbundle bit_operations_syntax

section \<open>Binary search\<close>

text \<open>\<open>sort.Search\<close>, and the loop of the same shape in \<open>selectIthOne\<close>.\<close>

function searchLoop :: "(nat \<Rightarrow> bool) \<Rightarrow> nat \<Rightarrow> nat \<Rightarrow> nat" where
  "searchLoop f i j =
    (if i < j then
       (let h = (i + j) div 2 in if \<not> f h then searchLoop f (h + 1) j else searchLoop f i h)
     else i)"
  by auto
termination by (relation "measure (\<lambda>(f, i, j). j - i)") auto

declare searchLoop.simps [simp del]

definition sort_Search :: "nat \<Rightarrow> (nat \<Rightarrow> bool) \<Rightarrow> nat" where
  "sort_Search n f = searchLoop f 0 n"

text \<open>
  Where the predicate is false up to some point and true from there on, the search finds the point.
\<close>

lemma searchLoop_finds:
  assumes "i \<le> k" "k \<le> j" "\<And>m. i \<le> m \<Longrightarrow> m < k \<Longrightarrow> \<not> f m" "\<And>m. k \<le> m \<Longrightarrow> m < j \<Longrightarrow> f m"
  shows "searchLoop f i j = k"
  using assms
proof (induction f i j rule: searchLoop.induct)
  case (1 f i j)
  show ?case
  proof (cases "i < j")
    case True
    let ?h = "(i + j) div 2"
    have h: "i \<le> ?h" "?h < j" using True by auto
    show ?thesis
    proof (cases "f ?h")
      case f: True
      then have "k \<le> ?h" using "1.prems"(3) [of ?h] h by (meson not_le)
      then have "searchLoop f i ?h = k" using "1.IH"(2) [OF True refl] f "1.prems" h by auto
      then show ?thesis using True f by (subst searchLoop.simps) (simp add: Let_def)
    next
      case False
      then have "?h < k" using "1.prems"(4) [of ?h] h by (meson not_le)
      then have "searchLoop f (?h + 1) j = k" using "1.IH"(1) [OF True refl] False "1.prems" h by auto
      then show ?thesis using True False by (subst searchLoop.simps) (simp add: Let_def)
    qed
  next
    case False
    then show ?thesis using "1.prems"(1,2) by (subst searchLoop.simps) simp
  qed
qed

lemma sort_Search_finds: "k \<le> n \<Longrightarrow> (\<And>m. m < k \<Longrightarrow> \<not> f m) \<Longrightarrow> (\<And>m. k \<le> m \<Longrightarrow> m < n \<Longrightarrow> f m) \<Longrightarrow> sort_Search n f = k"
  unfolding sort_Search_def by (rule searchLoop_finds) auto

section \<open>The bit layer\<close>

definition onesCount64 :: "u64 \<Rightarrow> nat" where
  "onesCount64 w = length (filter (bit w) [0..<64])"

text \<open>Signed 32-bit arithmetic of the prefix sums.\<close>

definition int32 :: "int \<Rightarrow> int" where
  "int32 x = sint (word_of_int x :: 32 word)"

record succinctBits =
  sb_leaves :: "u64 list"
  sb_labelBitmap :: "u64 list"
  sb_labels :: bytes
  sb_wordOnes :: "int list"

fun prefixOnes :: "int \<Rightarrow> u64 list \<Rightarrow> int list" where
  "prefixOnes n [] = [n]"
| "prefixOnes n (w # ws) = n # prefixOnes (int32 (n + int (onesCount64 w))) ws"

definition newSuccinctBits :: "u64 list \<Rightarrow> u64 list \<Rightarrow> bytes \<Rightarrow> succinctBits" where
  "newSuccinctBits leaves labelBitmap labels =
    \<lparr> sb_leaves = leaves, sb_labelBitmap = labelBitmap, sb_labels = labels, sb_wordOnes = prefixOnes 0 labelBitmap \<rparr>"

definition idx :: "'a list \<Rightarrow> int \<Rightarrow> 'a option" where
  "idx xs i = (if 0 \<le> i \<and> i < int (length xs) then Some (xs ! nat i) else None)"

definition getBit :: "u64 list \<Rightarrow> int \<Rightarrow> bool option" where
  "getBit bm i = map_option (\<lambda>w. bit w (nat (i mod 64))) (idx bm (i div 64))"

definition sb_rank :: "succinctBits \<Rightarrow> int \<Rightarrow> int option" where
  "sb_rank s i =
    (let w = i div 64; b = nat (i mod 64) in
     case idx (sb_wordOnes s) w of
       None \<Rightarrow> None
     | Some r \<Rightarrow>
         if b \<noteq> 0 then map_option (\<lambda>x. r + int (onesCount64 (x AND (push_bit b 1 - 1)))) (idx (sb_labelBitmap s) w)
         else Some r)"

definition countZeros :: "succinctBits \<Rightarrow> int \<Rightarrow> int option" where
  "countZeros s i = map_option (\<lambda>r. i - r) (sb_rank s i)"

fun scanBits :: "u64 \<Rightarrow> int \<Rightarrow> int \<Rightarrow> nat list \<Rightarrow> int" where
  "scanBits x remain base [] = -1"
| "scanBits x remain base (b # bs) =
    (if bit x b then (if remain = 0 then base + int b else scanBits x (remain - 1) base bs)
     else scanBits x remain base bs)"

definition selectIthOne :: "succinctBits \<Rightarrow> int \<Rightarrow> int option" where
  "selectIthOne s i =
    (let lo = searchLoop (\<lambda>mid. \<not> sb_wordOnes s ! (mid + 1) \<le> i) 0 (length (sb_labelBitmap s)) in
     case (idx (sb_wordOnes s) (int lo), idx (sb_labelBitmap s) (int lo)) of
       (Some ones, Some x) \<Rightarrow> Some (scanBits x (i - ones) (int lo * 64) [0..<64])
     | _ \<Rightarrow> None)"

section \<open>Counting on the list of bits\<close>

definition bitsOf :: "u64 list \<Rightarrow> bool list" where
  "bitsOf ws = concat (map (\<lambda>w. map (bit w) [0..<64]) ws)"

definition ones :: "bool list \<Rightarrow> nat" where
  "ones bs = length (filter id bs)"

lemma ones_simps [simp]: "ones [] = 0" "ones (b # bs) = (if b then 1 else 0) + ones bs" "ones (as @ bs) = ones as + ones bs"
  by (simp_all add: ones_def)

lemma ones_le: "ones bs \<le> length bs"
  by (simp add: ones_def)

lemma bitsOf_simps [simp]: "bitsOf [] = []" "bitsOf (w # ws) = map (bit w) [0..<64] @ bitsOf ws" "bitsOf (us @ ws) = bitsOf us @ bitsOf ws"
  by (simp_all add: bitsOf_def)

lemma length_bitsOf [simp]: "length (bitsOf ws) = 64 * length ws"
  by (induction ws) simp_all

lemma onesCount64_ones: "onesCount64 w = ones (map (bit w) [0..<64])"
  by (simp add: onesCount64_def ones_def filter_map o_def)

lemma take_bitsOf: "take (64 * n) (bitsOf ws) = bitsOf (take n ws)"
proof (induction ws arbitrary: n)
  case (Cons w ws)
  then show ?case by (cases n) simp_all
qed simp

lemma drop_bitsOf: "drop (64 * n) (bitsOf ws) = bitsOf (drop n ws)"
proof (induction ws arbitrary: n)
  case (Cons w ws)
  then show ?case by (cases n) simp_all
qed simp

lemma nth_bitsOf: "i < 64 * length ws \<Longrightarrow> bitsOf ws ! i = bit (ws ! (i div 64)) (i mod 64)"
proof (induction ws arbitrary: i)
  case (Cons w ws)
  show ?case
  proof (cases "i < 64")
    case False
    then obtain j where j: "i = j + 64" by (metis add.commute le_add_diff_inverse not_less)
    have "(j + 64) div 64 = j div 64 + 1" by simp
    then show ?thesis using Cons j by (simp add: nth_append)
  qed (simp add: nth_append)
qed simp

text \<open>A set whose counts fit 32 bits.\<close>

definition fits :: "u64 list \<Rightarrow> bool" where
  "fits ws = (64 * length ws < 2 ^ 31)"

lemma int32_id: "0 \<le> x \<Longrightarrow> x < 2 ^ 31 \<Longrightarrow> int32 x = x"
  unfolding int32_def by (simp add: signed_of_int signed_take_bit_int_eq_self)

lemma prefixOnes_nth:
  "0 \<le> n \<Longrightarrow> n + int (64 * length ws) < 2 ^ 31 \<Longrightarrow> k \<le> length ws \<Longrightarrow>
    prefixOnes n ws ! k = n + int (ones (bitsOf (take k ws)))"
proof (induction ws arbitrary: n k)
  case (Cons w ws)
  have le: "onesCount64 w \<le> 64" unfolding onesCount64_ones using ones_le [of "map (bit w) [0..<64]"] by simp
  then have i: "int32 (n + int (onesCount64 w)) = n + int (onesCount64 w)"
    by (intro int32_id) (use Cons.prems in simp_all)
  show ?case
  proof (cases k)
    case (Suc j)
    have "prefixOnes (n + int (onesCount64 w)) ws ! j = n + int (onesCount64 w) + int (ones (bitsOf (take j ws)))"
      by (rule Cons.IH) (use Cons.prems le Suc in simp_all)
    then show ?thesis using Suc i by (simp add: onesCount64_ones)
  qed simp
qed simp

lemma length_prefixOnes [simp]: "length (prefixOnes n ws) = length ws + 1"
  by (induction ws arbitrary: n) simp_all


section \<open>Rank\<close>

lemma mask_ones: "b < 64 \<Longrightarrow> onesCount64 (x AND (push_bit b 1 - 1)) = ones (take b (map (bit x) [0..<64]))"
proof -
  assume b: "b < 64"
  have m: "push_bit b (1 :: u64) - 1 = mask b" by (simp add: mask_eq_decr_exp)
  have "filter (bit (x AND mask b)) [0..<64] = filter (bit x) [0..<b]"
  proof -
    have "[0..<64] = [0..<b] @ [b..<64]" using b upt_add_eq_append [of 0 b "64 - b"] by simp
    moreover have "filter (bit (x AND mask b)) [0..<b] = filter (bit x) [0..<b]"
      by (rule filter_cong) (use b in \<open>auto simp: bit_and_iff bit_mask_iff\<close>)
    moreover have "filter (bit (x AND mask b)) [b..<64] = []"
      by (simp add: filter_empty_conv bit_and_iff bit_mask_iff)
    ultimately show ?thesis by simp
  qed
  then show ?thesis using b unfolding m onesCount64_def
    by (simp add: ones_def take_map filter_map o_def min_def)
qed

abbreviation "lbits s \<equiv> bitsOf (sb_labelBitmap s)"

text \<open>A set as the readers build it.\<close>

definition built :: "succinctBits \<Rightarrow> bool" where
  "built s = (sb_wordOnes s = prefixOnes 0 (sb_labelBitmap s) \<and> fits (sb_labelBitmap s))"

lemma wordOnes_nth: "built s \<Longrightarrow> k \<le> length (sb_labelBitmap s) \<Longrightarrow>
    sb_wordOnes s ! k = int (ones (take (64 * k) (lbits s)))"
  using prefixOnes_nth [of 0 "sb_labelBitmap s" k] by (simp add: built_def fits_def take_bitsOf)

lemma rank_correct:
  assumes "built s" "i \<le> length (lbits s)"
  shows "sb_rank s (int i) = Some (int (ones (take i (lbits s))))"
proof -
  let ?ws = "sb_labelBitmap s" and ?w = "i div 64" and ?b = "i mod 64"
  have d: "int i div 64 = int ?w" "nat (int i mod 64) = ?b" by (simp_all add: zdiv_int nat_mod_distrib)
  have w: "?w \<le> length ?ws" using assms(2) by simp
  have "idx (sb_wordOnes s) (int ?w) = Some (int (ones (take (64 * ?w) (lbits s))))"
    using wordOnes_nth [OF assms(1) w] w assms(1) by (simp add: idx_def built_def)
  moreover have "take i (lbits s) = take (64 * ?w) (lbits s) @ take ?b (drop (64 * ?w) (lbits s))"
    by (metis mult_div_mod_eq take_add)
  moreover have "take ?b (drop (64 * ?w) (lbits s)) = take ?b (map (bit (?ws ! ?w)) [0..<64])" "?w < length ?ws" if "?b \<noteq> 0"
  proof -
    show l: "?w < length ?ws" using assms(2) that by (metis div_le_mono dvd_eq_mod_eq_0 le_neq_implies_less length_bitsOf mult_div_mod_eq
          nonzero_mult_div_cancel_left w zero_neq_numeral add.right_neutral add_le_same_cancel1 le_zero_eq)
    then show "take ?b (drop (64 * ?w) (lbits s)) = take ?b (map (bit (?ws ! ?w)) [0..<64])"
      unfolding drop_bitsOf by (simp add: Cons_nth_drop_Suc [symmetric])
  qed
  ultimately show ?thesis unfolding sb_rank_def d Let_def
    by (cases "?b = 0") (simp_all add: idx_def mask_ones del: push_bit_of_1)
qed


section \<open>Select\<close>

lemma scanBits_nth: "r < length (filter (bit x) bs) \<Longrightarrow> scanBits x (int r) base bs = base + int (filter (bit x) bs ! r)"
proof (induction bs arbitrary: r)
  case (Cons b bs)
  show ?case
  proof (cases "bit x b")
    case True
    then show ?thesis using Cons by (cases r) auto
  next
    case False
    then show ?thesis using Cons.IH [of r] Cons.prems by simp
  qed
qed simp

lemma filter_upt_nth:
  "r < length (filter P [0..<n]) \<Longrightarrow> let p = filter P [0..<n] ! r in P p \<and> p < n \<and> length (filter P [0..<p]) = r"
proof (induction n)
  case (Suc n)
  show ?case
  proof (cases "r < length (filter P [0..<n])")
    case True
    then show ?thesis using Suc.IH by (auto simp: nth_append Let_def)
  next
    case False
    then have "P n" "r = length (filter P [0..<n])" using Suc.prems by (auto split: if_splits)
    then show ?thesis by simp
  qed
qed simp

lemma ones_take_mono: "a \<le> b \<Longrightarrow> ones (take a bs) \<le> ones (take b bs)"
  by (metis le_add1 le_add_diff_inverse ones_simps(3) take_add)

lemma select_correct:
  assumes "built s" "i < ones (lbits s)"
  shows "\<exists>p < length (lbits s). selectIthOne s (int i) = Some (int p) \<and> lbits s ! p \<and> ones (take p (lbits s)) = i"
proof -
  let ?ws = "sb_labelBitmap s" and ?f = "\<lambda>mid. \<not> sb_wordOnes s ! (mid + 1) \<le> int i"
  define k where "k = (LEAST m. i < ones (take (64 * (m + 1)) (lbits s)))"
  have ne: "0 < length ?ws" using assms(2) by (cases "?ws") auto
  have ex: "i < ones (take (64 * ((length ?ws - 1) + 1)) (lbits s))" using assms(2) ne by simp
  have k: "i < ones (take (64 * (k + 1)) (lbits s))" unfolding k_def by (rule LeastI, rule ex)
  have "k \<le> length ?ws - 1" unfolding k_def by (rule Least_le, rule ex)
  then have kl: "k < length ?ws" using ne by linarith
  have below: "\<not> i < ones (take (64 * (m + 1)) (lbits s))" if "m < k" for m using not_less_Least that unfolding k_def by blast
  have f: "?f m \<longleftrightarrow> i < ones (take (64 * (m + 1)) (lbits s))" if "m < length ?ws" for m
    using wordOnes_nth [OF assms(1), of "m + 1"] that by auto
  have lo: "searchLoop ?f 0 (length ?ws) = k"
  proof (rule searchLoop_finds)
    fix m assume "m < k" then show "\<not> ?f m" using below f kl by simp
  next
    fix m assume m: "k \<le> m" "m < length ?ws"
    have "ones (take (64 * (k + 1)) (lbits s)) \<le> ones (take (64 * (m + 1)) (lbits s))" by (rule ones_take_mono) (use m in simp)
    then show "?f m" using f [OF m(2)] k by simp
  qed (use kl in simp_all)
  let ?o = "ones (take (64 * k) (lbits s))" and ?x = "?ws ! k"
  have o1: "sb_wordOnes s ! k = int ?o" using wordOnes_nth [OF assms(1)] kl by simp
  have o2: "?o \<le> i"
  proof (cases k)
    case (Suc j)
    then show ?thesis using below [of j] by simp
  qed simp
  have blk: "take 64 (drop (64 * k) (lbits s)) = map (bit ?x) [0..<64]"
    unfolding drop_bitsOf using kl by (simp add: Cons_nth_drop_Suc [symmetric])
  have "64 * (k + 1) = 64 * k + 64" by simp
  then have "ones (take (64 * (k + 1)) (lbits s)) = ?o + ones (map (bit ?x) [0..<64])"
    by (simp only: take_add [of "64 * k" 64] blk ones_simps(3))
  then have r: "i - ?o < length (filter (bit ?x) [0..<64])" using k o2 by (simp add: ones_def filter_map o_def)
  define b where "b = filter (bit ?x) [0..<64] ! (i - ?o)"
  have b: "bit ?x b" "b < 64" "length (filter (bit ?x) [0..<b]) = i - ?o"
    using filter_upt_nth [OF r] unfolding b_def by (auto simp: Let_def)
  have sel: "selectIthOne s (int i) = Some (int (k * 64 + b))"
  proof -
    have sc: "scanBits ?x (int (i - ?o)) (int k * 64) [0..<64] = int k * 64 + int b" unfolding b_def by (rule scanBits_nth [OF r])
    have d: "int i - int ?o = int (i - ?o)" using o2 by simp
    have i1: "idx (sb_wordOnes s) (int k) = Some (int ?o)" using o1 kl assms(1) by (simp add: idx_def built_def)
    have i2: "idx ?ws (int k) = Some ?x" using kl by (simp add: idx_def)
    have "selectIthOne s (int i) = Some (int k * 64 + int b)"
      unfolding selectIthOne_def Let_def lo i1 i2 prod.case option.case d sc ..
    then show ?thesis by simp
  qed
  let ?p = "k * 64 + b"
  have pl: "?p < length (lbits s)" using kl b(2) by simp
  have "take ?p (lbits s) = take (64 * k) (lbits s) @ take b (drop (64 * k) (lbits s))"
    by (metis mult.commute take_add)
  moreover have "take b (drop (64 * k) (lbits s)) = take b (map (bit ?x) [0..<64])"
    using blk b(2) by (metis less_imp_le min.absorb1 take_take)
  moreover have "ones (take b (map (bit ?x) [0..<64])) = i - ?o" using b(2,3) by (simp add: ones_def take_map filter_map o_def min_def)
  ultimately have "ones (take ?p (lbits s)) = i" using o2 by simp
  moreover have "lbits s ! ?p" using nth_bitsOf [of ?p ?ws] pl b(1,2) by simp
  ultimately show ?thesis using sel pl by blast
qed

end
