(* ===== verification/IpRanges.thy ===== *)
theory IpRanges
  imports Handshake Succinct
begin

text \<open>
  Sets of addresses as sorted ranges: the ip-cidr payload of an \<open>.mrs\<close> file (\<open>ruleset/mrs.go\<close>) and the
  ip-set item of an \<open>.srs\<close> file (\<open>ruleset/srs.go\<close>), both searched by bisection.
\<close>

unbundle bit_operations_syntax

section \<open>Bisection on sorted ranges\<close>

text \<open>The last range that starts at or below the point, and whether it reaches the point.\<close>

definition inRanges :: "('a::linorder \<times> 'a) list \<Rightarrow> 'a \<Rightarrow> bool" where
  "inRanges rr t =
    (let i = int (sort_Search (length rr) (\<lambda>i. fst (rr ! i) > t)) - 1 in
     i \<ge> 0 \<and> t \<le> snd (rr ! nat i))"

definition covered :: "('a::linorder \<times> 'a) list \<Rightarrow> 'a \<Rightarrow> bool" where
  "covered rr t = list_ex (\<lambda>(f, u). f \<le> t \<and> t \<le> u) rr"

text \<open>Ranges that are not empty and do not meet.\<close>

fun apart :: "('a::linorder \<times> 'a) list \<Rightarrow> bool" where
  "apart [] = True"
| "apart ((f, u) # rr) = (f \<le> u \<and> list_all (\<lambda>(g, v). u < g \<or> v < f) rr \<and> apart rr)"

lemma apart_insort:
  "apart (insort_key fst r rr) \<longleftrightarrow> apart (r # rr)"
proof (induction rr)
  case (Cons s rr)
  obtain f u g v where [simp]: "r = (f, u)" "s = (g, v)" by fastforce
  have "set (insort_key fst r rr) = insert r (set rr)" by (simp add: set_insort_key)
  then have "list_all P (insort_key fst r rr) \<longleftrightarrow> P r \<and> list_all P rr" for P by (simp add: list_all_iff)
  then show ?case using Cons by auto
qed (cases r; simp)

lemma apart_sort: "apart (sort_key fst rr) \<longleftrightarrow> apart rr"
proof (induction rr)
  case (Cons r rr)
  have "list_all P (sort_key fst rr) \<longleftrightarrow> list_all P rr" for P by (simp add: list_all_iff)
  then show ?case using Cons by (cases r) (simp add: apart_insort)
qed simp

lemma apart_nth:
  "apart rr \<Longrightarrow> i < j \<Longrightarrow> j < length rr \<Longrightarrow> snd (rr ! i) < fst (rr ! j) \<or> snd (rr ! j) < fst (rr ! i)"
proof (induction rr arbitrary: i j)
  case (Cons r rr)
  obtain f u where r: "r = (f, u)" by fastforce
  obtain j' where j: "j = Suc j'" using Cons.prems(2) by (cases j) auto
  show ?case
  proof (cases i)
    case 0
    have "rr ! j' \<in> set rr" using Cons.prems(3) j by simp
    then show ?thesis using Cons.prems(1) r 0 j by (auto simp: list_all_iff)
  next
    case (Suc i')
    then show ?thesis using Cons.IH [of i' j'] Cons.prems r j by simp
  qed
qed simp

lemma apart_nonempty: "apart rr \<Longrightarrow> i < length rr \<Longrightarrow> fst (rr ! i) \<le> snd (rr ! i)"
proof (induction rr arbitrary: i)
  case (Cons r rr)
  then show ?case by (cases r; cases i) auto
qed simp

lemma sorted_ranges:
  assumes "sorted (map fst rr)" "apart rr" "i < j" "j < length rr"
  shows "snd (rr ! i) < fst (rr ! j)"
proof -
  have le: "fst (rr ! i) \<le> fst (rr ! j)" using sorted_nth_mono [OF assms(1), of i j] assms(3,4) by simp
  have "\<not> snd (rr ! j) < fst (rr ! i)" using apart_nonempty [OF assms(2,4)] le by auto
  then show ?thesis using apart_nth [OF assms(2-4)] by blast
qed

lemma inRanges_covered:
  assumes "sorted (map fst rr)" "apart rr"
  shows "inRanges rr t = covered rr t"
proof -
  let ?n = "length rr"
  define k where "k = length (filter (\<lambda>r. fst r \<le> t) rr)"
  have split: "fst (rr ! m) \<le> t \<longleftrightarrow> m < k" if "m < ?n" for m
    using assms(1) that unfolding k_def
  proof (induction rr arbitrary: m)
    case (Cons r rr)
    have all: "\<not> fst r \<le> t \<Longrightarrow> filter (\<lambda>r. fst r \<le> t) rr = []" using Cons.prems(1) by (fastforce simp: filter_empty_conv)
    show ?case
    proof (cases m)
      case (Suc m')
      have "rr ! m' \<in> set rr" using Cons.prems(2) Suc by simp
      then have "fst r \<le> fst (rr ! m')" using Cons.prems(1) by auto
      then show ?thesis using Cons.IH [of m'] Cons.prems all Suc by (cases "fst r \<le> t") auto
    qed (use all in auto)
  qed simp
  have kn: "k \<le> ?n" unfolding k_def by simp
  have s: "sort_Search ?n (\<lambda>i. fst (rr ! i) > t) = k"
  proof (rule sort_Search_finds [OF kn])
    fix m assume "m < k" then show "\<not> fst (rr ! m) > t" using split [of m] kn by auto
  next
    fix m assume "k \<le> m" "m < ?n" then show "fst (rr ! m) > t" using split [of m] by auto
  qed
  have c: "covered rr t \<longleftrightarrow> (\<exists>i < ?n. fst (rr ! i) \<le> t \<and> t \<le> snd (rr ! i))"
    by (simp add: covered_def list_ex_length case_prod_beta)
  show ?thesis
  proof (cases "k = 0")
    case True
    then show ?thesis using split c by (auto simp: inRanges_def s)
  next
    case False
    then have i: "nat (int k - 1) = k - 1" "k - 1 < ?n" using kn by auto
    have "covered rr t \<longleftrightarrow> t \<le> snd (rr ! (k - 1))"
    proof
      assume "covered rr t"
      then obtain j where j: "j < ?n" "fst (rr ! j) \<le> t" "t \<le> snd (rr ! j)" using c by blast
      have "j < k" using split j by blast
      moreover have "\<not> j < k - 1"
      proof
        assume "j < k - 1"
        then have "snd (rr ! j) < fst (rr ! (k - 1))" using sorted_ranges [OF assms _ i(2)] by blast
        moreover have "fst (rr ! (k - 1)) \<le> t" using split [OF i(2)] False by simp
        ultimately show False using j(3) by simp
      qed
      ultimately have "j = k - 1" by simp
      then show "t \<le> snd (rr ! (k - 1))" using j by simp
    next
      assume "t \<le> snd (rr ! (k - 1))"
      then show "covered rr t" using c split [OF i(2)] i(2) False by auto
    qed
    then show ?thesis using False i(1) by (simp add: inRanges_def s)
  qed
qed

lemma covered_sort: "covered (sort_key fst rr) t = covered rr t"
  by (simp add: covered_def list_ex_iff)

lemma bisect_correct: "apart rr \<Longrightarrow> inRanges (sort_key fst rr) t = covered rr t"
  by (subst inRanges_covered) (simp_all add: apart_sort covered_sort)


section \<open>Address sets\<close>

text \<open>
  What the rule engine asks of an address set (\<open>rule.IPSet\<close>): a membership test that agrees with the
  addresses the set stands for.
\<close>

locale ip_set =
  fixes matchIP :: "'s \<Rightarrow> Addr \<Rightarrow> bool" and stands :: "'s \<Rightarrow> Addr set" and okSet :: "'s \<Rightarrow> bool"
  assumes match_stands: "okSet s \<Longrightarrow> matchIP s ip \<longleftrightarrow> ip \<in> stands s"
begin

text \<open>A union of sets matches what one of them matches.\<close>

lemma union_stands: "list_all okSet ss \<Longrightarrow> list_ex (\<lambda>s. matchIP s ip) ss \<longleftrightarrow> ip \<in> (\<Union>s \<in> set ss. stands s)"
  by (induction ss) (auto simp: match_stands)

end

section \<open>The .mrs container\<close>

datatype mrsErr = MrsZstd | MrsIO ioErr | MrsMagic | MrsBehavior u8 | MrsExtra int | MrsVersion u8 | MrsLen int

definition mrio :: "(ioErr, 'a) result \<Rightarrow> (mrsErr, 'a) result" where
  "mrio x = (case x of Inl e \<Rightarrow> Inl (MrsIO e) | Inr a \<Rightarrow> Inr a)"

text \<open>\<open>binary.Read\<close> of an \<open>int64\<close>.\<close>

definition rdI64 :: "bytes \<Rightarrow> (ioErr, int \<times> bytes) result" where
  "rdI64 s = res_bind (readFull 8 s) (\<lambda>(b, s). Inr (sint (get64 b), s))"

definition mrsMagic :: bytes where
  "mrsMagic = bytes_of_string ''MRS'' @ [1]"

definition openMRS :: "(bytes \<Rightarrow> bytes option) \<Rightarrow> bytes \<Rightarrow> (mrsErr, u8 \<times> bytes) result" where
  "openMRS zstd data =
    (case zstd data of
       None \<Rightarrow> Inl MrsZstd
     | Some raw \<Rightarrow>
         res_bind (mrio (readFull 4 raw)) (\<lambda>(hdr, r).
           if hdr \<noteq> mrsMagic then Inl MrsMagic
           else
             res_bind (mrio (readFull 1 r)) (\<lambda>(beh, r).
               res_bind (mrio (rdI64 r)) (\<lambda>(_, r).
                 res_bind (mrio (rdI64 r)) (\<lambda>(extraLen, r).
                   if extraLen < 0 \<or> extraLen > int (length r) then Inl (MrsExtra extraLen)
                   else Inr (beh ! 0, drop (nat extraLen) r))))))"

text \<open>The range records, in the order of the file.\<close>

fun readRanges :: "nat \<Rightarrow> bytes \<Rightarrow> (mrsErr, (bytes \<times> bytes) list) result" where
  "readRanges 0 r = Inr []"
| "readRanges (Suc n) r =
    res_bind (mrio (readFull 16 r)) (\<lambda>(f, r).
      res_bind (mrio (readFull 16 r)) (\<lambda>(t, r).
        res_bind (readRanges n r) (\<lambda>rr. Inr ((f, t) # rr))))"

type_synonym ipRangeSet = "(bytes \<times> bytes) list"

definition readIPCidrSetBin :: "bytes \<Rightarrow> (mrsErr, ipRangeSet) result" where
  "readIPCidrSetBin r =
    res_bind (mrio (readFull 1 r)) (\<lambda>(ver, r).
      if ver ! 0 \<noteq> 1 then Inl (MrsVersion (ver ! 0))
      else
        res_bind (mrio (rdI64 r)) (\<lambda>(n, r).
          if n < 0 \<or> n > 2 ^ 28 then Inl (MrsLen n)
          else res_bind (readRanges (nat n) r) (\<lambda>rr. Inr (sort_key fst rr))))"

definition mrs_MatchIP :: "ipRangeSet \<Rightarrow> Addr \<Rightarrow> bool" where
  "mrs_MatchIP rr ip = inRanges rr (As16 ip)"

definition ParseMRSIP :: "(bytes \<Rightarrow> bytes option) \<Rightarrow> bytes \<Rightarrow> (mrsErr, ipRangeSet) result" where
  "ParseMRSIP zstd data =
    res_bind (openMRS zstd data) (\<lambda>(beh, r). if beh \<noteq> 1 then Inl (MrsBehavior beh) else readIPCidrSetBin r)"

fun readU64s :: "nat \<Rightarrow> bytes \<Rightarrow> u64 list" where
  "readU64s 0 b = []"
| "readU64s (Suc n) b = get64 (take 8 b) # readU64s n (drop 8 b)"

definition readU64Slice :: "bytes \<Rightarrow> (mrsErr, u64 list \<times> bytes) result" where
  "readU64Slice r =
    res_bind (mrio (rdI64 r)) (\<lambda>(n, r).
      if n < 1 \<or> n > 2 ^ 28 then Inl (MrsLen n)
      else res_bind (mrio (readFull (8 * nat n) r)) (\<lambda>(b, r). Inr (readU64s (nat n) b, r)))"

definition readDomainSetBin :: "bytes \<Rightarrow> (mrsErr, succinctBits) result" where
  "readDomainSetBin r =
    res_bind (mrio (readFull 1 r)) (\<lambda>(ver, r).
      if ver ! 0 \<noteq> 1 then Inl (MrsVersion (ver ! 0))
      else
        res_bind (readU64Slice r) (\<lambda>(leaves, r).
          res_bind (readU64Slice r) (\<lambda>(labelBitmap, r).
            res_bind (mrio (rdI64 r)) (\<lambda>(n, r).
              if n < 1 \<or> n > 2 ^ 34 then Inl (MrsLen n)
              else res_bind (mrio (readFull (nat n) r)) (\<lambda>(labels, _).
                Inr (newSuccinctBits leaves labelBitmap labels))))))"

definition ParseMRSDomain :: "(bytes \<Rightarrow> bytes option) \<Rightarrow> bytes \<Rightarrow> (mrsErr, succinctBits) result" where
  "ParseMRSDomain zstd data =
    res_bind (openMRS zstd data) (\<lambda>(beh, r). if beh \<noteq> 0 then Inl (MrsBehavior beh) else readDomainSetBin r)"

section \<open>Reading what the format describes\<close>

definition mrsFile :: "u8 \<Rightarrow> u64 \<Rightarrow> bytes \<Rightarrow> bytes \<Rightarrow> bytes" where
  "mrsFile beh count extra payload =
    mrsMagic @ [beh] @ be64 count @ be64 (word_of_nat (length extra)) @ extra @ payload"

definition rangePayload :: "(bytes \<times> bytes) list \<Rightarrow> bytes" where
  "rangePayload rr = [1] @ be64 (word_of_nat (length rr)) @ concat (map (\<lambda>(f, t). f @ t) rr)"

lemma mrio_simps [simp]: "mrio (Inl e) = Inl (MrsIO e)" "mrio (Inr a) = Inr a"
  by (simp_all add: mrio_def)

lemma rdI64_be64 [simp]: "rdI64 (be64 w @ rest) = Inr (sint w, rest)"
  by (simp add: rdI64_def)

lemma sint_len: "n < 2 ^ 63 \<Longrightarrow> sint (word_of_nat n :: u64) = int n"
  by (simp add: signed_of_nat signed_take_bit_int_eq_self)

lemma openMRS_file:
  assumes "zstd data = Some (mrsFile beh count extra payload)" "length extra < 2 ^ 63"
  shows "openMRS zstd data = Inr (beh, payload)"
proof -
  have m: "readFull 4 (mrsMagic @ t) = Inr (mrsMagic, t)" for t
    by (rule readFull_append') (simp add: mrsMagic_def)
  show ?thesis using assms unfolding openMRS_def mrsFile_def
    by (simp add: m sint_len)
qed

lemma readRanges_back: "list_all (\<lambda>(f, t). length f = 16 \<and> length t = 16) rr \<Longrightarrow>
    readRanges (length rr) (concat (map (\<lambda>(f, t). f @ t) rr) @ rest) = Inr rr"
  by (induction rr) auto

lemma ParseMRSIP_file:
  assumes "zstd data = Some (mrsFile 1 count extra (rangePayload rr))" "length extra < 2 ^ 63"
    "list_all (\<lambda>(f, t). length f = 16 \<and> length t = 16) rr" "length rr \<le> 2 ^ 28"
  shows "ParseMRSIP zstd data = Inr (sort_key fst rr)"
proof -
  have "readIPCidrSetBin (rangePayload rr) = Inr (sort_key fst rr)"
    using assms(4) readRanges_back [OF assms(3), of "[]"]
    by (simp add: readIPCidrSetBin_def rangePayload_def sint_len)
  then show ?thesis using openMRS_file [of zstd data 1 count extra "rangePayload rr"] assms(1,2) by (simp add: ParseMRSIP_def)
qed

definition mrsStands :: "ipRangeSet \<Rightarrow> Addr set" where
  "mrsStands rr = {ip. covered rr (As16 ip)}"

interpretation mrs_set: ip_set mrs_MatchIP mrsStands "\<lambda>rr. sorted (map fst rr) \<and> apart rr"
  by unfold_locales (simp add: mrs_MatchIP_def mrsStands_def inRanges_covered)

section \<open>Properties\<close>

text \<open>
  Reading an address file of the .mrs format gives a set whose bisection answers exactly as the
  ranges of the file do: an address is in the set when its sixteen bytes lie in one of the ranges, in
  whatever order the file lists them, as long as the ranges do not meet. The decompressor is any
  function that gives the file's content.
\<close>

theorem mrs_ip_file:
  assumes "zstd data = Some (mrsFile 1 count extra (rangePayload rr))" "length extra < 2 ^ 63"
    and "list_all (\<lambda>(f, t). length f = 16 \<and> length t = 16) rr" "length rr \<le> 2 ^ 28" "apart rr"
  shows "\<exists>s. ParseMRSIP zstd data = Inr s \<and> (\<forall>ip. mrs_MatchIP s ip \<longleftrightarrow> list_ex (\<lambda>(f, t). f \<le> As16 ip \<and> As16 ip \<le> t) rr)"
  using ParseMRSIP_file [of zstd data count extra rr] assms(1-4) bisect_correct [OF assms(5)]
  by (auto simp: mrs_MatchIP_def covered_def)

definition mw_ranges :: "(bytes \<times> bytes) list" where
  "mw_ranges = [(As16 (Addr4 0x0a000000), As16 (Addr4 0x0affffff)), (As16 (Addr4 0x01000000), As16 (Addr4 0x01000001))]"

theorem mrs_ip_file_witness:
  "\<exists>s. ParseMRSIP Some (mrsFile 1 2 [7] (rangePayload mw_ranges)) = Inr s
    \<and> mrs_MatchIP s (Addr4 0x0a010203) \<and> \<not> mrs_MatchIP s (Addr4 0x0b000000)"
proof -
  have l: "list_all (\<lambda>(f, t). length f = 16 \<and> length t = 16) mw_ranges" by (simp add: mw_ranges_def)
  have a: "apart mw_ranges" by code_simp
  obtain s where s: "ParseMRSIP Some (mrsFile 1 2 [7] (rangePayload mw_ranges)) = Inr s"
      "\<forall>ip. mrs_MatchIP s ip \<longleftrightarrow> list_ex (\<lambda>(f, t). f \<le> As16 ip \<and> As16 ip \<le> t) mw_ranges"
    using mrs_ip_file [of Some "mrsFile 1 2 [7] (rangePayload mw_ranges)" 2 "[7]" mw_ranges] l a by (auto simp: mw_ranges_def)
  have "mrs_MatchIP s (Addr4 0x0a010203)" "\<not> mrs_MatchIP s (Addr4 0x0b000000)"
    unfolding s(2) [rule_format] by code_simp+
  then show ?thesis using s(1) by blast
qed

end
