(* ===== verification/SingSet.thy ===== *)
theory SingSet
  imports Succinct
begin

text \<open>
  The domain matcher of \<open>.srs\<close> files (\<open>ruleset/srs.go\<close>, \<open>readSingSuccinct\<close> and \<open>singDomainSet\<close>): a walk over the
  bits of a compressed trie.  On every set the reader accepts, the walk stays inside its slices and
  returns what the walk over the trie's nodes and labels returns.
\<close>

unbundle bit_operations_syntax

section \<open>The walk over the bits\<close>

abbreviation (input) "prefixLabel \<equiv> (13 :: u8)"
abbreviation (input) "rootLabel \<equiv> (10 :: u8)"
abbreviation (input) "dotByte \<equiv> (46 :: u8)"

text \<open>
  The inner loop: \<^const>\<open>None\<close> is a panic, \<open>Inl b\<close> the return of \<open>b\<close>, \<open>Inr p\<close> the break at position \<open>p\<close>.
\<close>

function singScan :: "succinctBits \<Rightarrow> u8 \<Rightarrow> int \<Rightarrow> int \<Rightarrow> (bool + int) option" where
  "singScan s c nodeId bmIdx =
    (case getBit (sb_labelBitmap s) bmIdx of
       None \<Rightarrow> None
     | Some True \<Rightarrow> Some (Inl False)
     | Some False \<Rightarrow>
         (case idx (sb_labels s) (bmIdx - nodeId) of
            None \<Rightarrow> None
          | Some nextLabel \<Rightarrow>
              if nextLabel = prefixLabel then Some (Inl True)
              else
                (case (if nextLabel = rootLabel then
                         (case countZeros s (bmIdx + 1) of
                            None \<Rightarrow> None
                          | Some nextNodeId \<Rightarrow> if c = dotByte then getBit (sb_leaves s) nextNodeId else Some False)
                       else Some False) of
                   None \<Rightarrow> None
                 | Some True \<Rightarrow> Some (Inl True)
                 | Some False \<Rightarrow> if nextLabel = c then Some (Inr bmIdx) else singScan s c nodeId (bmIdx + 1))))"
  by auto
termination
  by (relation "measure (\<lambda>(s, c, nodeId, bmIdx). nat (64 * int (length (sb_labelBitmap s)) - bmIdx))")
    (auto simp: getBit_def idx_def split: if_splits)

declare singScan.simps [simp del]

function singEnd :: "succinctBits \<Rightarrow> int \<Rightarrow> int \<Rightarrow> bool option" where
  "singEnd s nodeId bmIdx =
    (case getBit (sb_labelBitmap s) bmIdx of
       None \<Rightarrow> None
     | Some True \<Rightarrow> Some False
     | Some False \<Rightarrow>
         (case idx (sb_labels s) (bmIdx - nodeId) of
            None \<Rightarrow> None
          | Some nextLabel \<Rightarrow>
              if nextLabel = prefixLabel \<or> nextLabel = rootLabel then Some True else singEnd s nodeId (bmIdx + 1)))"
  by auto
termination
  by (relation "measure (\<lambda>(s, nodeId, bmIdx). nat (64 * int (length (sb_labelBitmap s)) - bmIdx))")
    (auto simp: getBit_def idx_def split: if_splits)

declare singEnd.simps [simp del]

fun sing_has :: "succinctBits \<Rightarrow> bytes \<Rightarrow> int \<Rightarrow> int \<Rightarrow> bool option" where
  "sing_has s [] nodeId bmIdx =
    (case getBit (sb_leaves s) nodeId of
       None \<Rightarrow> None | Some True \<Rightarrow> Some True | Some False \<Rightarrow> singEnd s nodeId bmIdx)"
| "sing_has s (c # key) nodeId bmIdx =
    (case singScan s c nodeId bmIdx of
       None \<Rightarrow> None
     | Some (Inl r) \<Rightarrow> Some r
     | Some (Inr bmIdx) \<Rightarrow>
         (case countZeros s (bmIdx + 1) of
            None \<Rightarrow> None
          | Some nodeId \<Rightarrow>
              (case selectIthOne s (nodeId - 1) of None \<Rightarrow> None | Some p \<Rightarrow> sing_has s key nodeId (p + 1))))"

section \<open>Reversing a domain\<close>

text \<open>\<open>utf8.DecodeRuneInString\<close> on a non-empty string and \<open>utf8.EncodeRune\<close>.\<close>

definition cont :: "nat \<Rightarrow> nat \<Rightarrow> u8 \<Rightarrow> bool" where
  "cont lo hi b = (lo \<le> unat b \<and> unat b \<le> hi)"

fun decodeRune :: "bytes \<Rightarrow> nat \<times> nat" where
  "decodeRune [] = (0xFFFD, 0)"
| "decodeRune (b0 # bs) =
    (let x = unat b0; low = (\<lambda>b :: u8. unat b mod 64);
         lo1 = (if x = 0xE0 then 0xA0 else if x = 0xF0 then 0x90 else 0x80);
         hi1 = (if x = 0xED then 0x9F else if x = 0xF4 then 0x8F else 0xBF) in
     if x < 0x80 then (x, 1)
     else if 0xC2 \<le> x \<and> x \<le> 0xDF then
       (case bs of b1 # _ \<Rightarrow> if cont 0x80 0xBF b1 then ((x mod 32) * 64 + low b1, 2) else (0xFFFD, 1) | _ \<Rightarrow> (0xFFFD, 1))
     else if 0xE0 \<le> x \<and> x \<le> 0xEF then
       (case bs of b1 # b2 # _ \<Rightarrow>
          if cont lo1 hi1 b1 \<and> cont 0x80 0xBF b2 then ((x mod 16) * 4096 + low b1 * 64 + low b2, 3) else (0xFFFD, 1)
        | _ \<Rightarrow> (0xFFFD, 1))
     else if 0xF0 \<le> x \<and> x \<le> 0xF4 then
       (case bs of b1 # b2 # b3 # _ \<Rightarrow>
          if cont lo1 hi1 b1 \<and> cont 0x80 0xBF b2 \<and> cont 0x80 0xBF b3
          then ((x mod 8) * 262144 + low b1 * 4096 + low b2 * 64 + low b3, 4) else (0xFFFD, 1)
        | _ \<Rightarrow> (0xFFFD, 1))
     else (0xFFFD, 1))"

definition encodeRune :: "nat \<Rightarrow> bytes" where
  "encodeRune r =
    (let r = (if r > 0x10FFFF \<or> (0xD800 \<le> r \<and> r \<le> 0xDFFF) then 0xFFFD else r) in
     if r < 0x80 then [word_of_nat r]
     else if r < 0x800 then [word_of_nat (0xC0 + r div 64), word_of_nat (0x80 + r mod 64)]
     else if r < 0x10000 then
       [word_of_nat (0xE0 + r div 4096), word_of_nat (0x80 + r div 64 mod 64), word_of_nat (0x80 + r mod 64)]
     else
       [word_of_nat (0xF0 + r div 262144), word_of_nat (0x80 + r div 4096 mod 64), word_of_nat (0x80 + r div 64 mod 64),
        word_of_nat (0x80 + r mod 64)])"

lemma decodeRune_width: "s \<noteq> [] \<Longrightarrow> 0 < snd (decodeRune s)"
  by (cases s) (auto simp: Let_def split: list.split)

function reverseLoop :: "bytes \<Rightarrow> nat \<Rightarrow> bytes \<Rightarrow> bytes option" where
  "reverseLoop domain i b =
    (if i < length domain then
       (case decodeRune (drop i domain) of
          (r, n) \<Rightarrow>
            if length (encodeRune r) \<le> length b - (length domain - (i + n)) then
              reverseLoop domain (i + n)
                (take (length domain - (i + n)) b @ encodeRune r @ drop (length domain - (i + n) + length (encodeRune r)) b)
            else None)
     else Some b)"
  by auto
termination
  apply (relation "measure (\<lambda>(domain, i, b). length domain - i)")
  subgoal by simp
  subgoal for domain i b r n using decodeRune_width [of "drop i domain"] by (auto simp: prod_eq_iff)
  done

declare reverseLoop.simps [simp del]

definition reverseDomain :: "bytes \<Rightarrow> bytes option" where
  "reverseDomain domain = reverseLoop domain 0 (replicate (length domain) 0)"

definition sing_MatchDomain :: "succinctBits \<Rightarrow> string \<Rightarrow> bool option" where
  "sing_MatchDomain s domain =
    (case reverseDomain (bytes_of_string domain) of None \<Rightarrow> None | Some key \<Rightarrow> sing_has s key 0 0)"


section \<open>The sets the reader accepts\<close>

text \<open>The counting loop of \<open>readSingSuccinct\<close> over the label bitmap, and its check.\<close>

definition leadingZeros64 :: "u64 \<Rightarrow> nat" where
  "leadingZeros64 w = length (takeWhile (\<lambda>i. \<not> bit w i) (rev [0..<64]))"

fun countLabels :: "u64 list \<Rightarrow> int \<Rightarrow> int \<Rightarrow> int \<Rightarrow> int \<times> int" where
  "countLabels [] wi onesCount lastOneIndex = (onesCount, lastOneIndex)"
| "countLabels (word # ws) wi onesCount lastOneIndex =
    countLabels ws (wi + 1) (onesCount + int (onesCount64 word))
      (if word \<noteq> 0 then wi * 64 + (63 - int (leadingZeros64 word)) else lastOneIndex)"

definition singCheck :: "u64 list \<Rightarrow> u64 list \<Rightarrow> bytes \<Rightarrow> succinctBits option" where
  "singCheck leaves labelBitmap labels =
    (let (onesCount, lastOneIndex) = countLabels labelBitmap 0 0 (-1);
         zerosCount = lastOneIndex + 1 - onesCount;
         lw = (onesCount + 63) div 64 in
     if onesCount \<noteq> zerosCount + 1 \<or> int (length labels) \<noteq> zerosCount then None
     else Some (newSuccinctBits (leaves @ replicate (nat (lw - int (length leaves))) 0) labelBitmap labels))"

text \<open>The shape of an accepted set: as many nodes (one bits) as labels (zero bits up to the last one) and one more.\<close>

definition shaped :: "succinctBits \<Rightarrow> bool" where
  "shaped s = (built s \<and> ones (lbits s) = length (sb_labels s) + 1 \<and>
     (\<exists>p. p = 2 * length (sb_labels s) \<and> p < length (lbits s) \<and> lbits s ! p \<and> ones (take (p + 1) (lbits s)) = ones (lbits s)) \<and>
     ones (lbits s) \<le> 64 * length (sb_leaves s))"


lemma top_bit:
  assumes "w \<noteq> 0"
  shows "\<exists>b < 64. bit w b \<and> (\<forall>j. b < j \<longrightarrow> j < 64 \<longrightarrow> \<not> bit w j) \<and> 63 - int (leadingZeros64 w) = int b"
proof -
  let ?l = "leadingZeros64 w" and ?xs = "rev [0..<64::nat]"
  obtain i where "bit w i" using assms by (auto simp: bit_eq_iff)
  then have i: "bit w i" "i \<in> set ?xs" using bit_imp_le_length [of w i] by auto
  have lt: "?l < length ?xs" unfolding leadingZeros64_def
    using i by (metis (mono_tags, lifting) le_neq_implies_less length_takeWhile_le takeWhile_eq_all_conv takeWhile_eq_take take_all_iff order_refl)
  have l: "?l < 64" using lt by simp
  have nth: "?xs ! k = 63 - k" if "k < 64" for k using that by (simp add: rev_nth)
  have "bit w (63 - ?l)" using nth_length_takeWhile [of "\<lambda>i. \<not> bit w i" ?xs] lt nth [OF l] unfolding leadingZeros64_def by simp
  moreover have "\<not> bit w j" if "63 - ?l < j" "j < 64" for j
  proof -
    have "63 - j < ?l" using that by linarith
    then have "\<not> bit w (?xs ! (63 - j))" unfolding leadingZeros64_def
      by (metis (mono_tags, lifting) nth_mem set_takeWhileD takeWhile_nth)
    moreover have "?xs ! (63 - j) = j" using nth [of "63 - j"] that by simp
    ultimately show ?thesis by simp
  qed
  ultimately show ?thesis using l by (intro exI [of _ "63 - ?l"]) auto
qed

lemma ones_0_iff: "ones bs = 0 \<longleftrightarrow> (\<forall>i < length bs. \<not> bs ! i)"
  by (auto simp: ones_def filter_empty_conv in_set_conv_nth)

lemma ones_word_0: "ones (map (bit (w :: u64)) [0..<64]) = 0 \<longleftrightarrow> w = 0"
proof
  assume "ones (map (bit w) [0..<64]) = 0"
  then have "\<forall>i < 64. \<not> bit w i" by (simp add: ones_0_iff)
  then show "w = 0" using top_bit [of w] by blast
qed (simp add: ones_0_iff)

lemma countLabels_spec:
  "countLabels ws wi oc l = (oc', l') \<Longrightarrow>
    oc' = oc + int (ones (bitsOf ws)) \<and>
    (if ones (bitsOf ws) = 0 then l' = l
     else \<exists>p < length (bitsOf ws). l' = wi * 64 + int p \<and> bitsOf ws ! p \<and> ones (drop (p + 1) (bitsOf ws)) = 0)"
proof (induction ws wi oc l arbitrary: oc' l' rule: countLabels.induct)
  case (2 w ws wi oc l)
  let ?l = "if w \<noteq> 0 then wi * 64 + (63 - int (leadingZeros64 w)) else l" and ?m = "map (bit w) [0..<64]"
  have rec: "countLabels ws (wi + 1) (oc + int (onesCount64 w)) ?l = (oc', l')" using "2.prems" by simp
  note IH = "2.IH" [OF rec]
  have oc: "oc' = oc + int (ones (bitsOf (w # ws)))" using IH by (simp add: onesCount64_ones)
  show ?case
  proof (cases "ones (bitsOf ws) = 0")
    case False
    then obtain p where p: "p < length (bitsOf ws)" "l' = (wi + 1) * 64 + int p" "bitsOf ws ! p" "ones (drop (p + 1) (bitsOf ws)) = 0"
      using IH by auto
    have "64 + p < length (bitsOf (w # ws))" "l' = wi * 64 + int (64 + p)" "bitsOf (w # ws) ! (64 + p)"
      "ones (drop (64 + p + 1) (bitsOf (w # ws))) = 0" using p by (simp_all add: nth_append)
    then have "\<exists>q < length (bitsOf (w # ws)). l' = wi * 64 + int q \<and> bitsOf (w # ws) ! q \<and> ones (drop (q + 1) (bitsOf (w # ws))) = 0"
      by blast
    moreover have "ones (bitsOf (w # ws)) \<noteq> 0" using False by simp
    ultimately show ?thesis using oc by (simp only: if_False simp_thms)
  next
    case True
    then have l': "l' = ?l" using IH by simp
    show ?thesis
    proof (cases "w = 0")
      case w: True
      then have "ones (bitsOf (w # ws)) = 0" using True ones_word_0 [of w] by (simp only: bitsOf_simps ones_simps add_0_right simp_thms)
      then show ?thesis using oc l' w by simp
    next
      case w: False
      then obtain b where b: "b < 64" "bit w b" "\<forall>j. b < j \<longrightarrow> j < 64 \<longrightarrow> \<not> bit w j" "63 - int (leadingZeros64 w) = int b"
        using top_bit by blast
      have "ones (drop (b + 1) (bitsOf (w # ws))) = ones (drop (b + 1) ?m)" using True b(1) by (simp add: drop_map)
      moreover have "ones (drop (b + 1) ?m) = 0" using b(1,3) by (simp add: ones_0_iff)
      moreover have "ones (bitsOf (w # ws)) \<noteq> 0" using w ones_word_0 [of w] by (simp only: bitsOf_simps ones_simps add_is_0 simp_thms)
      moreover have "bitsOf (w # ws) ! b" "b < length (bitsOf (w # ws))" using b by (simp_all add: nth_append)
      moreover have "l' = wi * 64 + int b" using l' w b(4) by simp
      ultimately have "\<exists>q < length (bitsOf (w # ws)). l' = wi * 64 + int q \<and> bitsOf (w # ws) ! q \<and> ones (drop (q + 1) (bitsOf (w # ws))) = 0"
        "ones (bitsOf (w # ws)) \<noteq> 0" by metis+
      then show ?thesis using oc by (simp only: if_False simp_thms)
    qed
  qed
qed simp

lemma singCheck_shaped:
  assumes "singCheck leaves labelBitmap labels = Some s" "fits labelBitmap"
  shows "shaped s" "sb_labelBitmap s = labelBitmap" "sb_labels s = labels"
proof -
  obtain oc l where c: "countLabels labelBitmap 0 0 (-1) = (oc, l)" by (metis surj_pair)
  note sp = countLabels_spec [OF c]
  have oc: "oc = int (ones (bitsOf labelBitmap))" using sp by simp
  have chk: "oc = l + 1 - oc + 1" "int (length labels) = l + 1 - oc"
    and s: "s = newSuccinctBits (leaves @ replicate (nat ((oc + 63) div 64 - int (length leaves))) 0) labelBitmap labels"
    using assms(1) unfolding singCheck_def c by (auto simp: Let_def split: if_splits)
  show lb: "sb_labelBitmap s = labelBitmap" "sb_labels s = labels" using s by (simp_all add: newSuccinctBits_def)
  have one: "ones (bitsOf labelBitmap) = length labels + 1" using chk oc by linarith
  then obtain p where p: "p < length (bitsOf labelBitmap)" "l = int p" "bitsOf labelBitmap ! p" "ones (drop (p + 1) (bitsOf labelBitmap)) = 0"
    using sp by auto
  have "p = 2 * length labels" using chk p(2) one oc by linarith
  moreover have "ones (take (p + 1) (bitsOf labelBitmap)) = ones (bitsOf labelBitmap)"
    using p(4) ones_simps(3) [of "take (p + 1) (bitsOf labelBitmap)" "drop (p + 1) (bitsOf labelBitmap)"] by simp
  moreover have "ones (bitsOf labelBitmap) \<le> 64 * length (sb_leaves s)" using oc unfolding s newSuccinctBits_def by simp
  ultimately show "shaped s" unfolding shaped_def using lb one p assms(2)
    by (auto simp: built_def s newSuccinctBits_def)
qed


section \<open>The trie\<close>

text \<open>
  Nodes are numbered by the one bits, and the zero bits before a node's one bit are its edges: label
  and number of the node below.
\<close>

definition childAt :: "succinctBits \<Rightarrow> nat \<Rightarrow> nat \<Rightarrow> u8 \<times> nat" where
  "childAt s n p = (sb_labels s ! (p - n), p - n + 1)"

definition childrenFrom :: "succinctBits \<Rightarrow> nat \<Rightarrow> nat \<Rightarrow> (u8 \<times> nat) list" where
  "childrenFrom s n p =
    map (childAt s n) (filter (\<lambda>q. \<not> lbits s ! q \<and> ones (take q (lbits s)) = n) [p..<length (lbits s)])"

abbreviation "children s n \<equiv> childrenFrom s n 0"

definition leaf :: "succinctBits \<Rightarrow> nat \<Rightarrow> bool" where
  "leaf s n = bit (sb_leaves s ! (n div 64)) (n mod 64)"

fun walkScan :: "succinctBits \<Rightarrow> u8 \<Rightarrow> (u8 \<times> nat) list \<Rightarrow> bool + nat" where
  "walkScan s c [] = Inl False"
| "walkScan s c ((l, k) # cs) =
    (if l = prefixLabel then Inl True
     else if l = rootLabel \<and> c = dotByte \<and> leaf s k then Inl True
     else if l = c then Inr k
     else walkScan s c cs)"

fun walk :: "succinctBits \<Rightarrow> bytes \<Rightarrow> nat \<Rightarrow> bool" where
  "walk s [] n = (leaf s n \<or> (\<exists>(l, k) \<in> set (children s n). l = prefixLabel \<or> l = rootLabel))"
| "walk s (c # key) n = (case walkScan s c (children s n) of Inl r \<Rightarrow> r | Inr k \<Rightarrow> walk s key k)"

lemma ones_take_Suc: "p < length bs \<Longrightarrow> ones (take (p + 1) bs) = ones (take p bs) + (if bs ! p then 1 else 0)"
  by (simp add: take_Suc_conv_app_nth)

lemma zeros_mono: "a \<le> b \<Longrightarrow> ones (take b bs) \<le> ones (take a bs) + (b - a)"
proof -
  assume "a \<le> b"
  then have "take b bs = take a bs @ take (b - a) (drop a bs)" by (metis le_add_diff_inverse take_add)
  then show ?thesis using ones_le [of "take (b - a) (drop a bs)"] by simp
qed

lemma childrenFrom_one:
  assumes "p < length (lbits s)" "lbits s ! p" "ones (take p (lbits s)) = n"
  shows "childrenFrom s n p = []"
proof -
  have "\<not> (\<not> lbits s ! q \<and> ones (take q (lbits s)) = n)" if "p \<le> q" for q
  proof (cases "q = p")
    case False
    then have "ones (take (p + 1) (lbits s)) \<le> ones (take q (lbits s))" using that by (intro ones_take_mono) simp
    then show ?thesis using ones_take_Suc [OF assms(1)] assms(2,3) by simp
  qed (use assms in simp)
  then show ?thesis by (simp add: childrenFrom_def filter_empty_conv)
qed

lemma childrenFrom_zero:
  assumes "p < length (lbits s)" "\<not> lbits s ! p" "ones (take p (lbits s)) = n"
  shows "childrenFrom s n p = childAt s n p # childrenFrom s n (p + 1)"
  using assms upt_conv_Cons [of p "length (lbits s)"] unfolding childrenFrom_def by (simp del: length_bitsOf)

text \<open>Where the edges of a node begin.\<close>

definition starts :: "succinctBits \<Rightarrow> nat \<Rightarrow> nat \<Rightarrow> bool" where
  "starts s n p = (ones (take p (lbits s)) = n \<and> (p = 0 \<or> (p - 1 < length (lbits s) \<and> lbits s ! (p - 1))))"

lemma starts_children:
  assumes "starts s n p" "p \<le> length (lbits s)"
  shows "childrenFrom s n p = children s n"
proof -
  let ?P = "\<lambda>q. \<not> lbits s ! q \<and> ones (take q (lbits s)) = n"
  have "\<not> ?P q" if "q < p" for q
  proof (cases "q = p - 1")
    case False
    then have p: "lbits s ! (p - 1)" "p - 1 < length (lbits s)" "q \<le> p - 1" using assms that unfolding starts_def by auto
    have "ones (take q (lbits s)) \<le> ones (take (p - 1) (lbits s))" using p(3) by (rule ones_take_mono)
    then show ?thesis using ones_take_Suc [OF p(2)] p(1) assms(1) that by (simp add: starts_def)
  qed (use assms that in \<open>auto simp: starts_def\<close>)
  moreover have "[0..<length (lbits s)] = [0..<p] @ [p..<length (lbits s)]"
    using assms(2) by (metis le_add_diff_inverse upt_add_eq_append zero_le)
  ultimately show ?thesis unfolding childrenFrom_def by (simp add: filter_empty_conv del: length_bitsOf)
qed

lemma shaped_edge:
  assumes "shaped s" "ones (take p (lbits s)) = n" "n \<le> length (sb_labels s)"
  shows "p \<le> 2 * length (sb_labels s)" "p < length (lbits s)" "n \<le> p"
    "\<not> lbits s ! p \<Longrightarrow> p - n < length (sb_labels s)" "\<not> lbits s ! p \<Longrightarrow> p + 1 \<le> 2 * length (sb_labels s)"
proof -
  let ?B = "lbits s" and ?Z = "length (sb_labels s)"
  have sh: "ones ?B = ?Z + 1" "2 * ?Z < length ?B" "?B ! (2 * ?Z)" "ones (take (2 * ?Z + 1) ?B) = ones ?B"
    using assms(1) by (auto simp: shaped_def)
  show le: "p \<le> 2 * ?Z"
  proof (rule ccontr)
    assume "\<not> ?thesis"
    then have "2 * ?Z + 1 \<le> p" by simp
    then have "ones (take (2 * ?Z + 1) ?B) \<le> ones (take p ?B)" by (rule ones_take_mono)
    then show False using sh assms(2,3) by simp
  qed
  then show "p < length ?B" using sh by simp
  show np: "n \<le> p" using assms(2) ones_le [of "take p ?B"] by simp
  assume z: "\<not> ?B ! p"
  then have "p \<noteq> 2 * ?Z" using sh(3) by auto
  then show p1: "p + 1 \<le> 2 * ?Z" using le by simp
  have "ones (take (2 * ?Z + 1) ?B) \<le> ones (take (p + 1) ?B) + (2 * ?Z + 1 - (p + 1))" by (rule zeros_mono) (use p1 in simp)
  moreover have "ones (take (p + 1) ?B) = n" using ones_take_Suc [of p ?B] z assms(2) le sh(2) by simp
  ultimately show "p - n < ?Z" using sh(1,4) np p1 by linarith
qed

lemma getBit_nat: "p < 64 * length ws \<Longrightarrow> getBit ws (int p) = Some (bit (ws ! (p div 64)) (p mod 64))"
proof -
  assume p: "p < 64 * length ws"
  have d: "int p div 64 = int (p div 64)" "nat (int p mod 64) = p mod 64" by (simp_all add: zdiv_int nat_mod_distrib)
  show ?thesis unfolding getBit_def idx_def d using p by (simp add: less_mult_imp_div_less mult.commute)
qed

lemma getBit_labels: "p < length (lbits s) \<Longrightarrow> getBit (sb_labelBitmap s) (int p) = Some (lbits s ! p)"
  by (simp add: getBit_nat nth_bitsOf)

lemma getBit_leaves: "shaped s \<Longrightarrow> k \<le> length (sb_labels s) \<Longrightarrow> getBit (sb_leaves s) (int k) = Some (leaf s k)"
  unfolding leaf_def by (rule getBit_nat) (auto simp: shaped_def)

lemma countZeros_edge:
  assumes "shaped s" "ones (take p (lbits s)) = n" "n \<le> length (sb_labels s)" "\<not> lbits s ! p"
  shows "countZeros s (int p + 1) = Some (int (p - n + 1))"
proof -
  note e = shaped_edge [OF assms(1-3)]
  have "sb_rank s (int (p + 1)) = Some (int (ones (take (p + 1) (lbits s))))"
    using assms(1) e(2) by (intro rank_correct) (auto simp: shaped_def)
  then show ?thesis using ones_take_Suc [OF e(2)] assms(2,4) e(3) by (simp add: countZeros_def add.commute)
qed


section \<open>The walk over the bits follows the trie\<close>

lemma singScan_walk:
  assumes "shaped s" "ones (take p (lbits s)) = n" "n \<le> length (sb_labels s)"
  shows "case walkScan s c (childrenFrom s n p) of
           Inl r \<Rightarrow> singScan s c (int n) (int p) = Some (Inl r)
         | Inr k \<Rightarrow> (\<exists>q. singScan s c (int n) (int p) = Some (Inr (int q)) \<and> countZeros s (int q + 1) = Some (int k) \<and>
                      1 \<le> k \<and> k \<le> length (sb_labels s))"
  using assms(2)
proof (induction "2 * length (sb_labels s) - p" arbitrary: p rule: less_induct)
  case less
  note e = shaped_edge [OF assms(1) less.prems assms(3)]
  note g = getBit_labels [OF e(2)]
  show ?case
  proof (cases "lbits s ! p")
    case True
    then show ?thesis using g childrenFrom_one [OF e(2) True less.prems] by (simp add: singScan.simps)
  next
    case False
    let ?l = "sb_labels s ! (p - n)" and ?k = "p - n + 1"
    have cs: "childrenFrom s n p = (?l, ?k) # childrenFrom s n (p + 1)"
      using childrenFrom_zero [OF e(2) False less.prems] by (simp add: childAt_def)
    have ix: "idx (sb_labels s) (int p - int n) = Some ?l" using e(3) e(4) [OF False] by (simp add: idx_def nat_diff_distrib)
    note z = countZeros_edge [OF assms(1) less.prems assms(3) False]
    have lf: "getBit (sb_leaves s) (int ?k) = Some (leaf s ?k)" by (rule getBit_leaves [OF assms(1)]) (use e(4) [OF False] in simp)
    have nxt: "ones (take (p + 1) (lbits s)) = n" using ones_take_Suc [OF e(2)] False less.prems by simp
    have step: "singScan s c (int n) (int p) =
        (if ?l = prefixLabel then Some (Inl True)
         else if ?l = rootLabel \<and> c = dotByte \<and> leaf s ?k then Some (Inl True)
         else if ?l = c then Some (Inr (int p)) else singScan s c (int n) (int (p + 1)))"
      using g False ix z lf by (subst singScan.simps) (auto simp: add.commute)
    have IH: "case walkScan s c (childrenFrom s n (p + 1)) of
           Inl r \<Rightarrow> singScan s c (int n) (int (p + 1)) = Some (Inl r)
         | Inr k \<Rightarrow> (\<exists>q. singScan s c (int n) (int (p + 1)) = Some (Inr (int q)) \<and> countZeros s (int q + 1) = Some (int k) \<and>
                      1 \<le> k \<and> k \<le> length (sb_labels s))"
      by (rule less.hyps) (use e(5) [OF False] nxt in auto)
    show ?thesis
    proof (cases "?l = prefixLabel \<or> (?l = rootLabel \<and> c = dotByte \<and> leaf s ?k) \<or> ?l \<noteq> c")
      case True
      then show ?thesis using IH unfolding cs step by (auto split: sum.splits)
    next
      case ne: False
      then have "walkScan s c (childrenFrom s n p) = Inr ?k" "singScan s c (int n) (int p) = Some (Inr (int p))"
        unfolding cs step by auto
      then show ?thesis using z e(4) [OF False] by auto
    qed
  qed
qed

lemma singEnd_walk:
  assumes "shaped s" "ones (take p (lbits s)) = n" "n \<le> length (sb_labels s)"
  shows "singEnd s (int n) (int p) = Some (\<exists>(l, k) \<in> set (childrenFrom s n p). l = prefixLabel \<or> l = rootLabel)"
  using assms(2)
proof (induction "2 * length (sb_labels s) - p" arbitrary: p rule: less_induct)
  case less
  note e = shaped_edge [OF assms(1) less.prems assms(3)]
  note g = getBit_labels [OF e(2)]
  show ?case
  proof (cases "lbits s ! p")
    case True
    then show ?thesis using g childrenFrom_one [OF e(2) True less.prems] by (simp add: singEnd.simps)
  next
    case False
    have ix: "idx (sb_labels s) (int p - int n) = Some (sb_labels s ! (p - n))"
      using e(3) e(4) [OF False] by (simp add: idx_def nat_diff_distrib)
    have nxt: "ones (take (p + 1) (lbits s)) = n" using ones_take_Suc [OF e(2)] False less.prems by simp
    have "singEnd s (int n) (int (p + 1)) = Some (\<exists>(l, k) \<in> set (childrenFrom s n (p + 1)). l = prefixLabel \<or> l = rootLabel)"
      by (rule less.hyps) (use e(5) [OF False] nxt in auto)
    then show ?thesis using g False ix childrenFrom_zero [OF e(2) False less.prems]
      by (subst singEnd.simps) (auto simp: childAt_def add.commute)
  qed
qed

lemma sing_has_walk:
  assumes "shaped s"
  shows "starts s n p \<Longrightarrow> n \<le> length (sb_labels s) \<Longrightarrow> sing_has s key (int n) (int p) = Some (walk s key n)"
proof (induction key arbitrary: n p)
  case Nil
  have o1: "ones (take p (lbits s)) = n" using Nil by (simp add: starts_def)
  have "childrenFrom s n p = children s n" using shaped_edge(2) [OF assms o1 Nil(2)] Nil(1) by (intro starts_children) simp_all
  then show ?case using getBit_leaves [OF assms Nil(2)] singEnd_walk [OF assms o1 Nil(2)] by (simp split: bool.split)
next
  case (Cons c key)
  have o1: "ones (take p (lbits s)) = n" using Cons by (simp add: starts_def)
  have ch: "childrenFrom s n p = children s n" using shaped_edge(2) [OF assms o1 Cons(3)] Cons(2) by (intro starts_children) simp_all
  note sc = singScan_walk [OF assms o1 Cons(3), of c, unfolded ch]
  show ?case
  proof (cases "walkScan s c (children s n)")
    case (Inl r)
    then show ?thesis using sc by simp
  next
    case (Inr k)
    then obtain q where q: "singScan s c (int n) (int p) = Some (Inr (int q))" "countZeros s (int q + 1) = Some (int k)"
      and k: "1 \<le> k" "k \<le> length (sb_labels s)" using sc by auto
    have "k - 1 < ones (lbits s)" using k assms by (simp add: shaped_def)
    then obtain m where m: "m < length (lbits s)" "selectIthOne s (int (k - 1)) = Some (int m)" "lbits s ! m" "ones (take m (lbits s)) = k - 1"
      using select_correct assms unfolding shaped_def by blast
    have "starts s k (m + 1)" using m k(1) ones_take_Suc [OF m(1)] by (simp add: starts_def)
    then have "sing_has s key (int k) (int (m + 1)) = Some (walk s key k)" using k(2) by (rule Cons.IH)
    moreover have "selectIthOne s (int k - 1) = Some (int m)" using m(2) k(1) by (simp add: of_nat_diff)
    ultimately show ?thesis using q Inr by (simp add: add.commute)
  qed
qed


section \<open>What the trie means\<close>

text \<open>The keys of the set: the paths from the root to a leaf.\<close>

fun descend :: "succinctBits \<Rightarrow> nat \<Rightarrow> bytes \<Rightarrow> nat option" where
  "descend s n [] = Some n"
| "descend s n (c # w) = (case map_of (children s n) c of None \<Rightarrow> None | Some k \<Rightarrow> descend s k w)"

definition keyFrom :: "succinctBits \<Rightarrow> nat \<Rightarrow> bytes \<Rightarrow> bool" where
  "keyFrom s n w = (case descend s n w of None \<Rightarrow> False | Some m \<Rightarrow> leaf s m)"

text \<open>
  What a key of the set covers (on reversed names): a plain key itself, a key ending in the prefix
  label every name it is the beginning of, a key ending in the root label the name itself and the names below it.
\<close>

definition covers :: "bytes \<Rightarrow> bytes \<Rightarrow> bool" where
  "covers w key =
    (w = key \<or> (\<exists>u v. w = u @ [prefixLabel] \<and> key = u @ v) \<or>
     (\<exists>u. w = u @ [rootLabel] \<and> (key = u \<or> (\<exists>v. key = u @ [dotByte] @ v))))"

text \<open>The order the writers of such files keep: edges sorted by label, and the two marks end a key.\<close>

definition ordered :: "succinctBits \<Rightarrow> bool" where
  "ordered s = list_all (\<lambda>n. sorted_wrt (<) (map fst (children s n)) \<and>
     list_all (\<lambda>(l, k). l = prefixLabel \<or> l = rootLabel \<longrightarrow> leaf s k) (children s n)) [0..<length (sb_labels s) + 1]"

definition plainByte :: "u8 \<Rightarrow> bool" where
  "plainByte c = (13 < unat c \<and> unat c < 128)"

lemma covers_Nil: "covers w [] \<longleftrightarrow> w = [] \<or> w = [prefixLabel] \<or> w = [rootLabel]"
  by (auto simp: covers_def)

lemma covers_Cons:
  "covers w (c # key) \<longleftrightarrow>
    w = [prefixLabel] \<or> (w = [rootLabel] \<and> c = dotByte) \<or> (\<exists>w'. w = c # w' \<and> covers w' key)"
    (is "_ \<longleftrightarrow> ?r")
proof
  assume "covers w (c # key)"
  then consider "w = c # key" | u v where "w = u @ [prefixLabel]" "c # key = u @ v"
    | u where "w = u @ [rootLabel]" "c # key = u" | u v where "w = u @ [rootLabel]" "c # key = u @ [dotByte] @ v"
    unfolding covers_def by blast
  then show ?r
  proof cases
    case 2
    then show ?thesis by (cases u) (auto simp: covers_def)
  next
    case 4
    then show ?thesis by (cases u) (auto simp: covers_def)
  qed (auto simp: covers_def)
next
  assume ?r
  then consider "w = [prefixLabel]" | "w = [rootLabel]" "c = dotByte" | w' where "w = c # w'" "covers w' key" by blast
  then show "covers w (c # key)"
  proof cases
    case 3
    then show ?thesis unfolding covers_def by (metis append_Cons)
  qed (auto simp: covers_def)
qed

lemma walkScan_ordered:
  assumes "plainByte c"
  shows "sorted_wrt (<) (map fst cs) \<Longrightarrow>
    walkScan s c cs =
      (if (\<exists>k. (prefixLabel, k) \<in> set cs) \<or> (c = dotByte \<and> (\<exists>k. (rootLabel, k) \<in> set cs \<and> leaf s k)) then Inl True
       else case map_of cs c of None \<Rightarrow> Inl False | Some k \<Rightarrow> Inr k)"
proof (induction cs)
  case (Cons x cs)
  obtain l k where x: "x = (l, k)" by (cases x)
  have gt: "l' > l" if "(l', k') \<in> set cs" for l' k' using Cons.prems that x by (force simp: image_iff)
  have c: "c > 13" using assms by (simp add: plainByte_def word_less_nat_alt)
  have IH: "walkScan s c cs = (if (\<exists>k. (prefixLabel, k) \<in> set cs) \<or> (c = dotByte \<and> (\<exists>k. (rootLabel, k) \<in> set cs \<and> leaf s k)) then Inl True
       else case map_of cs c of None \<Rightarrow> Inl False | Some k \<Rightarrow> Inr k)" using Cons by simp
  show ?case
  proof (cases "l = c")
    case True
    then have "(prefixLabel, k') \<notin> set cs" "(rootLabel, k') \<notin> set cs" for k'
      using gt [of 13 k'] gt [of 10 k'] c by (auto dest: order.asym simp: word_less_nat_alt)
    then show ?thesis using True x c by auto
  next
    case False
    then show ?thesis using IH x by auto
  qed
qed simp


lemma child_bound:
  assumes "shaped s" "n \<le> length (sb_labels s)" "(l, k) \<in> set (children s n)"
  shows "k \<le> length (sb_labels s)"
proof -
  obtain q where "\<not> lbits s ! q" "ones (take q (lbits s)) = n" "k = q - n + 1"
    using assms(3) by (auto simp: childrenFrom_def childAt_def)
  then show ?thesis using shaped_edge(4) [OF assms(1) _ assms(2), of q] by simp
qed

lemma keyFrom_simps [simp]:
  "keyFrom s n [] = leaf s n"
  "keyFrom s n (c # w) = (case map_of (children s n) c of None \<Rightarrow> False | Some k \<Rightarrow> keyFrom s k w)"
  by (auto simp: keyFrom_def split: option.split)

lemma orderedD:
  assumes "ordered s" "n \<le> length (sb_labels s)"
  shows "sorted_wrt (<) (map fst (children s n))"
    "(l, k) \<in> set (children s n) \<Longrightarrow> l = prefixLabel \<or> l = rootLabel \<Longrightarrow> leaf s k"
proof -
  have "n \<in> set [0..<length (sb_labels s) + 1]" using assms(2) by auto
  then have "sorted_wrt (<) (map fst (children s n)) \<and> list_all (\<lambda>(l, k). l = prefixLabel \<or> l = rootLabel \<longrightarrow> leaf s k) (children s n)"
    using assms(1) unfolding ordered_def list_all_iff [of _ "[0..<length (sb_labels s) + 1]"] by blast
  then show "sorted_wrt (<) (map fst (children s n))"
    "(l, k) \<in> set (children s n) \<Longrightarrow> l = prefixLabel \<or> l = rootLabel \<Longrightarrow> leaf s k" by (auto simp: list_all_iff)
qed

lemma keyFrom_mark:
  assumes "ordered s" "n \<le> length (sb_labels s)" "l = prefixLabel \<or> l = rootLabel"
  shows "keyFrom s n [l] \<longleftrightarrow> (\<exists>k. (l, k) \<in> set (children s n))"
  using orderedD(2) [OF assms(1,2) _ assms(3)]
  by (auto dest: map_of_SomeD simp: map_of_eq_None_iff image_iff split: option.split)

lemma walk_means:
  assumes "shaped s" "ordered s"
  shows "list_all plainByte key \<Longrightarrow> n \<le> length (sb_labels s) \<Longrightarrow> walk s key n = (\<exists>w. keyFrom s n w \<and> covers w key)"
proof (induction key arbitrary: n)
  case Nil
  have "(\<exists>w. keyFrom s n w \<and> covers w []) \<longleftrightarrow> leaf s n \<or> keyFrom s n [prefixLabel] \<or> keyFrom s n [rootLabel]"
    unfolding covers_Nil by (metis keyFrom_simps(1))
  then show ?case unfolding keyFrom_mark [OF assms(2) Nil(2) disjI1 [OF refl]] keyFrom_mark [OF assms(2) Nil(2) disjI2 [OF refl]]
    by auto
next
  case (Cons c key)
  let ?cs = "children s n"
  have c: "plainByte c" and ks: "list_all plainByte key" using Cons.prems(1) by auto
  have m: "keyFrom s n [prefixLabel] \<longleftrightarrow> (\<exists>k. (prefixLabel, k) \<in> set ?cs)" "keyFrom s n [rootLabel] \<longleftrightarrow> (\<exists>k. (rootLabel, k) \<in> set ?cs \<and> leaf s k)"
    using keyFrom_mark [OF assms(2) Cons.prems(2)] orderedD(2) [OF assms(2) Cons.prems(2)] by blast+
  have "(\<exists>w. keyFrom s n w \<and> covers w (c # key)) \<longleftrightarrow>
      keyFrom s n [prefixLabel] \<or> (keyFrom s n [rootLabel] \<and> c = dotByte) \<or> (\<exists>w. keyFrom s n (c # w) \<and> covers w key)"
    unfolding covers_Cons by blast
  moreover have "(\<exists>w. keyFrom s n (c # w) \<and> covers w key) \<longleftrightarrow>
      (case map_of ?cs c of None \<Rightarrow> False | Some k \<Rightarrow> walk s key k)"
    using Cons.IH [OF ks] child_bound [OF assms(1) Cons.prems(2)] by (auto dest: map_of_SomeD split: option.split)
  ultimately show ?case unfolding walk.simps walkScan_ordered [OF c orderedD(1) [OF assms(2) Cons.prems(2)]] m
    by (auto split: option.split)
qed

lemma decode_plain: "plainByte c \<Longrightarrow> decodeRune (c # cs) = (unat c, 1) \<and> encodeRune (unat c) = [c]"
  by (auto simp: plainByte_def Let_def encodeRune_def)

lemma reverseLoop_plain:
  "list_all plainByte d \<Longrightarrow> i \<le> length d \<Longrightarrow> b = replicate (length d - i) 0 @ rev (take i d) \<Longrightarrow> reverseLoop d i b = Some (rev d)"
proof (induction "length d - i" arbitrary: i b)
  case 0
  then show ?case by (simp add: reverseLoop.simps)
next
  case (Suc k)
  then have i: "i < length d" by simp
  have p: "plainByte (d ! i)" using Suc.prems(1) i by (simp add: list_all_length)
  have d: "drop i d = d ! i # drop (i + 1) d" using i by (simp add: Cons_nth_drop_Suc)
  note e = decode_plain [OF p, of "drop (i + 1) d"]
  let ?b = "take (length d - (i + 1)) b @ [d ! i] @ drop (length d - (i + 1) + 1) b"
  have b: "?b = replicate (length d - (i + 1)) 0 @ rev (take (i + 1) d)"
    using Suc.prems(3) i by (simp add: take_Suc_conv_app_nth Suc_diff_Suc)
  have "reverseLoop d i b = reverseLoop d (i + 1) ?b"
    using i e Suc.prems(3) unfolding reverseLoop.simps [of d i] d by simp
  also have "\<dots> = Some (rev d)" by (rule Suc.hyps(1)) (use Suc i b in auto)
  finally show ?case .
qed

lemma reverseDomain_plain: "list_all plainByte d \<Longrightarrow> reverseDomain d = Some (rev d)"
  unfolding reverseDomain_def by (rule reverseLoop_plain) simp_all

lemma has_shaped: "shaped s \<Longrightarrow> sing_has s key 0 0 = Some (walk s key 0)"
  using sing_has_walk [of s 0 0 key] by (simp add: starts_def)

text \<open>
  C36: On every compressed domain set that passes the reader's check, the walk over the bits never
  leaves its slices and returns what the walk over the nodes and labels of the trie returns. When the
  edges of every node are in the order the writers of such files keep, a domain of plain ASCII bytes
  matches exactly when one of the set's keys covers its reversal.
\<close>

theorem sing_domain_set:
  assumes "singCheck leaves labelBitmap labels = Some s" "fits labelBitmap"
  shows "sing_has s key 0 0 = Some (walk s key 0) \<and>
    (ordered s \<and> list_all plainByte (bytes_of_string domain) \<longrightarrow>
     sing_MatchDomain s domain = Some (\<exists>w. keyFrom s 0 w \<and> covers w (rev (bytes_of_string domain))))"
proof -
  have s: "shaped s" using singCheck_shaped(1) [OF assms] .
  then show ?thesis using reverseDomain_plain [of "bytes_of_string domain"] walk_means [OF s, of "rev (bytes_of_string domain)" 0] has_shaped [OF s]
    by (auto simp: sing_MatchDomain_def)
qed

text \<open>The names \<open>a\<close> and everything below: one key, \<open>a\<close> and the root label.\<close>

definition smallSet :: succinctBits where
  "smallSet = newSuccinctBits [4] [26] [97, 10]"

lemma upt64: "[0..<64] = [0,1,2,3,4,5,6,7,8,9,10,11,12,13,14,15,16,17,18,19,20,21,22,23,24,25,26,27,28,29,30,31,32,33,34,35,36,37,38,39,40,41,42,43,44,45,46,47,48,49,50,51,52,53,54,55,56,57,58,59,60,61,62,63]"
  by (simp add: upt_rec)

lemma smallSet_lbits: "lbits smallSet = [False, True, False, True, True] @ replicate 59 False"
  unfolding smallSet_def newSuccinctBits_def bitsOf_def upt64 by (simp add: numeral_eq_Suc)

lemma smallSet_check: "singCheck [4] [26] [97, 10] = Some smallSet"
  unfolding singCheck_def smallSet_def by (simp add: onesCount64_def leadingZeros64_def upt64)

lemma smallSet_children: "children smallSet 0 = [(97, 1)]" "children smallSet 1 = [(10, 2)]" "children smallSet 2 = []"
proof -
  note b = smallSet_lbits
  have "childrenFrom smallSet 0 1 = []" by (rule childrenFrom_one) (simp_all add: b del: length_bitsOf)
  then show "children smallSet 0 = [(97, 1)]"
    using childrenFrom_zero [of 0 smallSet 0] by (simp add: b childAt_def smallSet_def newSuccinctBits_def del: length_bitsOf)
  have "starts smallSet 1 2" "starts smallSet 2 4" by (simp_all add: starts_def b numeral_eq_Suc del: length_bitsOf)
  then have "childrenFrom smallSet 1 2 = children smallSet 1" "childrenFrom smallSet 2 4 = children smallSet 2"
    by (auto intro!: starts_children simp: b simp del: length_bitsOf)
  moreover have "childrenFrom smallSet 1 3 = []" "childrenFrom smallSet 2 4 = []"
    by (rule childrenFrom_one; simp add: b numeral_eq_Suc del: length_bitsOf)+
  moreover have "childrenFrom smallSet 1 2 = childAt smallSet 1 2 # childrenFrom smallSet 1 (2 + 1)"
    by (rule childrenFrom_zero) (simp_all add: b numeral_eq_Suc del: length_bitsOf)
  ultimately show "children smallSet 1 = [(10, 2)]" "children smallSet 2 = []"
    by (simp_all add: childAt_def smallSet_def newSuccinctBits_def)
qed

lemma smallSet_ordered: "ordered smallSet"
proof -
  have "[0..<length (sb_labels smallSet) + 1] = [0, 1, 2]" "leaf smallSet 2"
    by (simp_all add: smallSet_def newSuccinctBits_def leaf_def upt_rec)
  then show ?thesis unfolding ordered_def by (simp only: list.pred_inject smallSet_children) simp
qed

theorem sing_domain_set_witness:
  "sing_MatchDomain smallSet ''x.a'' = Some True"
proof -
  have p: "list_all plainByte (bytes_of_string ''x.a'')" by (simp add: plainByte_def bytes_of_string_def byte_of_char_def)
  have "fits [26]" by (simp add: fits_def)
  then have "sing_MatchDomain smallSet ''x.a'' = Some (\<exists>w. keyFrom smallSet 0 w \<and> covers w (rev (bytes_of_string ''x.a'')))"
    using sing_domain_set [OF smallSet_check, of "[]" "''x.a''"] smallSet_ordered p by blast
  moreover have "\<exists>w. keyFrom smallSet 0 w \<and> covers w (rev (bytes_of_string ''x.a''))"
  proof (intro exI conjI)
    show "keyFrom smallSet 0 [97, 10]" using smallSet_children by (simp add: smallSet_def newSuccinctBits_def leaf_def)
    show "covers [97, 10] (rev (bytes_of_string ''x.a''))" by (simp add: covers_def bytes_of_string_def byte_of_char_def)
  qed
  ultimately show ?thesis by (simp only: simp_thms)
qed

end
