(* ===== verification/Srs.thy ===== *)
theory Srs
  imports IpRanges SingSet
begin

text \<open>
  Binary rule sets of the \<open>.srs\<close> format (\<open>ruleset/srs.go\<close>): the container, the items of a rule, logical rules
  flattened, and the address and domain matchers built from them.  The decompressor and the
  regular-expression compiler are arguments.
\<close>

unbundle bit_operations_syntax

section \<open>Varints\<close>

datatype srsErr =
  SrsMagic | SrsZlib | SrsIO ioErr | SrsOverflow | SrsDepth | SrsType u8 | SrsItem u8 | SrsCorrupt
| SrsVersion u8 | SrsLen u64 | SrsRule nat srsErr | SrsNothing

definition srio :: "(ioErr, 'a) result \<Rightarrow> (srsErr, 'a) result" where
  "srio x = (case x of Inl e \<Rightarrow> Inl (SrsIO e) | Inr a \<Rightarrow> Inr a)"

lemma srio_simps [simp]: "srio (Inl e) = Inl (SrsIO e)" "srio (Inr a) = Inr a"
  by (simp_all add: srio_def)

fun readByte :: "bytes \<Rightarrow> (srsErr, u8 \<times> bytes) result" where
  "readByte [] = Inl (SrsIO EOF)"
| "readByte (b # r) = Inr (b, r)"

text \<open>\<open>binary.ReadUvarint\<close>: at most ten bytes, the last one at most 1.\<close>

fun uvarintLoop :: "nat \<Rightarrow> u64 \<Rightarrow> bytes \<Rightarrow> (srsErr, u64 \<times> bytes) result" where
  "uvarintLoop i x [] =
    (if i \<ge> 10 then Inl SrsOverflow else Inl (SrsIO (if i > 0 then UnexpectedEOF else EOF)))"
| "uvarintLoop i x (b # r) =
    (if i \<ge> 10 then Inl SrsOverflow
     else if b < 128 then
       (if i = 9 \<and> b > 1 then Inl SrsOverflow else Inr (x OR push_bit (7 * i) (ucast b), r))
     else uvarintLoop (i + 1) (x OR push_bit (7 * i) (ucast (b AND 127))) r)"

definition readUvarint :: "bytes \<Rightarrow> (srsErr, u64 \<times> bytes) result" where
  "readUvarint r = uvarintLoop 0 0 r"

section \<open>Slices\<close>

definition readUvarU64Slice :: "bytes \<Rightarrow> (srsErr, u64 list \<times> bytes) result" where
  "readUvarU64Slice r =
    res_bind (readUvarint r) (\<lambda>(n, r).
      if n > 2 ^ 28 then Inl (SrsLen n)
      else if n > 0 then res_bind (srio (readFull (8 * unat n) r)) (\<lambda>(b, r). Inr (readU64s (unat n) b, r))
      else Inr ([], r))"

definition readUvarByteSlice :: "bytes \<Rightarrow> (srsErr, bytes \<times> bytes) result" where
  "readUvarByteSlice r =
    res_bind (readUvarint r) (\<lambda>(n, r). if n > 2 ^ 34 then Inl (SrsLen n) else srio (readFull (unat n) r))"

fun readStrings :: "nat \<Rightarrow> bytes \<Rightarrow> (srsErr, string list \<times> bytes) result" where
  "readStrings 0 r = Inr ([], r)"
| "readStrings (Suc n) r =
    res_bind (readUvarByteSlice r) (\<lambda>(b, r).
      res_bind (readStrings n r) (\<lambda>(ss, r). Inr (string_of_bytes b # ss, r)))"

definition readItemStrings :: "bytes \<Rightarrow> (srsErr, string list \<times> bytes) result" where
  "readItemStrings r =
    res_bind (readUvarint r) (\<lambda>(n, r). if n > 2 ^ 24 then Inl (SrsLen n) else readStrings (unat n) r)"

text \<open>
  \<open>io.CopyN\<close> to \<open>io.Discard\<close>: a negative count copies nothing and reports no error, a count beyond the end is
  an end of file.
\<close>

definition copyNDiscard :: "u64 \<Rightarrow> bytes \<Rightarrow> (srsErr, bytes) result" where
  "copyNDiscard n r = (if sint n \<le> int (length r) then Inr (drop (nat (sint n)) r) else Inl (SrsIO EOF))"

definition skipUint16Slice :: "bytes \<Rightarrow> (srsErr, bytes) result" where
  "skipUint16Slice r = res_bind (readUvarint r) (\<lambda>(n, r). copyNDiscard (n * 2) r)"

definition skipUint8Slice :: "bytes \<Rightarrow> (srsErr, bytes) result" where
  "skipUint8Slice r = res_bind (readUvarint r) (\<lambda>(n, r). copyNDiscard n r)"

section \<open>Address ranges\<close>

definition readSRSAddr :: "bytes \<Rightarrow> (srsErr, Addr \<times> bytes) result" where
  "readSRSAddr r =
    res_bind (readUvarint r) (\<lambda>(n, r).
      if n \<noteq> 4 \<and> n \<noteq> 16 then Inl (SrsLen n)
      else res_bind (srio (readFull (unat n) r)) (\<lambda>(b, r). Inr (if n = 4 then AddrFrom4 b else AddrFrom16 b, r)))"

type_synonym ipAddrRangeSet = "(Addr \<times> Addr) list"

fun readSRSRanges :: "nat \<Rightarrow> bytes \<Rightarrow> (srsErr, ipAddrRangeSet \<times> bytes) result" where
  "readSRSRanges 0 r = Inr ([], r)"
| "readSRSRanges (Suc n) r =
    res_bind (readSRSAddr r) (\<lambda>(from, r).
      res_bind (readSRSAddr r) (\<lambda>(to, r).
        res_bind (readSRSRanges n r) (\<lambda>(rr, r). Inr ((Unmap from, Unmap to) # rr, r))))"

definition readSRSIPSet :: "bytes \<Rightarrow> (srsErr, ipAddrRangeSet \<times> bytes) result" where
  "readSRSIPSet r =
    res_bind (readByte r) (\<lambda>(ver, r).
      if ver \<noteq> 1 then Inl (SrsVersion ver)
      else
        res_bind (srio (readFull 8 r)) (\<lambda>(b, r).
          let n = get64 b in
          if n > 2 ^ 28 then Inl (SrsLen n)
          else res_bind (readSRSRanges (unat n) r) (\<lambda>(rr, r). Inr (sort_key fst rr, r))))"

definition srs_MatchIP :: "ipAddrRangeSet \<Rightarrow> Addr \<Rightarrow> bool" where
  "srs_MatchIP rr ip = inRanges rr (Unmap ip)"

section \<open>The compressed domain set\<close>

definition readSingSuccinct :: "bytes \<Rightarrow> (srsErr, succinctBits \<times> bytes) result" where
  "readSingSuccinct r =
    res_bind (readByte r) (\<lambda>(_, r).
      res_bind (readUvarU64Slice r) (\<lambda>(leaves, r).
        res_bind (readUvarU64Slice r) (\<lambda>(labelBitmap, r).
          res_bind (readUvarByteSlice r) (\<lambda>(labels, r).
            case singCheck leaves labelBitmap labels of None \<Rightarrow> Inl SrsCorrupt | Some s \<Rightarrow> Inr (s, r)))))"

section \<open>Rules\<close>

record srsAcc =
  acc_domains :: "succinctBits list"
  acc_keywords :: "string list"
  acc_regexes :: "(string \<Rightarrow> bool) list"
  acc_ips :: "ipAddrRangeSet list"

type_synonym compiler = "string \<Rightarrow> (string \<Rightarrow> bool) option"

abbreviation (input) "sItemQueryType \<equiv> (0 :: u8)"
abbreviation (input) "sItemNetwork \<equiv> (1 :: u8)"
abbreviation (input) "sItemDomain \<equiv> (2 :: u8)"
abbreviation (input) "sItemDomainKeyword \<equiv> (3 :: u8)"
abbreviation (input) "sItemDomainRegex \<equiv> (4 :: u8)"
abbreviation (input) "sItemSourceIPCIDR \<equiv> (5 :: u8)"
abbreviation (input) "sItemIPCIDR \<equiv> (6 :: u8)"
abbreviation (input) "sItemNetworkType \<equiv> (18 :: u8)"
abbreviation (input) "sItemFinal \<equiv> (255 :: u8)"

text \<open>
  The cases of the item switch: \<open>[]uint16\<close> (query type, source port, port), strings (network, the port
  ranges, process name and path, package name, the two WIFI names, the path and package
  expressions), and the two items without payload.
\<close>

definition uint16Items :: "u8 list" where
  "uint16Items = [sItemQueryType, 7, 9]"

definition stringItems :: "u8 list" where
  "stringItems = [sItemNetwork, 8, 10, 11, 12, 17, 13, 23, 14, 15]"

definition flagItems :: "u8 list" where
  "flagItems = [19, 20]"

text \<open>One turn of the item loop; the flag says whether the rule goes on.\<close>

definition readSRSItem :: "compiler \<Rightarrow> u8 \<Rightarrow> bytes \<Rightarrow> srsAcc \<Rightarrow> (srsErr, bool \<times> srsAcc \<times> bytes) result" where
  "readSRSItem compile itemType r acc =
    (if itemType = sItemDomain then
       res_bind (readSingSuccinct r) (\<lambda>(ds, r). Inr (True, acc \<lparr> acc_domains := acc_domains acc @ [ds] \<rparr>, r))
     else if itemType = sItemDomainKeyword then
       res_bind (readItemStrings r) (\<lambda>(ss, r). Inr (True, acc \<lparr> acc_keywords := acc_keywords acc @ ss \<rparr>, r))
     else if itemType = sItemDomainRegex then
       res_bind (readItemStrings r) (\<lambda>(ss, r).
         Inr (True, acc \<lparr> acc_regexes := acc_regexes acc @ List.map_filter compile ss \<rparr>, r))
     else if itemType = sItemIPCIDR \<or> itemType = sItemSourceIPCIDR then
       res_bind (readSRSIPSet r) (\<lambda>(set, r).
         Inr (True, (if itemType = sItemIPCIDR then acc \<lparr> acc_ips := acc_ips acc @ [set] \<rparr> else acc), r))
     else if itemType \<in> set uint16Items then res_bind (skipUint16Slice r) (\<lambda>r. Inr (True, acc, r))
     else if itemType = sItemNetworkType then res_bind (skipUint8Slice r) (\<lambda>r. Inr (True, acc, r))
     else if itemType \<in> set stringItems then res_bind (readItemStrings r) (\<lambda>(_, r). Inr (True, acc, r))
     else if itemType \<in> set flagItems then Inr (True, acc, r)
     else if itemType = sItemFinal then res_bind (readByte r) (\<lambda>(_, r). Inr (False, acc, r))
     else Inl (SrsItem itemType))"

text \<open>No reader gives back more than it was given.\<close>

named_theorems shrink

lemma uvarintLoop_shrink: "uvarintLoop i x r = Inr (n, r') \<Longrightarrow> length r' < length r"
  by (induction i x r rule: uvarintLoop.induct) (auto split: if_splits)

lemma readUvarint_shrink [shrink]: "readUvarint r = Inr (n, r') \<Longrightarrow> length r' \<le> length r"
  unfolding readUvarint_def by (drule uvarintLoop_shrink) simp

lemma srio_readFull_shrink [shrink]: "srio (readFull n r) = Inr (b, r') \<Longrightarrow> length r' \<le> length r"
  by (auto simp: readFull_def split: if_splits)

lemma readByte_shrink [shrink]: "readByte r = Inr (b, r') \<Longrightarrow> length r' \<le> length r"
  by (cases r) auto

lemma copyNDiscard_shrink [shrink]: "copyNDiscard n r = Inr r' \<Longrightarrow> length r' \<le> length r"
  by (auto simp: copyNDiscard_def split: if_splits)

lemma u64Slice_shrink [shrink]: "readUvarU64Slice r = Inr (b, r') \<Longrightarrow> length r' \<le> length r"
  unfolding readUvarU64Slice_def by (fastforce simp: res_bind_Inr_iff dest: shrink split: if_splits)

lemma byteSlice_shrink [shrink]: "readUvarByteSlice r = Inr (b, r') \<Longrightarrow> length r' \<le> length r"
  unfolding readUvarByteSlice_def by (fastforce simp: res_bind_Inr_iff dest: shrink split: if_splits)

lemma readStrings_shrink: "readStrings n r = Inr (ss, r') \<Longrightarrow> length r' \<le> length r"
  by (induction n arbitrary: r ss r') (fastforce simp: res_bind_Inr_iff dest: shrink)+

lemma itemStrings_shrink [shrink]: "readItemStrings r = Inr (b, r') \<Longrightarrow> length r' \<le> length r"
  unfolding readItemStrings_def by (fastforce simp: res_bind_Inr_iff dest: shrink readStrings_shrink split: if_splits)

lemma addr_shrink [shrink]: "readSRSAddr r = Inr (b, r') \<Longrightarrow> length r' \<le> length r"
  unfolding readSRSAddr_def by (fastforce simp: res_bind_Inr_iff dest: shrink split: if_splits)

lemma ranges_shrink: "readSRSRanges n r = Inr (ss, r') \<Longrightarrow> length r' \<le> length r"
  by (induction n arbitrary: r ss r') (fastforce simp: res_bind_Inr_iff dest: shrink)+

lemma ipSet_shrink [shrink]: "readSRSIPSet r = Inr (b, r') \<Longrightarrow> length r' \<le> length r"
  unfolding readSRSIPSet_def Let_def by (fastforce simp: res_bind_Inr_iff dest: shrink ranges_shrink split: if_splits)

lemma sing_shrink [shrink]: "readSingSuccinct r = Inr (b, r') \<Longrightarrow> length r' \<le> length r"
  unfolding readSingSuccinct_def by (fastforce simp: res_bind_Inr_iff dest: shrink split: option.splits)

lemma skips_shrink [shrink]:
  "skipUint16Slice r = Inr r' \<Longrightarrow> length r' \<le> length r" "skipUint8Slice r = Inr r' \<Longrightarrow> length r' \<le> length r"
  unfolding skipUint16Slice_def skipUint8Slice_def by (fastforce simp: res_bind_Inr_iff dest: shrink)+

lemma readSRSItem_shrink: "readSRSItem compile t r acc = Inr (go, acc', r') \<Longrightarrow> length r' \<le> length r"
  unfolding readSRSItem_def by (auto simp: res_bind_Inr_iff dest: shrink split: if_splits)

function readSRSDefault :: "compiler \<Rightarrow> bytes \<Rightarrow> srsAcc \<Rightarrow> (srsErr, srsAcc \<times> bytes) result" where
  "readSRSDefault compile r acc =
    (case readByte r of
       Inl e \<Rightarrow> Inl e
     | Inr (itemType, r) \<Rightarrow>
         (case readSRSItem compile itemType r acc of
            Inl e \<Rightarrow> Inl e
          | Inr (go, acc, r) \<Rightarrow> if go then readSRSDefault compile r acc else Inr (acc, r)))"
  by auto
termination
  apply (relation "measure (\<lambda>(compile, r, acc). length r)")
  subgoal by simp
  subgoal for compile r acc p t r1 q go q2 acc' r' by (cases r) (auto dest!: readSRSItem_shrink sym [of "Inr _"])
  done


declare readSRSDefault.simps [simp del]

text \<open>A counted loop of the readers.\<close>

primrec readTimes :: "(bytes \<Rightarrow> srsAcc \<Rightarrow> (srsErr, srsAcc \<times> bytes) result) \<Rightarrow> nat \<Rightarrow> bytes \<Rightarrow> srsAcc
    \<Rightarrow> (srsErr, srsAcc \<times> bytes) result" where
  "readTimes f 0 r acc = Inr (acc, r)"
| "readTimes f (Suc n) r acc = res_bind (f r acc) (\<lambda>(acc, r). readTimes f n r acc)"

definition readSRSLogical :: "(bytes \<Rightarrow> srsAcc \<Rightarrow> (srsErr, srsAcc \<times> bytes) result) \<Rightarrow> bytes \<Rightarrow> srsAcc
    \<Rightarrow> (srsErr, srsAcc \<times> bytes) result" where
  "readSRSLogical ruleBelow r acc =
    res_bind (readByte r) (\<lambda>(_, r).
      res_bind (readUvarint r) (\<lambda>(n, r).
        res_bind (readTimes ruleBelow (unat n) r acc) (\<lambda>(acc, r).
          res_bind (readByte r) (\<lambda>(_, r). Inr (acc, r)))))"

text \<open>The first number is how many levels are left: 101 less the depth of the source.\<close>

fun readSRSRule :: "compiler \<Rightarrow> nat \<Rightarrow> bytes \<Rightarrow> srsAcc \<Rightarrow> (srsErr, srsAcc \<times> bytes) result" where
  "readSRSRule compile 0 r acc = Inl SrsDepth"
| "readSRSRule compile (Suc levels) r acc =
    res_bind (readByte r) (\<lambda>(ruleType, r).
      if ruleType = 0 then readSRSDefault compile r acc
      else if ruleType = 1 then readSRSLogical (readSRSRule compile levels) r acc
      else Inl (SrsType ruleType))"

fun readSRSRules :: "compiler \<Rightarrow> nat \<Rightarrow> nat \<Rightarrow> bytes \<Rightarrow> srsAcc \<Rightarrow> (srsErr, srsAcc) result" where
  "readSRSRules compile i 0 r acc = Inr acc"
| "readSRSRules compile i (Suc n) r acc =
    (case readSRSRule compile 101 r acc of
       Inl e \<Rightarrow> Inl (SrsRule i e)
     | Inr (acc, r) \<Rightarrow> readSRSRules compile (i + 1) n r acc)"

definition srsAcc0 :: srsAcc where
  "srsAcc0 = \<lparr> acc_domains = [], acc_keywords = [], acc_regexes = [], acc_ips = [] \<rparr>"

definition parseSRS :: "(bytes \<Rightarrow> bytes option) \<Rightarrow> compiler \<Rightarrow> bytes \<Rightarrow> (srsErr, srsAcc) result" where
  "parseSRS zlib compile data =
    (if length data < 4 \<or> take 3 data \<noteq> bytes_of_string ''SRS'' then Inl SrsMagic
     else
       (case zlib (drop 4 data) of
          None \<Rightarrow> Inl SrsZlib
        | Some raw \<Rightarrow>
            res_bind (readUvarint raw) (\<lambda>(count, r). readSRSRules compile 0 (unat count) r srsAcc0)))"

section \<open>The matchers\<close>

datatype domainPart = PSing succinctBits | PKeyword "string list" | PRegex "(string \<Rightarrow> bool) list"

fun part_MatchDomain :: "domainPart \<Rightarrow> string \<Rightarrow> bool option" where
  "part_MatchDomain (PSing s) h = sing_MatchDomain s h"
| "part_MatchDomain (PKeyword k) h = Some (list_ex (\<lambda>kw. contains h kw) k)"
| "part_MatchDomain (PRegex rs) h = Some (list_ex (\<lambda>re. re h) rs)"

type_synonym domainUnion = "domainPart list"

fun union_MatchDomain :: "domainUnion \<Rightarrow> string \<Rightarrow> bool option" where
  "union_MatchDomain [] h = Some False"
| "union_MatchDomain (d # u) h =
    (case part_MatchDomain d h of None \<Rightarrow> None | Some True \<Rightarrow> Some True | Some False \<Rightarrow> union_MatchDomain u h)"

definition ParseSRSDomain :: "(bytes \<Rightarrow> bytes option) \<Rightarrow> compiler \<Rightarrow> bytes \<Rightarrow> (srsErr, domainUnion) result" where
  "ParseSRSDomain zlib compile data =
    res_bind (parseSRS zlib compile data) (\<lambda>acc.
      let u = map PSing (acc_domains acc)
            @ (if acc_keywords acc \<noteq> [] then [PKeyword (acc_keywords acc)] else [])
            @ (if acc_regexes acc \<noteq> [] then [PRegex (acc_regexes acc)] else []) in
      if u = [] then Inl SrsNothing else Inr u)"

definition union_MatchIP :: "ipAddrRangeSet list \<Rightarrow> Addr \<Rightarrow> bool" where
  "union_MatchIP u ip = list_ex (\<lambda>s. srs_MatchIP s ip) u"

definition ParseSRSIP :: "(bytes \<Rightarrow> bytes option) \<Rightarrow> compiler \<Rightarrow> bytes \<Rightarrow> (srsErr, ipAddrRangeSet list) result" where
  "ParseSRSIP zlib compile data =
    res_bind (parseSRS zlib compile data) (\<lambda>acc. if acc_ips acc = [] then Inl SrsNothing else Inr (acc_ips acc))"

section \<open>The format\<close>

function putUvarint :: "nat \<Rightarrow> bytes" where
  "putUvarint n = (if n < 128 then [word_of_nat n] else word_of_nat (128 + n mod 128) # putUvarint (n div 128))"
  by auto
termination by (relation "measure id") auto

declare putUvarint.simps [simp del]

lemma low_byte: "k < 128 \<Longrightarrow> (word_of_nat (128 + k) :: u8) AND 127 = word_of_nat k"
proof -
  assume k: "k < 128"
  have "(word_of_nat (128 + k) :: u8) AND mask 7 = take_bit 7 (word_of_nat (128 + k))" by (simp add: take_bit_eq_mask)
  also have "\<dots> = word_of_nat (take_bit 7 (128 + k))" by (rule bit_word_eqI) (auto simp: bit_simps simp del: of_nat_add)
  also have "take_bit 7 (128 + k) = k" using k by (simp add: take_bit_eq_mod)
  finally show ?thesis by (simp add: mask_eq_exp_minus_1)
qed

lemma split7: "(word_of_nat m :: u64) = word_of_nat (m mod 128) OR push_bit 7 (word_of_nat (m div 128))"
proof -
  have m: "m mod 128 = take_bit 7 m" "m div 128 = drop_bit 7 m" by (simp_all add: take_bit_eq_mod drop_bit_eq_div)
  show ?thesis unfolding m by (rule bit_word_eqI) (auto simp: bit_simps)
qed

lemma uvarintLoop_put:
  "m < 2 ^ (64 - 7 * i) \<Longrightarrow> i \<le> 9 \<Longrightarrow> uvarintLoop i x (putUvarint m @ rest) = Inr (x OR push_bit (7 * i) (word_of_nat m), rest)"
proof (induction m arbitrary: i x rule: putUvarint.induct)
  case (1 m)
  show ?case
  proof (cases "m < 128")
    case True
    have b: "(word_of_nat m :: u8) < 128" using True by (simp add: word_less_nat_alt unat_of_nat)
    have "\<not> (i = 9 \<and> (word_of_nat m :: u8) > 1)" using "1.prems" by (auto simp: word_less_nat_alt unat_of_nat)
    moreover have "ucast (word_of_nat m :: u8) = (word_of_nat m :: u64)" using True by (simp add: unsigned_of_nat take_bit_nat_eq_self)
    ultimately show ?thesis using True b "1.prems"(2) by (subst putUvarint.simps) simp
  next
    case False
    have i: "i \<le> 8"
    proof (rule ccontr)
      assume "\<not> ?thesis"
      then have "i = 9" using "1.prems"(2) by simp
      then show False using "1.prems"(1) False by simp
    qed
    have e: "64 - 7 * i = 7 + (64 - 7 * (i + 1))" using i by simp
    have d: "m div 128 < 2 ^ (64 - 7 * (i + 1))" using "1.prems"(1) unfolding e power_add by (simp add: less_mult_imp_div_less mult.commute)
    let ?k = "m mod 128"
    have k: "?k < 128" by simp
    have b: "\<not> (word_of_nat (128 + ?k) :: u8) < 128" using k by (simp add: word_less_nat_alt unat_of_nat del: of_nat_add)
    have u: "ucast (word_of_nat ?k :: u8) = (word_of_nat ?k :: u64)" using k by (simp add: unsigned_of_nat take_bit_nat_eq_self)
    have "uvarintLoop i x (putUvarint m @ rest) = uvarintLoop (i + 1) (x OR push_bit (7 * i) (word_of_nat ?k)) (putUvarint (m div 128) @ rest)"
      using False b i u by (subst putUvarint.simps) (simp add: low_byte [OF k] del: of_nat_add)
    also have "\<dots> = Inr ((x OR push_bit (7 * i) (word_of_nat ?k)) OR push_bit (7 * (i + 1)) (word_of_nat (m div 128)), rest)"
      by (rule "1.IH" [OF False d]) (use i in simp)
    also have "push_bit (7 * (i + 1)) (word_of_nat (m div 128) :: u64) = push_bit (7 * i) (push_bit 7 (word_of_nat (m div 128)))"
      by (simp add: push_bit_push_bit add.commute)
    finally show ?thesis using split7 [of m] by (simp add: push_bit_or or.assoc)
  qed
qed

lemma readUvarint_put: "n < 2 ^ 64 \<Longrightarrow> readUvarint (putUvarint n @ rest) = Inr (word_of_nat n, rest)"
  using uvarintLoop_put [of n 0 0 rest] by (simp add: readUvarint_def)

interpretation uvarint: codec "\<lambda>n :: u64. putUvarint (unat n)" readUvarint "\<lambda>_. True"
proof unfold_locales
  fix x :: u64 and rest
  have "unat x < 2 ^ 64" using unsigned_less [of x, where 'a = nat] by simp
  then show "readUvarint (putUvarint (unat x) @ rest) = Inr (x, rest)" by (simp add: readUvarint_put)
qed

text \<open>Items and rules as the files hold them.\<close>

datatype srsItem =
  IDomain "u64 list" "u64 list" bytes
| IKeyword "string list"
| IRegex "string list"
| ICidr "(Addr \<times> Addr) list"
| ISourceCidr "(Addr \<times> Addr) list"
| IUint16 u8 "u16 list"
| INetworkType bytes
| IStrings u8 "string list"
| IFlag u8

datatype srsRule = RDefault "srsItem list" u8 | RLogical u8 "srsRule list" u8

fun encAddr :: "Addr \<Rightarrow> bytes" where
  "encAddr (Addr4 w) = putUvarint 4 @ be32 w"
| "encAddr a = putUvarint 16 @ As16 a"

definition encU64s :: "u64 list \<Rightarrow> bytes" where
  "encU64s ws = putUvarint (length ws) @ concat (map be64 ws)"

definition encBytes :: "bytes \<Rightarrow> bytes" where
  "encBytes b = putUvarint (length b) @ b"

definition encStrings :: "string list \<Rightarrow> bytes" where
  "encStrings ss = putUvarint (length ss) @ concat (map (\<lambda>s. encBytes (bytes_of_string s)) ss)"

definition encRanges :: "(Addr \<times> Addr) list \<Rightarrow> bytes" where
  "encRanges rr = [1] @ be64 (word_of_nat (length rr)) @ concat (map (\<lambda>(f, t). encAddr f @ encAddr t) rr)"

fun encItem :: "srsItem \<Rightarrow> bytes" where
  "encItem (IDomain leaves bm labels) = [sItemDomain, 0] @ encU64s leaves @ encU64s bm @ encBytes labels"
| "encItem (IKeyword ss) = [sItemDomainKeyword] @ encStrings ss"
| "encItem (IRegex ss) = [sItemDomainRegex] @ encStrings ss"
| "encItem (ICidr rr) = [sItemIPCIDR] @ encRanges rr"
| "encItem (ISourceCidr rr) = [sItemSourceIPCIDR] @ encRanges rr"
| "encItem (IUint16 t ps) = [t] @ putUvarint (length ps) @ concat (map be16 ps)"
| "encItem (INetworkType b) = [sItemNetworkType] @ encBytes b"
| "encItem (IStrings t ss) = [t] @ encStrings ss"
| "encItem (IFlag t) = [t]"

fun encRule :: "srsRule \<Rightarrow> bytes" where
  "encRule (RDefault is invert) = [0] @ concat (map encItem is) @ [sItemFinal, invert]"
| "encRule (RLogical mode rs invert) = [1, mode] @ putUvarint (length rs) @ concat (map encRule rs) @ [invert]"

text \<open>What the format allows.\<close>

fun okAddr :: "Addr \<Rightarrow> bool" where
  "okAddr AddrZero = False"
| "okAddr (Addr4 w) = True"
| "okAddr (Addr6 w z) = (z = [])"

definition okStrings :: "string list \<Rightarrow> bool" where
  "okStrings ss = (length ss \<le> 2 ^ 24 \<and> list_all (\<lambda>s. length s \<le> 2 ^ 34) ss)"

definition okRanges :: "(Addr \<times> Addr) list \<Rightarrow> bool" where
  "okRanges rr = (length rr \<le> 2 ^ 28 \<and> list_all (\<lambda>(f, t). okAddr f \<and> okAddr t) rr)"

fun okItem :: "srsItem \<Rightarrow> bool" where
  "okItem (IDomain leaves bm labels) =
    (length leaves \<le> 2 ^ 28 \<and> length bm \<le> 2 ^ 28 \<and> length labels \<le> 2 ^ 34 \<and> singCheck leaves bm labels \<noteq> None)"
| "okItem (IKeyword ss) = okStrings ss"
| "okItem (IRegex ss) = okStrings ss"
| "okItem (ICidr rr) = okRanges rr"
| "okItem (ISourceCidr rr) = okRanges rr"
| "okItem (IUint16 t ps) = (t \<in> set uint16Items \<and> length ps < 2 ^ 62)"
| "okItem (INetworkType b) = (length b < 2 ^ 63)"
| "okItem (IStrings t ss) = (t \<in> set stringItems \<and> okStrings ss)"
| "okItem (IFlag t) = (t \<in> set flagItems)"

fun okRule :: "srsRule \<Rightarrow> bool" where
  "okRule (RDefault is invert) = list_all okItem is"
| "okRule (RLogical mode rs invert) = (length rs < 2 ^ 64 \<and> list_all okRule rs)"

fun levels :: "srsRule \<Rightarrow> nat" where
  "levels (RDefault is invert) = 1"
| "levels (RLogical mode rs invert) = foldr max (map levels rs) 0 + 1"

text \<open>What reading contributes.\<close>

definition unmapRanges :: "(Addr \<times> Addr) list \<Rightarrow> (Addr \<times> Addr) list" where
  "unmapRanges rr = map (\<lambda>(f, t). (Unmap f, Unmap t)) rr"

fun itemAcc :: "compiler \<Rightarrow> srsItem \<Rightarrow> srsAcc \<Rightarrow> srsAcc" where
  "itemAcc compile (IDomain leaves bm labels) acc =
    (case singCheck leaves bm labels of None \<Rightarrow> acc | Some s \<Rightarrow> acc \<lparr> acc_domains := acc_domains acc @ [s] \<rparr>)"
| "itemAcc compile (IKeyword ss) acc = acc \<lparr> acc_keywords := acc_keywords acc @ ss \<rparr>"
| "itemAcc compile (IRegex ss) acc = acc \<lparr> acc_regexes := acc_regexes acc @ List.map_filter compile ss \<rparr>"
| "itemAcc compile (ICidr rr) acc = acc \<lparr> acc_ips := acc_ips acc @ [sort_key fst (unmapRanges rr)] \<rparr>"
| "itemAcc compile _ acc = acc"

fun ruleItems :: "srsRule \<Rightarrow> srsItem list" where
  "ruleItems (RDefault is invert) = is"
| "ruleItems (RLogical mode rs invert) = concat (map ruleItems rs)"

section \<open>Reading what was written\<close>

lemma encAddr_back: "okAddr a \<Longrightarrow> readSRSAddr (encAddr a @ rest) = Inr (a, rest)"
  by (cases a) (simp_all add: readSRSAddr_def readUvarint_put)

lemma ranges_back:
  "list_all (\<lambda>(f, t). okAddr f \<and> okAddr t) rr \<Longrightarrow>
    readSRSRanges (length rr) (concat (map (\<lambda>(f, t). encAddr f @ encAddr t) rr) @ rest) = Inr (unmapRanges rr, rest)"
  by (induction rr) (auto simp: encAddr_back unmapRanges_def)

lemma unat_small: "n < 2 ^ 64 \<Longrightarrow> unat (word_of_nat n :: u64) = n"
  by (simp add: unat_of_nat)

lemma len_le: "n \<le> m \<Longrightarrow> m < 2 ^ 64 \<Longrightarrow> \<not> (word_of_nat n :: u64) > word_of_nat m"
  by (simp add: word_less_nat_alt unat_of_nat)

lemma ipSet_back:
  assumes "okRanges rr"
  shows "readSRSIPSet (encRanges rr @ rest) = Inr (sort_key fst (unmapRanges rr), rest)"
proof -
  have l: "length rr \<le> 2 ^ 28" "list_all (\<lambda>(f, t). okAddr f \<and> okAddr t) rr" using assms by (auto simp: okRanges_def)
  have "\<not> (word_of_nat (length rr) :: u64) > 2 ^ 28" using len_le [of "length rr" "2 ^ 28"] l(1) by simp
  then show ?thesis using ranges_back [OF l(2), of rest] l(1) unat_small [of "length rr"]
    by (simp add: readSRSIPSet_def encRanges_def)
qed


lemma u64s_back: "readU64s (length ws) (concat (map be64 ws)) = ws"
  by (induction ws) simp_all

lemma length_be64s: "length (concat (map be64 ws)) = 8 * length ws"
  by (induction ws) simp_all

lemma u64Slice_back:
  assumes "length ws \<le> 2 ^ 28"
  shows "readUvarU64Slice (encU64s ws @ rest) = Inr (ws, rest)"
proof -
  have u: "unat (word_of_nat (length ws) :: u64) = length ws" using assms by (intro unat_small) simp
  have le: "\<not> (word_of_nat (length ws) :: u64) > 2 ^ 28" using len_le [of "length ws" "2 ^ 28"] assms by simp
  have z: "(word_of_nat (length ws) :: u64) > 0 \<longleftrightarrow> ws \<noteq> []" using u by (simp add: word_less_nat_alt)
  have r: "readUvarint (encU64s ws @ rest) = Inr (word_of_nat (length ws), concat (map be64 ws) @ rest)"
    unfolding encU64s_def using assms by (simp add: readUvarint_put)
  have f: "readFull (8 * length ws) (concat (map be64 ws) @ rest) = Inr (concat (map be64 ws), rest)"
    by (rule readFull_append') (simp only: length_be64s)
  show ?thesis unfolding readUvarU64Slice_def r using le by (cases "ws = []") (simp_all add: z u f u64s_back)
qed

lemma byteSlice_back: "length b \<le> 2 ^ 34 \<Longrightarrow> readUvarByteSlice (encBytes b @ rest) = Inr (b, rest)"
  using len_le [of "length b" "2 ^ 34"] unat_small [of "length b"]
  by (simp add: readUvarByteSlice_def encBytes_def readUvarint_put)

lemma strings_back:
  "list_all (\<lambda>s. length s \<le> 2 ^ 34) ss \<Longrightarrow>
    readStrings (length ss) (concat (map (\<lambda>s. encBytes (bytes_of_string s)) ss) @ rest) = Inr (ss, rest)"
  by (induction ss) (auto simp: byteSlice_back)

lemma itemStrings_back: "okStrings ss \<Longrightarrow> readItemStrings (encStrings ss @ rest) = Inr (ss, rest)"
  using len_le [of "length ss" "2 ^ 24"] unat_small [of "length ss"] strings_back [of ss rest]
  by (simp add: readItemStrings_def encStrings_def readUvarint_put okStrings_def)

lemma sing_back:
  "length leaves \<le> 2 ^ 28 \<Longrightarrow> length bm \<le> 2 ^ 28 \<Longrightarrow> length labels \<le> 2 ^ 34 \<Longrightarrow> singCheck leaves bm labels = Some s \<Longrightarrow>
    readSingSuccinct ([0] @ encU64s leaves @ encU64s bm @ encBytes labels @ rest) = Inr (s, rest)"
  by (simp add: readSingSuccinct_def u64Slice_back byteSlice_back)

lemma copyN_back: "int (length b) = sint n \<Longrightarrow> copyNDiscard n (b @ rest) = Inr rest"
  by (simp add: copyNDiscard_def)

lemma skip16_back:
  assumes "length ps < 2 ^ 62"
  shows "skipUint16Slice (putUvarint (length ps) @ concat (map be16 ps) @ rest) = Inr rest"
proof -
  have "sint (word_of_nat (2 * length ps) :: u64) = int (2 * length ps)" by (rule sint_len) (use assms in simp)
  moreover have "length (concat (map be16 ps)) = 2 * length ps" by (induction ps) simp_all
  ultimately have "copyNDiscard (word_of_nat (length ps) * 2) (concat (map be16 ps) @ rest) = Inr rest"
    by (intro copyN_back) (simp add: mult.commute)
  then show ?thesis using assms by (simp add: skipUint16Slice_def readUvarint_put)
qed

lemma skip8_back: "length b < 2 ^ 63 \<Longrightarrow> skipUint8Slice (encBytes b @ rest) = Inr rest"
  using sint_len [of "length b"] by (simp add: skipUint8Slice_def encBytes_def readUvarint_put copyN_back)

lemma item_back:
  assumes "okItem i"
  shows "\<exists>t r. encItem i @ rest = t # r \<and> readSRSItem compile t r acc = Inr (True, itemAcc compile i acc, rest)"
proof (cases i)
  case (IDomain leaves bm labels)
  then show ?thesis using assms sing_back [of leaves bm labels _ rest] by (auto simp: readSRSItem_def)
next
  case (IUint16 t ps)
  then show ?thesis using assms skip16_back [of ps rest] by (auto simp: readSRSItem_def uint16Items_def)
next
  case (IStrings t ss)
  then show ?thesis using assms itemStrings_back [of ss rest]
    by (simp add: stringItems_def, elim disjE conjE) (simp_all add: readSRSItem_def uint16Items_def stringItems_def)
next
  case (IFlag t)
  then show ?thesis using assms by (auto simp: readSRSItem_def uint16Items_def stringItems_def flagItems_def)
qed (use assms in \<open>auto simp: readSRSItem_def itemStrings_back ipSet_back skip8_back uint16Items_def\<close>)

lemma default_back:
  "list_all okItem items \<Longrightarrow>
    readSRSDefault compile (concat (map encItem items) @ [sItemFinal, invert] @ rest) acc =
      Inr (fold (itemAcc compile) items acc, rest)"
proof (induction items arbitrary: acc)
  case Nil
  show ?case by (simp add: readSRSDefault.simps readSRSItem_def uint16Items_def stringItems_def flagItems_def)
next
  case (Cons i items)
  let ?more = "concat (map encItem items) @ [sItemFinal, invert] @ rest"
  obtain t r where t: "encItem i @ ?more = t # r" "readSRSItem compile t r acc = Inr (True, itemAcc compile i acc, ?more)"
    using item_back [of i ?more compile acc] Cons.prems by auto
  have "readSRSDefault compile (encItem i @ ?more) acc = readSRSDefault compile ?more (itemAcc compile i acc)"
    unfolding t(1) by (subst readSRSDefault.simps) (simp add: t(2))
  then show ?case using Cons by simp
qed

lemma levels_le: "r \<in> set rs \<Longrightarrow> levels r \<le> foldr max (map levels rs) 0"
  by (induction rs) auto

lemma times_back:
  "(\<And>x acc rest. x \<in> set rs \<Longrightarrow> f (enc x @ rest) acc = Inr (g x acc, rest)) \<Longrightarrow>
    readTimes f (length rs) (concat (map enc rs) @ rest) acc = Inr (fold g rs acc, rest)"
  by (induction rs arbitrary: acc) auto

lemma rule_back:
  "okRule rl \<Longrightarrow> levels rl \<le> d \<Longrightarrow>
    readSRSRule compile d (encRule rl @ rest) acc = Inr (fold (itemAcc compile) (ruleItems rl) acc, rest)"
proof (induction rl arbitrary: d rest acc)
  case (RDefault items invert)
  then obtain d' where "d = Suc d'" by (cases d) auto
  then show ?case using default_back [of items compile invert rest acc] RDefault.prems by simp
next
  case (RLogical mode rs invert)
  then obtain d' where d: "d = Suc d'" by (cases d) auto
  let ?g = "\<lambda>rl. fold (itemAcc compile) (ruleItems rl)"
  have "readTimes (readSRSRule compile d') (length rs) (concat (map encRule rs) @ invert # rest) acc = Inr (fold ?g rs acc, invert # rest)"
  proof (rule times_back)
    fix x acc rest assume x: "x \<in> set rs"
    then have "okRule x" "levels x \<le> d'" using RLogical.prems levels_le [OF x] d by (auto simp: list_all_iff)
    then show "readSRSRule compile d' (encRule x @ rest) acc = Inr (?g x acc, rest)" using RLogical.IH [OF x] by blast
  qed
  moreover have "fold ?g rs acc = fold (itemAcc compile) (concat (map ruleItems rs)) acc" by (induction rs arbitrary: acc) simp_all
  ultimately show ?case using RLogical.prems(1) unat_small [of "length rs"] unfolding d
    by (simp add: readSRSLogical_def readUvarint_put)
qed

lemma rules_back:
  "list_all okRule rs \<Longrightarrow> list_all (\<lambda>r. levels r \<le> 101) rs \<Longrightarrow>
    readSRSRules compile i (length rs) (concat (map encRule rs) @ rest) acc =
      Inr (fold (itemAcc compile) (concat (map ruleItems rs)) acc)"
  by (induction rs arbitrary: i acc) (auto simp: rule_back)

definition srsFile :: "(bytes \<Rightarrow> bytes) \<Rightarrow> u8 \<Rightarrow> srsRule list \<Rightarrow> bytes" where
  "srsFile deflate version rs =
    bytes_of_string ''SRS'' @ [version] @ deflate (putUvarint (length rs) @ concat (map encRule rs))"

lemma parse_back:
  assumes "\<And>b. zlib (deflate b) = Some b" "length rs < 2 ^ 64" "list_all okRule rs" "list_all (\<lambda>r. levels r \<le> 101) rs"
  shows "parseSRS zlib compile (srsFile deflate version rs) = Inr (fold (itemAcc compile) (concat (map ruleItems rs)) srsAcc0)"
proof -
  have "drop 4 (srsFile deflate version rs) = deflate (putUvarint (length rs) @ concat (map encRule rs))"
    "take 3 (srsFile deflate version rs) = bytes_of_string ''SRS''" "\<not> length (srsFile deflate version rs) < 4"
    by (simp_all add: srsFile_def bytes_of_string_def)
  then show ?thesis using rules_back [OF assms(3,4), of compile 0 "[]" srsAcc0] assms(1,2) unat_small [of "length rs"]
    by (simp add: parseSRS_def readUvarint_put)
qed


section \<open>What the sets stand for\<close>

definition srsStands :: "ipAddrRangeSet \<Rightarrow> Addr set" where
  "srsStands rr = {ip. covered rr (Unmap ip)}"

interpretation srs_set: ip_set srs_MatchIP srsStands "\<lambda>rr. sorted (map fst rr) \<and> apart rr"
  by unfold_locales (simp add: srs_MatchIP_def srsStands_def inRanges_covered)

fun cidrOf :: "srsItem \<Rightarrow> (Addr \<times> Addr) list option" where
  "cidrOf (ICidr rr) = Some rr"
| "cidrOf _ = None"

fun keywordsOf :: "srsItem \<Rightarrow> string list" where
  "keywordsOf (IKeyword ss) = ss"
| "keywordsOf _ = []"

fun regexesOf :: "srsItem \<Rightarrow> string list" where
  "regexesOf (IRegex ss) = ss"
| "regexesOf _ = []"

fun domainOf :: "srsItem \<Rightarrow> succinctBits option" where
  "domainOf (IDomain leaves bm labels) = singCheck leaves bm labels"
| "domainOf _ = None"

fun fitsItem :: "srsItem \<Rightarrow> bool" where
  "fitsItem (IDomain leaves bm labels) = (fits bm \<and> (case singCheck leaves bm labels of None \<Rightarrow> True | Some s \<Rightarrow> ordered s))"
| "fitsItem _ = True"

definition fileItems :: "srsRule list \<Rightarrow> srsItem list" where
  "fileItems rs = concat (map ruleItems rs)"

definition okFile :: "srsRule list \<Rightarrow> bool" where
  "okFile rs = (length rs < 2 ^ 64 \<and> list_all okRule rs \<and> list_all (\<lambda>r. levels r \<le> 101) rs)"

lemma acc_parts:
  "acc_ips (fold (itemAcc compile) items acc) = acc_ips acc @ map (\<lambda>rr. sort_key fst (unmapRanges rr)) (List.map_filter cidrOf items)"
  "acc_keywords (fold (itemAcc compile) items acc) = acc_keywords acc @ concat (map keywordsOf items)"
  "acc_regexes (fold (itemAcc compile) items acc) = acc_regexes acc @ List.map_filter compile (concat (map regexesOf items))"
  "acc_domains (fold (itemAcc compile) items acc) = acc_domains acc @ List.map_filter domainOf items"
proof (induction items arbitrary: acc)
  case (Cons i items)
  case 1 show ?case using Cons by (cases i) (auto simp: map_filter_simps split: option.split)
  case 2 show ?case using Cons by (cases i) (auto simp: map_filter_simps split: option.split)
  case 3 show ?case using Cons by (cases i) (auto simp: map_filter_simps map_filter_def split: option.split)
  case 4 show ?case using Cons by (cases i) (auto simp: map_filter_simps split: option.split)
qed (simp_all add: map_filter_simps)

lemma in_map_filter: "y \<in> set (List.map_filter f xs) \<longleftrightarrow> (\<exists>x \<in> set xs. f x = Some y)"
  by (induction xs) (auto simp: map_filter_simps split: option.split)

lemma file_acc:
  assumes "\<And>b. zlib (deflate b) = Some b" "okFile rs"
  shows "parseSRS zlib compile (srsFile deflate version rs) =
    Inr \<lparr> acc_domains = List.map_filter domainOf (fileItems rs), acc_keywords = concat (map keywordsOf (fileItems rs)),
          acc_regexes = List.map_filter compile (concat (map regexesOf (fileItems rs))),
          acc_ips = map (\<lambda>rr. sort_key fst (unmapRanges rr)) (List.map_filter cidrOf (fileItems rs)) \<rparr>"
proof -
  let ?acc = "fold (itemAcc compile) (fileItems rs) srsAcc0"
  have "parseSRS zlib compile (srsFile deflate version rs) = Inr ?acc"
    using parse_back [of zlib deflate rs compile version] assms unfolding okFile_def fileItems_def by blast
  moreover have "?acc = \<lparr> acc_domains = acc_domains ?acc, acc_keywords = acc_keywords ?acc, acc_regexes = acc_regexes ?acc, acc_ips = acc_ips ?acc \<rparr>"
    by simp
  ultimately show ?thesis unfolding acc_parts by (simp add: srsAcc0_def)
qed

lemma sorted_apart: "apart rr \<Longrightarrow> sorted (map fst (sort_key fst rr)) \<and> apart (sort_key fst rr)"
  by (simp add: apart_sort)

lemma covered_unmap: "covered (unmapRanges rr) x = list_ex (\<lambda>(f, t). Unmap f \<le> x \<and> x \<le> Unmap t) rr"
  by (induction rr) (auto simp: covered_def unmapRanges_def)


definition sw_rules :: "srsRule list" where
  "sw_rules = [RLogical 0 [RDefault [IUint16 9 [80, 443], ICidr [(Addr4 0x0a000000, Addr4 0x0affffff)]] 0, RDefault [IFlag 19] 1] 0,
     RDefault [IKeyword [''ads''], ISourceCidr [(Addr4 0, Addr4 1)]] 0]"


lemma union_some:
  "(\<And>d. d \<in> set u \<Longrightarrow> part_MatchDomain d h = Some (P d)) \<Longrightarrow> union_MatchDomain u h = Some (list_ex P u)"
  by (induction u) (auto split: bool.split)

lemma parts_ex:
  "list_ex (case_domainPart p q r) (map PSing ds @ (if ks \<noteq> [] then [PKeyword ks] else []) @ (if res \<noteq> [] then [PRegex res] else [])) \<longleftrightarrow>
    list_ex p ds \<or> (ks \<noteq> [] \<and> q ks) \<or> (res \<noteq> [] \<and> r res)"
  by (induction ds) auto

lemma list_ex_nonempty: "(xs \<noteq> [] \<and> list_ex P xs) = list_ex P xs"
  by (cases xs) auto

lemma compiled_ex:
  "list_ex (\<lambda>re. re h) (List.map_filter compile (concat (map f items))) \<longleftrightarrow>
    (\<exists>i e re. i \<in> set items \<and> e \<in> set (f i) \<and> compile e = Some re \<and> re h)" (is "?l \<longleftrightarrow> ?r")
proof
  assume ?l
  then obtain re where re: "re \<in> set (List.map_filter compile (concat (map f items)))" "re h" unfolding list_ex_iff by (rule bexE)
  from re(1) obtain e where e: "e \<in> set (concat (map f items))" "compile e = Some re" unfolding in_map_filter by (rule bexE)
  from e(1) obtain i where "i \<in> set items" "e \<in> set (f i)" by auto
  with e(2) re(2) show ?r by (intro exI conjI)
next
  assume ?r
  then obtain i e re where i: "i \<in> set items" "e \<in> set (f i)" "compile e = Some re" "re h" by (elim exE conjE)
  then have "e \<in> set (concat (map f items))" by auto
  with i(3) have "re \<in> set (List.map_filter compile (concat (map f items)))" unfolding in_map_filter by (rule bexI)
  with i(4) show ?l unfolding list_ex_iff by (rule bexI)
qed



end
