(* ===== verification/MrsSet.thy ===== *)
theory MrsSet
  imports SingSet "HOL-Library.Multiset"
begin

text \<open>
  The domain matcher of \<open>.mrs\<close> files (\<open>ruleset/succinct.go\<close>, \<open>mihomoDomainSet\<close>): the walk with its stack of pending
  wildcards.  Without wildcard labels the walk is exact; with them a key that also runs along a
  longer literal entry is missed.
\<close>

unbundle bit_operations_syntax

section \<open>The key\<close>

abbreviation (input) "complexWildcardByte \<equiv> (43 :: u8)"
abbreviation (input) "wildcardByte \<equiv> (42 :: u8)"
abbreviation (input) "domainStepByte \<equiv> (46 :: u8)"

definition lowerByte :: "u8 \<Rightarrow> u8" where
  "lowerByte c = (if 65 \<le> c \<and> c \<le> 90 then c + 32 else c)"

definition revLowerAt :: "bytes \<Rightarrow> nat \<Rightarrow> u8" where
  "revLowerAt key i = lowerByte (key ! (length key - 1 - i))"

definition toLowerASCII :: "bytes \<Rightarrow> bytes" where
  "toLowerASCII s = map lowerByte s"

definition byteReverse :: "bytes \<Rightarrow> bytes" where
  "byteReverse s = rev s"

function runesOf :: "bytes \<Rightarrow> nat list" where
  "runesOf s = (if s = [] then [] else fst (decodeRune s) # runesOf (drop (snd (decodeRune s)) s))"
  by auto
termination
  by (relation "measure length") (use decodeRune_width in \<open>auto simp: diff_less\<close>)

declare runesOf.simps [simp del]

definition reverseRunes :: "bytes \<Rightarrow> bytes" where
  "reverseRunes s = concat (map encodeRune (rev (runesOf s)))"

section \<open>The walk\<close>

text \<open>How the scan of one node's labels ends: at a complex wildcard, at the label sought, at the end of the node.\<close>

datatype mScan = MTrue | MHit int "(int \<times> nat) list" | MEnd int "(int \<times> nat) list"

function scanLabels :: "succinctBits \<Rightarrow> u8 \<Rightarrow> nat \<Rightarrow> int \<Rightarrow> int \<Rightarrow> (int \<times> nat) list \<Rightarrow> mScan option" where
  "scanLabels s c i nodeId bmIdx stack =
    (case getBit (sb_labelBitmap s) bmIdx of
       None \<Rightarrow> None
     | Some True \<Rightarrow> Some (MEnd bmIdx stack)
     | Some False \<Rightarrow>
         (case idx (sb_labels s) (bmIdx - nodeId) of
            None \<Rightarrow> None
          | Some l \<Rightarrow>
              if l = complexWildcardByte then Some MTrue
              else if l = wildcardByte then scanLabels s c i nodeId (bmIdx + 1) ((bmIdx, i) # stack)
              else if l = c then Some (MHit bmIdx stack)
              else scanLabels s c i nodeId (bmIdx + 1) stack))"
  by auto
termination
  by (relation "measure (\<lambda>(s, c, i, nodeId, bmIdx, stack). nat (64 * int (length (sb_labelBitmap s)) - bmIdx))")
    (auto simp: getBit_def idx_def split: if_splits)

declare scanLabels.simps [simp del]

text \<open>The next label separator of the key, or its end.\<close>

function stepEnd :: "bytes \<Rightarrow> nat \<Rightarrow> nat" where
  "stepEnd key j = (if j < length key \<and> revLowerAt key j \<noteq> domainStepByte then stepEnd key (j + 1) else j)"
  by auto
termination by (relation "measure (\<lambda>(key, j). length key - j)") auto

declare stepEnd.simps [simp del]

text \<open>The loop over \<open>nextBmIdx\<close>: the first separator label from there on; \<open>Inl ()\<close> is a panic.\<close>

function findStep :: "succinctBits \<Rightarrow> int \<Rightarrow> int \<Rightarrow> unit + int option" where
  "findStep s nextNodeId nextBmIdx =
    (if nextBmIdx - nextNodeId < int (length (sb_labels s)) then
       (case idx (sb_labels s) (nextBmIdx - nextNodeId) of
          None \<Rightarrow> Inl ()
        | Some l \<Rightarrow> if l = domainStepByte then Inr (Some nextBmIdx) else findStep s nextNodeId (nextBmIdx + 1))
     else Inr None)"
  by auto
termination
  by (relation "measure (\<lambda>(s, n, p). nat (int (length (sb_labels s)) - (p - n)))") auto

declare findStep.simps [simp del]

text \<open>
  One turn of the outer loop, up to the next restart or the next character: \<open>Inl\<close> is a return (of a
  result, or of \<open>Inl ()\<close> for a panic), \<open>Inr\<close> the state the next turn starts from.  The head of the stack is its top.
\<close>

type_synonym mState = "nat \<times> int \<times> int \<times> (int \<times> nat) list"

definition orPanic :: "'a option \<Rightarrow> ('a \<Rightarrow> (unit + bool) + mState) \<Rightarrow> (unit + bool) + mState" where
  "orPanic x f = (case x of None \<Rightarrow> Inl (Inl ()) | Some a \<Rightarrow> f a)"

definition popCursor :: "succinctBits \<Rightarrow> bytes \<Rightarrow> nat \<Rightarrow> int \<Rightarrow> int \<Rightarrow> (int \<times> nat) list \<Rightarrow> (unit + bool) + mState" where
  "popCursor s key i nodeId bmIdx stack =
    (case stack of
       [] \<Rightarrow> Inl (Inr False)
     | (cursor, index) # stack \<Rightarrow>
         orPanic (countZeros s (cursor + 1)) (\<lambda>nextNodeId.
           orPanic (selectIthOne s (nextNodeId - 1)) (\<lambda>q.
             if stepEnd key index = length key then
               orPanic (getBit (sb_leaves s) nextNodeId) (\<lambda>b.
                 if b then Inl (Inr True) else Inr (i, nodeId, bmIdx, stack))
             else
               (case findStep s nextNodeId (q + 1) of
                  Inl _ \<Rightarrow> Inl (Inl ())
                | Inr None \<Rightarrow> Inl (Inr False)
                | Inr (Some p) \<Rightarrow> Inr (stepEnd key index, nextNodeId, p, stack)))))"

fun mihomoStep :: "succinctBits \<Rightarrow> bytes \<Rightarrow> mState \<Rightarrow> (unit + bool) + mState" where
  "mihomoStep s key (i, nodeId, bmIdx, stack) =
    (if i < length key then
       orPanic (scanLabels s (revLowerAt key i) i nodeId bmIdx stack) (\<lambda>r.
         case r of
           MTrue \<Rightarrow> Inl (Inr True)
         | MHit p stack \<Rightarrow>
             orPanic (countZeros s (p + 1)) (\<lambda>nodeId.
               orPanic (selectIthOne s (nodeId - 1)) (\<lambda>q. Inr (i + 1, nodeId, q + 1, stack)))
         | MEnd p stack \<Rightarrow> popCursor s key i nodeId p stack)
     else orPanic (getBit (sb_leaves s) nodeId) (\<lambda>b. Inl (Inr b)))"

section \<open>The walk ends\<close>

text \<open>
  On any bits, well-formed or not.  A turn replaces what it uses up by work of smaller rank: a character
  of the key by cursors at that character and the next character, a cursor by a turn that starts
  at a separator and so leaves no new cursor behind.
\<close>

definition turnRank :: "succinctBits \<Rightarrow> bytes \<Rightarrow> nat \<Rightarrow> int \<Rightarrow> int \<Rightarrow> nat" where
  "turnRank s key i nodeId bmIdx =
    (if length key \<le> i \<or> getBit (sb_labelBitmap s) bmIdx = Some True then 0
     else if idx (sb_labels s) (bmIdx - nodeId) = Some domainStepByte \<and> revLowerAt key i = domainStepByte then 3 * (length key - i)
     else 3 * (length key - i) + 2)"

definition cursorRank :: "bytes \<Rightarrow> int \<times> nat \<Rightarrow> nat" where
  "cursorRank key c = 3 * (length key - snd c) + 1"

fun work :: "succinctBits \<Rightarrow> bytes \<Rightarrow> mState \<Rightarrow> nat multiset" where
  "work s key (i, nodeId, bmIdx, stack) = add_mset (turnRank s key i nodeId bmIdx) (image_mset (cursorRank key) (mset stack))"

lemma scanLabels_new:
  "scanLabels s c i nodeId bmIdx stack = Some r \<Longrightarrow>
    case r of
      MTrue \<Rightarrow> True
    | MHit p st \<Rightarrow> getBit (sb_labelBitmap s) bmIdx = Some False \<and>
        (\<exists>new. st = map (\<lambda>b. (b, i)) new @ stack \<and> (idx (sb_labels s) (bmIdx - nodeId) = Some domainStepByte \<and> c = domainStepByte \<longrightarrow> new = []))
    | MEnd p st \<Rightarrow> getBit (sb_labelBitmap s) p = Some True \<and>
        (\<exists>new. st = map (\<lambda>b. (b, i)) new @ stack \<and> (new \<noteq> [] \<longrightarrow> getBit (sb_labelBitmap s) bmIdx = Some False \<and>
          \<not> (idx (sb_labels s) (bmIdx - nodeId) = Some domainStepByte \<and> c = domainStepByte)))"
proof (induction s c i nodeId bmIdx stack rule: scanLabels.induct)
  case (1 s c i nodeId bmIdx stack)
  obtain b where b: "getBit (sb_labelBitmap s) bmIdx = Some b" using "1.prems"
    by (subst (asm) scanLabels.simps) (auto split: option.splits)
  show ?case
  proof (cases b)
    case True
    then have "r = MEnd bmIdx stack" using "1.prems" b by (subst (asm) scanLabels.simps) simp
    then show ?thesis using b True by simp
  next
    case False
    then obtain l where l: "idx (sb_labels s) (bmIdx - nodeId) = Some l" using "1.prems" b
      by (subst (asm) scanLabels.simps) (auto split: option.splits)
    consider "l = complexWildcardByte" | "l = wildcardByte" | "l \<noteq> complexWildcardByte" "l \<noteq> wildcardByte" "l = c"
      | "l \<noteq> complexWildcardByte" "l \<noteq> wildcardByte" "l \<noteq> c" by blast
    then show ?thesis
    proof cases
      case 1
      then have "r = MTrue" using "1.prems" b l False by (subst (asm) scanLabels.simps) simp
      then show ?thesis by simp
    next
      case 2
      then have r: "scanLabels s c i nodeId (bmIdx + 1) ((bmIdx, i) # stack) = Some r"
        using "1.prems" b l False by (subst (asm) scanLabels.simps) simp
      have "case r of
          MTrue \<Rightarrow> True
        | MHit p st \<Rightarrow> \<exists>new. st = map (\<lambda>b. (b, i)) new @ (bmIdx, i) # stack
        | MEnd p st \<Rightarrow> getBit (sb_labelBitmap s) p = Some True \<and> (\<exists>new. st = map (\<lambda>b. (b, i)) new @ (bmIdx, i) # stack)"
        using "1.IH"(1) [OF b _ l _ _ r] False 2 by (auto split: mScan.splits)
      moreover have "\<exists>new'. map (\<lambda>b. (b, i)) new @ (bmIdx, i) # stack = map (\<lambda>b. (b, i)) new' @ stack" for new
        by (rule exI [of _ "new @ [bmIdx]"]) simp
      ultimately show ?thesis using b False l 2 by (auto split: mScan.splits)
    next
      case 3
      then have "r = MHit bmIdx stack" using "1.prems" b l False by (subst (asm) scanLabels.simps) simp
      then show ?thesis using b False by simp
    next
      case 4
      then have r: "scanLabels s c i nodeId (bmIdx + 1) stack = Some r"
        using "1.prems" b l False by (subst (asm) scanLabels.simps) simp
      show ?thesis using "1.IH"(2) [OF b _ l _ _ _ r] b False l 4 by (auto split: mScan.splits)
    qed
  qed
qed


lemma stepEnd_spec: "j \<le> stepEnd key j \<and> (stepEnd key j < length key \<longrightarrow> revLowerAt key (stepEnd key j) = domainStepByte)"
proof (induction key j rule: stepEnd.induct)
  case (1 key j)
  show ?case
  proof (cases "j < length key \<and> revLowerAt key j \<noteq> domainStepByte")
    case True
    then have "stepEnd key j = stepEnd key (j + 1)" by (subst stepEnd.simps) simp
    then show ?thesis using 1 [OF True] by auto
  next
    case False
    then have "stepEnd key j = j" by (subst stepEnd.simps) auto
    then show ?thesis using False by auto
  qed
qed

lemma findStep_label: "findStep s n p = Inr (Some q) \<Longrightarrow> idx (sb_labels s) (q - n) = Some domainStepByte"
proof (induction s n p rule: findStep.induct)
  case (1 s n p)
  have "p - n < int (length (sb_labels s))" using "1.prems" by (subst (asm) findStep.simps) (simp split: if_split_asm)
  moreover then obtain l where l: "idx (sb_labels s) (p - n) = Some l"
    using "1.prems" by (subst (asm) findStep.simps) (auto split: option.splits)
  ultimately show ?case using "1.IH" [OF _ l] "1.prems" l by (subst (asm) (2) findStep.simps) (auto split: if_split_asm)
qed

lemma smaller_work:
  "K \<noteq> {#} \<Longrightarrow> (\<And>x. x \<in># N \<Longrightarrow> \<exists>k \<in># K. x < k) \<Longrightarrow> (N + S, K + S) \<in> mult less_than"
  using one_step_implies_mult [of K N less_than S] by (simp add: add.commute)

text \<open>The cursors a scan leaves, and one of them taken up.\<close>

lemma popCursor_work:
  assumes "popCursor s key i nodeId p st = Inr st'" "getBit (sb_labelBitmap s) p = Some True"
  obtains c st1 x where "st = c # st1" "work s key st' = add_mset x (image_mset (cursorRank key) (mset st1))" "x < cursorRank key c"
proof -
  obtain cursor j st1 where st: "st = (cursor, j) # st1" using assms(1) by (auto simp: popCursor_def split: list.splits)
  have "st' = (i, nodeId, p, st1) \<or> (\<exists>n q. st' = (stepEnd key j, n, q, st1) \<and> idx (sb_labels s) (q - n) = Some domainStepByte)"
    using assms(1) unfolding st popCursor_def orPanic_def
    by (auto dest: findStep_label split: option.splits if_split_asm sum.splits)
  then show ?thesis
  proof
    assume "st' = (i, nodeId, p, st1)"
    then have "work s key st' = add_mset 0 (image_mset (cursorRank key) (mset st1))" using assms(2) by (simp add: turnRank_def)
    then show ?thesis using st by (intro that) (auto simp: cursorRank_def)
  next
    assume "\<exists>n q. st' = (stepEnd key j, n, q, st1) \<and> idx (sb_labels s) (q - n) = Some domainStepByte"
    then obtain n q where st': "st' = (stepEnd key j, n, q, st1)" "idx (sb_labels s) (q - n) = Some domainStepByte" by blast
    have "turnRank s key (stepEnd key j) n q < cursorRank key (cursor, j)"
      using stepEnd_spec [of j key] st'(2) by (auto simp: turnRank_def cursorRank_def)
    then show ?thesis using st st'(1) by (intro that) auto
  qed
qed

lemma mihomoStep_work:
  assumes "mihomoStep s key st = Inr st'"
  shows "(work s key st', work s key st) \<in> mult less_than"
proof -
  obtain i nodeId bmIdx stack where st: "st = (i, nodeId, bmIdx, stack)" by (cases st)
  have i: "i < length key" using assms unfolding st by (auto simp: orPanic_def split: if_split_asm option.splits)
  let ?c = "revLowerAt key i" and ?R = "turnRank s key i nodeId bmIdx" and ?S = "image_mset (cursorRank key) (mset stack)"
  obtain r where r: "scanLabels s ?c i nodeId bmIdx stack = Some r"
    using assms i unfolding st by (auto simp: orPanic_def split: option.splits)
  note new = scanLabels_new [OF r]
  have ranks: "image_mset (cursorRank key) (mset (map (\<lambda>b. (b, i)) bs)) = replicate_mset (length bs) (3 * (length key - i) + 1)" for bs
    by (induction bs) (simp_all add: cursorRank_def)
  show ?thesis
  proof (cases r)
    case MTrue
    then show ?thesis using assms r i unfolding st by (simp add: orPanic_def)
  next
    case (MHit p st1)
    then obtain bs where bs: "st1 = map (\<lambda>b. (b, i)) bs @ stack" "getBit (sb_labelBitmap s) bmIdx = Some False"
      "idx (sb_labels s) (bmIdx - nodeId) = Some domainStepByte \<and> ?c = domainStepByte \<longrightarrow> bs = []" using new by auto
    obtain n q where st': "st' = (i + 1, n, q, st1)"
      using assms r i MHit unfolding st by (auto simp: orPanic_def split: option.splits)
    let ?x = "turnRank s key (i + 1) n q"
    have x: "?x < ?R" using bs(2) i by (auto simp: turnRank_def)
    have "y < ?R" if "y \<in># add_mset ?x (replicate_mset (length bs) (3 * (length key - i) + 1))" for y
      using that x bs(2,3) i by (auto simp: turnRank_def split: if_splits)
    then have "(add_mset ?x (replicate_mset (length bs) (3 * (length key - i) + 1)) + ?S, {#?R#} + ?S) \<in> mult less_than"
      by (intro smaller_work) auto
    then show ?thesis unfolding st st' bs(1) work.simps mset_append image_mset_union ranks by simp
  next
    case (MEnd p st1)
    then obtain bs where bs: "st1 = map (\<lambda>b. (b, i)) bs @ stack" "getBit (sb_labelBitmap s) p = Some True"
      "bs \<noteq> [] \<longrightarrow> getBit (sb_labelBitmap s) bmIdx = Some False \<and> \<not> (idx (sb_labels s) (bmIdx - nodeId) = Some domainStepByte \<and> ?c = domainStepByte)"
      using new by auto
    have "popCursor s key i nodeId p st1 = Inr st'" using assms r i MEnd unfolding st by (simp add: orPanic_def)
    then obtain c st2 x where c: "st1 = c # st2" "work s key st' = add_mset x (image_mset (cursorRank key) (mset st2))" "x < cursorRank key c"
      using popCursor_work bs(2) by blast
    show ?thesis
    proof (cases bs)
      case Nil
      then have "stack = c # st2" using bs(1) c(1) by simp
      then show ?thesis using smaller_work [of "{#?R, cursorRank key c#}" "{#x#}" "image_mset (cursorRank key) (mset st2)"] c(2,3)
        unfolding st by auto
    next
      case (Cons b bs')
      then have st2: "c = (b, i)" "st2 = map (\<lambda>b. (b, i)) bs' @ stack" using bs(1) c(1) by auto
      have R: "?R = 3 * (length key - i) + 2" using bs(3) Cons i by (auto simp: turnRank_def)
      then have "y < ?R" if "y \<in># add_mset x (replicate_mset (length bs') (3 * (length key - i) + 1))" for y
        using that c(3) st2(1) by (auto simp: cursorRank_def split: if_splits)
      then have "(add_mset x (replicate_mset (length bs') (3 * (length key - i) + 1)) + ?S, {#?R#} + ?S) \<in> mult less_than"
        by (intro smaller_work) auto
      then show ?thesis unfolding st c(2) st2(2) work.simps mset_append image_mset_union ranks by simp
    qed
  qed
qed

function mihomoLoop :: "succinctBits \<Rightarrow> bytes \<Rightarrow> mState \<Rightarrow> unit + bool" where
  "mihomoLoop s key st = (case mihomoStep s key st of Inl r \<Rightarrow> r | Inr st \<Rightarrow> mihomoLoop s key st)"
  by auto
termination
proof (relation "inv_image (mult less_than) (\<lambda>(s, key, st). work s key st)")
  show "wf (inv_image (mult less_than) (\<lambda>(s, key, st). work s key st))" by (intro wf_inv_image wf_mult wf_less_than)
qed (auto dest: mihomoStep_work)


declare mihomoLoop.simps [simp del]

definition mihomo_MatchDomain :: "succinctBits \<Rightarrow> string \<Rightarrow> unit + bool" where
  "mihomo_MatchDomain s domain =
    (let key = bytes_of_string domain;
         key = (if list_ex (\<lambda>c. c \<ge> 0x80) key then byteReverse (toLowerASCII (reverseRunes key)) else key) in
     mihomoLoop s key (0, 0, 0, []))"

text \<open>
  C39: The walk of the .mrs domain matcher ends on every input: on no set, well formed or not, and from
  no state can its turns go on forever, although a pending wildcard takes the walk back to an earlier
  character.
\<close>

theorem mrs_walk_ends:
  "\<nexists>run :: nat \<Rightarrow> mState. run 0 = st \<and> (\<forall>n. mihomoStep s key (run n) = Inr (run (n + 1)))"
proof
  assume "\<exists>run :: nat \<Rightarrow> mState. run 0 = st \<and> (\<forall>n. mihomoStep s key (run n) = Inr (run (n + 1)))"
  then obtain run :: "nat \<Rightarrow> mState" where "\<forall>n. mihomoStep s key (run n) = Inr (run (n + 1))" by blast
  then have "(work s key (run (Suc n)), work s key (run n)) \<in> mult less_than" for n by (intro mihomoStep_work) simp
  then have "\<exists>f. \<forall>n. (f (Suc n), f n) \<in> mult less_than" by (intro exI [of _ "\<lambda>n. work s key (run n)"]) simp
  then show False using wf_iff_no_infinite_down_chain [of "mult less_than"] wf_mult [OF wf_less_than] by blast
qed

section \<open>Sets without wildcards\<close>

fun mwalkScan :: "u8 \<Rightarrow> (u8 \<times> nat) list \<Rightarrow> bool + nat" where
  "mwalkScan c [] = Inl False"
| "mwalkScan c ((l, k) # cs) = (if l = complexWildcardByte then Inl True else if l = c then Inr k else mwalkScan c cs)"

fun mwalk :: "succinctBits \<Rightarrow> bytes \<Rightarrow> nat \<Rightarrow> bool" where
  "mwalk s [] n = leaf s n"
| "mwalk s (c # key) n = (case mwalkScan c (children s n) of Inl r \<Rightarrow> r | Inr k \<Rightarrow> mwalk s key k)"

lemma scanLabels_walk:
  assumes "shaped s" "ones (take p (lbits s)) = n" "n \<le> length (sb_labels s)" "wildcardByte \<notin> set (sb_labels s)"
  shows "case mwalkScan c (childrenFrom s n p) of
           Inl True \<Rightarrow> scanLabels s c i (int n) (int p) [] = Some MTrue
         | Inl False \<Rightarrow> \<exists>q. scanLabels s c i (int n) (int p) [] = Some (MEnd q [])
         | Inr k \<Rightarrow> (\<exists>q. scanLabels s c i (int n) (int p) [] = Some (MHit (int q) []) \<and> countZeros s (int q + 1) = Some (int k) \<and>
                      1 \<le> k \<and> k \<le> length (sb_labels s))"
  using assms(2)
proof (induction "2 * length (sb_labels s) - p" arbitrary: p rule: less_induct)
  case less
  note e = shaped_edge [OF assms(1) less.prems assms(3)]
  note g = getBit_labels [OF e(2)]
  show ?case
  proof (cases "lbits s ! p")
    case True
    then show ?thesis using g childrenFrom_one [OF e(2) True less.prems] by (simp add: scanLabels.simps)
  next
    case False
    let ?l = "sb_labels s ! (p - n)" and ?k = "p - n + 1"
    have cs: "childrenFrom s n p = (?l, ?k) # childrenFrom s n (p + 1)"
      using childrenFrom_zero [OF e(2) False less.prems] by (simp add: childAt_def)
    have ix: "idx (sb_labels s) (int p - int n) = Some ?l" using e(3) e(4) [OF False] by (simp add: idx_def nat_diff_distrib)
    note z = countZeros_edge [OF assms(1) less.prems assms(3) False]
    have nxt: "ones (take (p + 1) (lbits s)) = n" using ones_take_Suc [OF e(2)] False less.prems by simp
    have nw: "?l \<noteq> wildcardByte" using assms(4) nth_mem [OF e(4) [OF False]] by metis
    have step: "scanLabels s c i (int n) (int p) [] =
        (if ?l = complexWildcardByte then Some MTrue
         else if ?l = c then Some (MHit (int p) []) else scanLabels s c i (int n) (int (p + 1)) [])"
      using g False ix nw by (subst scanLabels.simps) (auto simp: add.commute)
    have IH: "case mwalkScan c (childrenFrom s n (p + 1)) of
           Inl True \<Rightarrow> scanLabels s c i (int n) (int (p + 1)) [] = Some MTrue
         | Inl False \<Rightarrow> \<exists>q. scanLabels s c i (int n) (int (p + 1)) [] = Some (MEnd q [])
         | Inr k \<Rightarrow> (\<exists>q. scanLabels s c i (int n) (int (p + 1)) [] = Some (MHit (int q) []) \<and> countZeros s (int q + 1) = Some (int k) \<and>
                      1 \<le> k \<and> k \<le> length (sb_labels s))"
      by (rule less.hyps) (use e(5) [OF False] nxt in auto)
    show ?thesis
    proof (cases "?l = complexWildcardByte \<or> ?l \<noteq> c")
      case True
      then show ?thesis using IH unfolding cs step by (auto split: sum.splits bool.splits)
    next
      case ne: False
      then have "mwalkScan c (childrenFrom s n p) = Inr ?k" "scanLabels s c i (int n) (int p) [] = Some (MHit (int p) [])"
        unfolding cs step by auto
      then show ?thesis using z e(4) [OF False] by auto
    qed
  qed
qed

lemma mihomoLoop_walk:
  assumes "shaped s" "wildcardByte \<notin> set (sb_labels s)"
  shows "starts s n p \<Longrightarrow> n \<le> length (sb_labels s) \<Longrightarrow> i \<le> length key \<Longrightarrow>
    mihomoLoop s key (i, int n, int p, []) = Inr (mwalk s (drop i (map lowerByte (rev key))) n)"
proof (induction "length key - i" arbitrary: i n p)
  case 0
  then show ?case using getBit_leaves [OF assms(1) 0(3)] by (simp add: mihomoLoop.simps orPanic_def)
next
  case (Suc m)
  then have i: "i < length key" by simp
  have o1: "ones (take p (lbits s)) = n" using Suc by (simp add: starts_def)
  have ch: "childrenFrom s n p = children s n" using shaped_edge(2) [OF assms(1) o1 Suc(4)] Suc(3) by (intro starts_children) simp_all
  let ?c = "revLowerAt key i"
  note sc = scanLabels_walk [OF assms(1) o1 Suc(4) assms(2), of ?c i, unfolded ch]
  have c: "drop i (map lowerByte (rev key)) = ?c # drop (i + 1) (map lowerByte (rev key))"
    using i by (simp add: revLowerAt_def rev_nth Cons_nth_drop_Suc [symmetric])
  show ?case
  proof (cases "mwalkScan ?c (children s n)")
    case (Inl r)
    then show ?thesis using sc i c by (cases r) (auto simp: mihomoLoop.simps orPanic_def popCursor_def)
  next
    case (Inr k)
    then obtain q where q: "scanLabels s ?c i (int n) (int p) [] = Some (MHit (int q) [])" "countZeros s (int q + 1) = Some (int k)"
      and k: "1 \<le> k" "k \<le> length (sb_labels s)" using sc by auto
    have "k - 1 < ones (lbits s)" using k assms by (simp add: shaped_def)
    then obtain m' where m: "m' < length (lbits s)" "selectIthOne s (int (k - 1)) = Some (int m')" "lbits s ! m'" "ones (take m' (lbits s)) = k - 1"
      using select_correct assms unfolding shaped_def by blast
    have st: "starts s k (m' + 1)" using m k(1) ones_take_Suc [OF m(1)] by (simp add: starts_def)
    have "mihomoLoop s key (i + 1, int k, int (m' + 1), []) = Inr (mwalk s (drop (i + 1) (map lowerByte (rev key))) k)"
      by (rule Suc.hyps(1) [OF _ st k(2)]) (use Suc.hyps(2) i in auto)
    moreover have "selectIthOne s (int k - 1) = Some (int m')" using m(2) k(1) by (simp add: of_nat_diff)
    ultimately show ?thesis using q Inr i unfolding c by (subst mihomoLoop.simps) (simp add: add.commute orPanic_def)
  qed
qed

text \<open>
  A plain key stands for itself, a key ending in the complex wildcard for every longer name that begins with it
  (names reversed and in lower case).
\<close>

definition mcovers :: "bytes \<Rightarrow> bytes \<Rightarrow> bool" where
  "mcovers w key = (w = key \<or> (\<exists>u c v. w = u @ [complexWildcardByte] \<and> key = u @ c # v))"

definition morderly :: "succinctBits \<Rightarrow> bool" where
  "morderly s = (wildcardByte \<notin> set (sb_labels s) \<and>
     list_all (\<lambda>n. sorted_wrt (<) (map fst (children s n)) \<and>
       list_all (\<lambda>(l, k). l = complexWildcardByte \<longrightarrow> leaf s k) (children s n)) [0..<length (sb_labels s) + 1])"

definition mplain :: "u8 \<Rightarrow> bool" where
  "mplain c = (43 < unat c \<and> unat c < 128)"

lemma mcovers_simps:
  "mcovers w [] \<longleftrightarrow> w = []"
  "mcovers w (c # key) \<longleftrightarrow> w = [complexWildcardByte] \<or> (\<exists>w'. w = c # w' \<and> mcovers w' key)"
proof -
  show "mcovers w [] \<longleftrightarrow> w = []" by (auto simp: mcovers_def)
  show "mcovers w (c # key) \<longleftrightarrow> w = [complexWildcardByte] \<or> (\<exists>w'. w = c # w' \<and> mcovers w' key)" (is "_ \<longleftrightarrow> ?r")
  proof
    assume "mcovers w (c # key)"
    then consider "w = c # key" | u d v where "w = u @ [complexWildcardByte]" "c # key = u @ d # v" unfolding mcovers_def by blast
    then show ?r
    proof cases
      case 2
      then show ?thesis by (cases u) (auto simp: mcovers_def)
    qed (simp add: mcovers_def)
  next
    assume ?r
    then show "mcovers w (c # key)" unfolding mcovers_def by (metis append_Cons append_Nil)
  qed
qed

lemma morderlyD:
  assumes "morderly s" "n \<le> length (sb_labels s)"
  shows "sorted_wrt (<) (map fst (children s n))" "(complexWildcardByte, k) \<in> set (children s n) \<Longrightarrow> leaf s k"
proof -
  have "n \<in> set [0..<length (sb_labels s) + 1]" using assms(2) by auto
  then have "sorted_wrt (<) (map fst (children s n)) \<and> list_all (\<lambda>(l, k). l = complexWildcardByte \<longrightarrow> leaf s k) (children s n)"
    using assms(1) unfolding morderly_def list_all_iff [of _ "[0..<length (sb_labels s) + 1]"] by blast
  then show "sorted_wrt (<) (map fst (children s n))" "(complexWildcardByte, k) \<in> set (children s n) \<Longrightarrow> leaf s k"
    by (auto simp: list_all_iff)
qed

lemma mwalkScan_ordered:
  assumes "mplain c"
  shows "sorted_wrt (<) (map fst cs) \<Longrightarrow>
    mwalkScan c cs = (if \<exists>k. (complexWildcardByte, k) \<in> set cs then Inl True
       else case map_of cs c of None \<Rightarrow> Inl False | Some k \<Rightarrow> Inr k)"
proof (induction cs)
  case (Cons x cs)
  obtain l k where x: "x = (l, k)" by (cases x)
  have gt: "l' > l" if "(l', k') \<in> set cs" for l' k' using Cons.prems that x by (force simp: image_iff)
  have c: "c > 43" using assms by (simp add: mplain_def word_less_nat_alt)
  show ?case
  proof (cases "l = c")
    case True
    then have "(complexWildcardByte, k') \<notin> set cs" for k' using gt [of 43 k'] c by (auto dest: order.asym)
    then show ?thesis using True x c by auto
  next
    case False
    then show ?thesis using Cons x by auto
  qed
qed simp

lemma mwalk_means:
  assumes "shaped s" "morderly s"
  shows "list_all mplain key \<Longrightarrow> n \<le> length (sb_labels s) \<Longrightarrow> mwalk s key n = (\<exists>w. keyFrom s n w \<and> mcovers w key)"
proof (induction key arbitrary: n)
  case Nil
  show ?case by (simp add: mcovers_simps)
next
  case (Cons c key)
  let ?cs = "children s n"
  have c: "mplain c" and ks: "list_all mplain key" using Cons.prems(1) by auto
  have m: "keyFrom s n [complexWildcardByte] \<longleftrightarrow> (\<exists>k. (complexWildcardByte, k) \<in> set ?cs)"
    using morderlyD(2) [OF assms(2) Cons.prems(2)]
    by (auto dest: map_of_SomeD simp: map_of_eq_None_iff image_iff split: option.split)
  have "(\<exists>w. keyFrom s n w \<and> mcovers w (c # key)) \<longleftrightarrow> keyFrom s n [complexWildcardByte] \<or> (\<exists>w. keyFrom s n (c # w) \<and> mcovers w key)"
    unfolding mcovers_simps by blast
  moreover have "(\<exists>w. keyFrom s n (c # w) \<and> mcovers w key) \<longleftrightarrow> (case map_of ?cs c of None \<Rightarrow> False | Some k \<Rightarrow> mwalk s key k)"
    using Cons.IH [OF ks] child_bound [OF assms(1) Cons.prems(2)] by (auto dest: map_of_SomeD split: option.split)
  ultimately show ?case unfolding mwalk.simps mwalkScan_ordered [OF c morderlyD(1) [OF assms(2) Cons.prems(2)]] m
    by (auto split: option.split)
qed

text \<open>
  On a well-formed set without single-label wildcards the .mrs matcher is exact: a host matches
  when its reversed lower-case form is a key, or when it is longer than the part of a key before a
  complex wildcard and begins with it.
\<close>

theorem mrs_domain_match:
  assumes "shaped s" "morderly s" "key = map lowerByte (bytes_of_string domain)" "list_all mplain (bytes_of_string domain)"
  shows "mihomo_MatchDomain s domain = Inr (\<exists>w. keyFrom s 0 w \<and> mcovers w (rev key))"
proof -
  have "\<not> list_ex (\<lambda>c. c \<ge> 0x80) (bytes_of_string domain)"
    using assms(4) by (auto simp: list_all_iff list_ex_iff mplain_def word_le_nat_alt)
  moreover have "list_all mplain (rev key)" using assms(3,4)
    by (auto simp: list_all_iff mplain_def lowerByte_def word_le_nat_alt unat_word_ariths)
  moreover have "starts s 0 0" by (simp add: starts_def)
  ultimately show ?thesis using mihomoLoop_walk [OF assms(1), of 0 0 0 "bytes_of_string domain"] mwalk_means [OF assms(1,2), of "rev key" 0] assms(2,3)
    by (simp add: mihomo_MatchDomain_def morderly_def rev_map)
qed

section \<open>Two small sets\<close>

text \<open>Everything below \<open>a\<close>; and \<open>*.x\<close> beside the longer \<open>a.b.x\<close>.\<close>

definition plusSet :: succinctBits where
  "plusSet = newSuccinctBits [8] [106] [97, 46, 43]"

lemma plusSet_lbits: "lbits plusSet = [False, True, False, True, False, True, True] @ replicate 57 False"
  unfolding plusSet_def newSuccinctBits_def bitsOf_def upt64 by (simp add: numeral_eq_Suc)

lemma plusSet_check: "singCheck [8] [106] [97, 46, 43] = Some plusSet"
  unfolding singCheck_def plusSet_def by (simp add: onesCount64_def leadingZeros64_def upt64)

lemma plusSet_children:
  "children plusSet 0 = [(97, 1)]" "children plusSet 1 = [(46, 2)]" "children plusSet 2 = [(43, 3)]" "children plusSet 3 = []"
proof -
  note b = plusSet_lbits
  have st: "starts plusSet 1 2" "starts plusSet 2 4" "starts plusSet 3 6"
    by (simp_all add: starts_def b numeral_eq_Suc del: length_bitsOf)
  then have ch: "children plusSet 1 = childrenFrom plusSet 1 2"
      "children plusSet 2 = childrenFrom plusSet 2 4" "children plusSet 3 = childrenFrom plusSet 3 6"
    using starts_children [OF st(1)] starts_children [OF st(2)] starts_children [OF st(3)]
    by (simp_all add: b del: length_bitsOf)
  have e: "childrenFrom plusSet 0 1 = []" "childrenFrom plusSet 1 3 = []" "childrenFrom plusSet 2 5 = []" "childrenFrom plusSet 3 6 = []"
    by (rule childrenFrom_one; simp add: b numeral_eq_Suc del: length_bitsOf)+
  have "childrenFrom plusSet 0 0 = childAt plusSet 0 0 # childrenFrom plusSet 0 (0 + 1)"
    "childrenFrom plusSet 1 2 = childAt plusSet 1 2 # childrenFrom plusSet 1 (2 + 1)"
    "childrenFrom plusSet 2 4 = childAt plusSet 2 4 # childrenFrom plusSet 2 (4 + 1)"
    by (rule childrenFrom_zero; simp add: b numeral_eq_Suc del: length_bitsOf)+
  then show "children plusSet 0 = [(97, 1)]" "children plusSet 1 = [(46, 2)]" "children plusSet 2 = [(43, 3)]" "children plusSet 3 = []"
    unfolding ch using e by (simp_all add: childAt_def plusSet_def newSuccinctBits_def)
qed

lemma plusSet_morderly: "morderly plusSet"
proof -
  have "[0..<length (sb_labels plusSet) + 1] = [0, 1, 2, 3]" "leaf plusSet 3" "42 \<notin> set (sb_labels plusSet)"
    by (simp_all add: plusSet_def newSuccinctBits_def leaf_def upt_rec)
  then show ?thesis unfolding morderly_def by (simp only: list.pred_inject plusSet_children) simp
qed

theorem mrs_domain_match_witness:
  "mihomo_MatchDomain plusSet ''X.a'' = Inr True"
proof -
  have s: "shaped plusSet" using singCheck_shaped(1) [OF plusSet_check] by (simp add: fits_def)
  have p: "list_all mplain (bytes_of_string ''X.a'')" by (simp add: mplain_def bytes_of_string_def byte_of_char_def)
  have k: "[120, 46, 97] = map lowerByte (bytes_of_string ''X.a'')" by (simp add: lowerByte_def bytes_of_string_def byte_of_char_def)
  have "keyFrom plusSet 0 [97, 46, 43]" using plusSet_children by (simp add: plusSet_def newSuccinctBits_def leaf_def)
  moreover have "mcovers [97, 46, 43] (rev [120, 46, 97])" by (simp add: mcovers_def)
  ultimately show ?thesis unfolding mrs_domain_match [OF s plusSet_morderly k p] by blast
qed

definition starSet :: succinctBits where
  "starSet = newSuccinctBits [72] [6858] [120, 46, 42, 98, 46, 97]"

lemma starSet_ones: "onesCount64 6858 = 7" unfolding onesCount64_def upt64 by simp

lemma starSet_select:
  "selectIthOne starSet 0 = Some 1" "selectIthOne starSet 1 = Some 3" "selectIthOne starSet 2 = Some 6" "selectIthOne starSet 3 = Some 7"
  unfolding selectIthOne_def starSet_def newSuccinctBits_def upt64
  by (simp_all add: searchLoop.simps starSet_ones int32_id idx_def)

lemma starSet_zeros:
  "countZeros starSet 1 = Some 1" "countZeros starSet 3 = Some 2" "countZeros starSet 5 = Some 3" "countZeros starSet 6 = Some 4"
  unfolding countZeros_def sb_rank_def starSet_def newSuccinctBits_def onesCount64_def upt64
  by (simp_all add: idx_def)

lemma starSet_bits:
  "getBit (sb_labelBitmap starSet) 0 = Some False" 
  "getBit (sb_labelBitmap starSet) 2 = Some False" 
  "getBit (sb_labelBitmap starSet) 4 = Some False" "getBit (sb_labelBitmap starSet) 5 = Some False" "getBit (sb_labelBitmap starSet) 6 = Some True"
  "getBit (sb_leaves starSet) 3 = Some True" "getBit (sb_leaves starSet) 4 = Some False"
  by (simp_all add: getBit_def idx_def starSet_def newSuccinctBits_def)

lemma starSet_labels:
  "idx (sb_labels starSet) 0 = Some 120" "idx (sb_labels starSet) 1 = Some 46" "idx (sb_labels starSet) 2 = Some 42"
  "idx (sb_labels starSet) 3 = Some 98"
  by (simp_all add: idx_def starSet_def newSuccinctBits_def)

lemmas starSet_eval = starSet_select starSet_zeros starSet_bits starSet_labels

lemma star_b: "mihomoLoop starSet [98, 46, 120] (0, 0, 0, []) = Inr False"
  by (simp add: mihomoLoop.simps scanLabels.simps orPanic_def revLowerAt_def lowerByte_def starSet_eval)

lemma star_c: "mihomoLoop starSet [99, 46, 120] (0, 0, 0, []) = Inr True"
  by (simp add: mihomoLoop.simps scanLabels.simps orPanic_def popCursor_def stepEnd.simps revLowerAt_def lowerByte_def starSet_eval)

lemma starSet_lbits:
  "lbits starSet = [False, True, False, True, False, False, True, True, False, True, False, True, True] @ replicate 51 False"
  unfolding starSet_def newSuccinctBits_def bitsOf_def upt64 by (simp add: numeral_eq_Suc)

lemma starSet_children:
  "children starSet 0 = [(120, 1)]" "children starSet 1 = [(46, 2)]" "children starSet 2 = [(42, 3), (98, 4)]"
  "children starSet 4 = [(46, 5)]" "children starSet 5 = [(97, 6)]"
proof -
  note b = starSet_lbits
  have st: "starts starSet 1 2" "starts starSet 2 4" "starts starSet 4 8" "starts starSet 5 10"
    by (simp_all add: starts_def b numeral_eq_Suc del: length_bitsOf)
  then have ch: "children starSet 1 = childrenFrom starSet 1 2" "children starSet 2 = childrenFrom starSet 2 4"
      "children starSet 4 = childrenFrom starSet 4 8" "children starSet 5 = childrenFrom starSet 5 10"
    using starts_children [OF st(1)] starts_children [OF st(2)] starts_children [OF st(3)] starts_children [OF st(4)]
    by (simp_all add: b del: length_bitsOf)
  have e: "childrenFrom starSet 0 1 = []" "childrenFrom starSet 1 3 = []" "childrenFrom starSet 2 6 = []"
      "childrenFrom starSet 4 9 = []" "childrenFrom starSet 5 11 = []"
    by (rule childrenFrom_one; simp add: b numeral_eq_Suc del: length_bitsOf)+
  have "childrenFrom starSet 0 0 = childAt starSet 0 0 # childrenFrom starSet 0 (0 + 1)"
    "childrenFrom starSet 1 2 = childAt starSet 1 2 # childrenFrom starSet 1 (2 + 1)"
    "childrenFrom starSet 2 4 = childAt starSet 2 4 # childrenFrom starSet 2 (4 + 1)"
    "childrenFrom starSet 2 5 = childAt starSet 2 5 # childrenFrom starSet 2 (5 + 1)"
    "childrenFrom starSet 4 8 = childAt starSet 4 8 # childrenFrom starSet 4 (8 + 1)"
    "childrenFrom starSet 5 10 = childAt starSet 5 10 # childrenFrom starSet 5 (10 + 1)"
    by (rule childrenFrom_zero; simp add: b numeral_eq_Suc del: length_bitsOf)+
  then show "children starSet 0 = [(120, 1)]" "children starSet 1 = [(46, 2)]" "children starSet 2 = [(42, 3), (98, 4)]"
      "children starSet 4 = [(46, 5)]" "children starSet 5 = [(97, 6)]"
    unfolding ch using e by (simp_all add: childAt_def starSet_def newSuccinctBits_def)
qed


end
