(* ===== verification/RuleText.thy ===== *)
theory RuleText
  imports Srs MrsSet
begin

text \<open>
  Rule sets as text and the provider that picks a reader by the first bytes (\<open>ruleset/ruleset.go\<close>): a set
  built from a list matches a host exactly when some line of the list does.
\<close>

section \<open>Domain sets\<close>

record domainSet =
  ds_exact :: "string list"
  ds_suffix :: "string list"
  ds_keyword :: "string list"

definition emptyDomainSet :: domainSet where
  "emptyDomainSet = \<lparr> ds_exact = [], ds_suffix = [], ds_keyword = [] \<rparr>"

definition ds_MatchDomain :: "domainSet \<Rightarrow> string \<Rightarrow> bool" where
  "ds_MatchDomain d host =
    (host \<in> set (ds_exact d)
     \<or> list_ex (\<lambda>s. s \<in> set (ds_suffix d)) (labelChain host)
     \<or> list_ex (\<lambda>k. contains host k) (ds_keyword d))"

type_synonym textIpSet = "Prefix list"

definition text_MatchIP :: "textIpSet \<Rightarrow> Addr \<Rightarrow> bool" where
  "text_MatchIP ps ip = list_ex (\<lambda>p. pfx_Contains p ip) ps"

definition norm_dom :: "string \<Rightarrow> string" where
  "norm_dom d = toLower (trimSuffix d ''.'')"

definition addExact :: "string \<Rightarrow> domainSet \<Rightarrow> domainSet" where
  "addExact x d = d \<lparr> ds_exact := norm_dom x # ds_exact d \<rparr>"

definition addSuffix :: "string \<Rightarrow> domainSet \<Rightarrow> domainSet" where
  "addSuffix x d = d \<lparr> ds_suffix := norm_dom x # ds_suffix d \<rparr>"

definition addKeyword :: "string \<Rightarrow> domainSet \<Rightarrow> domainSet" where
  "addKeyword x d = d \<lparr> ds_keyword := ds_keyword d @ [toLower x] \<rparr>"

section \<open>Lines\<close>

text \<open>
  \<open>bufio.Scanner\<close> over the whole text: lines without their end, the last one only when not empty, and
  nothing more from the first line that does not fit the buffer of 4 MiB (the scanner's error is not asked for).
\<close>

definition maxToken :: nat where
  "maxToken = 4 * 1024 * 1024"

definition scanLines :: "string \<Rightarrow> string list" where
  "scanLines data =
    (let ls = splitByte data (char_of (10 :: nat));
         ls = (if last ls = [] then butlast ls else ls) in
     map (\<lambda>l. trimSuffix l [char_of (13 :: nat)]) (takeWhile (\<lambda>l. length l < maxToken) ls))"

definition lineOf :: "string \<Rightarrow> string option" where
  "lineOf text =
    (let line = trimSpace text in
     if line = [] \<or> hasPrefix line ''#'' \<or> hasPrefix line ''//'' then None
     else Some (case index_of line '' #'' of None \<Rightarrow> line | Some i \<Rightarrow> trimSpace (take i line)))"

definition forEachLine :: "string \<Rightarrow> (string \<Rightarrow> 's \<Rightarrow> 's) \<Rightarrow> 's \<Rightarrow> 's" where
  "forEachLine data fn s = fold (\<lambda>text s. case lineOf text of None \<Rightarrow> s | Some line \<Rightarrow> fn line s) (scanLines data) s"

section \<open>The three formats\<close>

definition parseDomainLine :: "string \<Rightarrow> domainSet \<Rightarrow> domainSet" where
  "parseDomainLine line d =
    (if hasPrefix line ''full:'' then addExact (drop 5 line) d
     else if hasPrefix line ''keyword:'' then addKeyword (drop 8 line) d
     else if hasPrefix line ''domain:'' then addSuffix (drop 7 line) d
     else if hasPrefix line ''+.'' then addSuffix (drop 2 line) d
     else if hasPrefix line ''.'' then addSuffix (drop 1 line) d
     else addSuffix line d)"

definition ParseDomainList :: "string \<Rightarrow> domainSet" where
  "ParseDomainList data = forEachLine data parseDomainLine emptyDomainSet"

definition ipLine :: "string \<Rightarrow> string" where
  "ipLine line =
    (let f = splitNByte 3 line (CHR '','') in
     if length f \<ge> 2 \<and> toUpper (trimSpace (f ! 0)) \<in> {''IP-CIDR'', ''IP-CIDR6''} then trimSpace (f ! 1) else line)"

definition ipOfLine :: "string \<Rightarrow> Prefix option" where
  "ipOfLine line =
    (case ParsePrefix (ipLine line) of
       Some p \<Rightarrow> Some p
     | None \<Rightarrow> (case ParseAddr (ipLine line) of Some ip \<Rightarrow> Some (PrefixFrom ip (int (BitLen ip))) | None \<Rightarrow> None))"

definition ParseIPList :: "string \<Rightarrow> textIpSet" where
  "ParseIPList data = forEachLine data (\<lambda>line s. case ipOfLine line of Some p \<Rightarrow> s @ [p] | None \<Rightarrow> s) []"

definition classicalLine :: "string \<Rightarrow> domainSet \<Rightarrow> domainSet" where
  "classicalLine line d =
    (let f = splitNByte 3 line (CHR '','') in
     if length f < 2 then d
     else
       (let val = trimSpace (f ! 1); t = toUpper (trimSpace (f ! 0)) in
        if t = ''DOMAIN'' then addExact val d
        else if t = ''DOMAIN-SUFFIX'' then addSuffix val d
        else if t = ''DOMAIN-KEYWORD'' then addKeyword val d
        else d))"

definition ParseClassical :: "string \<Rightarrow> domainSet" where
  "ParseClassical data = forEachLine data classicalLine emptyDomainSet"

section \<open>Providers\<close>

datatype rsFormat = FmtText | FmtMRS | FmtSRS

definition detectFormat :: "bytes \<Rightarrow> rsFormat" where
  "detectFormat b =
    (if length b \<ge> 4 \<and> take 4 b = [0x28, 0xb5, 0x2f, 0xfd] then FmtMRS
     else if length b \<ge> 3 \<and> take 3 b = bytes_of_string ''SRS'' then FmtSRS
     else FmtText)"

datatype anyDomainSet = TextDomains domainSet | MrsDomains succinctBits | SrsDomains domainUnion

datatype anyIpSet = TextIPs textIpSet | MrsIPs ipRangeSet | SrsIPs "ipAddrRangeSet list"

datatype loadErr = LoadFailed | LoadMrs mrsErr | LoadSrs srsErr

text \<open>The file or the download, the decompressors and the regular expressions are arguments.\<close>

record provider =
  pv_Behavior :: string
  pv_load :: "bytes option"
  pv_zstd :: "bytes \<Rightarrow> bytes option"
  pv_zlib :: "bytes \<Rightarrow> bytes option"
  pv_compile :: compiler

definition LoadDomain :: "provider \<Rightarrow> (loadErr, anyDomainSet) result" where
  "LoadDomain p =
    (case pv_load p of
       None \<Rightarrow> Inl LoadFailed
     | Some data \<Rightarrow>
         (case detectFormat data of
            FmtMRS \<Rightarrow> (case ParseMRSDomain (pv_zstd p) data of Inl e \<Rightarrow> Inl (LoadMrs e) | Inr s \<Rightarrow> Inr (MrsDomains s))
          | FmtSRS \<Rightarrow> (case ParseSRSDomain (pv_zlib p) (pv_compile p) data of Inl e \<Rightarrow> Inl (LoadSrs e) | Inr u \<Rightarrow> Inr (SrsDomains u))
          | FmtText \<Rightarrow>
              if pv_Behavior p = ''classical'' then Inr (TextDomains (ParseClassical (string_of_bytes data)))
              else Inr (TextDomains (ParseDomainList (string_of_bytes data)))))"

definition LoadIP :: "provider \<Rightarrow> (loadErr, anyIpSet) result" where
  "LoadIP p =
    (case pv_load p of
       None \<Rightarrow> Inl LoadFailed
     | Some data \<Rightarrow>
         (case detectFormat data of
            FmtMRS \<Rightarrow> (case ParseMRSIP (pv_zstd p) data of Inl e \<Rightarrow> Inl (LoadMrs e) | Inr s \<Rightarrow> Inr (MrsIPs s))
          | FmtSRS \<Rightarrow> (case ParseSRSIP (pv_zlib p) (pv_compile p) data of Inl e \<Rightarrow> Inl (LoadSrs e) | Inr u \<Rightarrow> Inr (SrsIPs u))
          | FmtText \<Rightarrow> Inr (TextIPs (ParseIPList (string_of_bytes data)))))"

fun any_MatchIP :: "anyIpSet \<Rightarrow> Addr \<Rightarrow> bool" where
  "any_MatchIP (TextIPs s) ip = text_MatchIP s ip"
| "any_MatchIP (MrsIPs s) ip = mrs_MatchIP s ip"
| "any_MatchIP (SrsIPs u) ip = union_MatchIP u ip"

section \<open>A set matches what a line of it says\<close>

definition underDomain :: "string \<Rightarrow> string \<Rightarrow> bool" where
  "underDomain x host = (x \<noteq> [] \<and> (host = x \<or> hasSuffix host (''.'' @ x)))"

lemma ds_match_simps [simp]:
  "ds_MatchDomain emptyDomainSet host = False"
  "ds_MatchDomain (addExact x d) host = (host = norm_dom x \<or> ds_MatchDomain d host)"
  "ds_MatchDomain (addSuffix x d) host = (underDomain (norm_dom x) host \<or> ds_MatchDomain d host)"
  "ds_MatchDomain (addKeyword x d) host = (contains host (toLower x) \<or> ds_MatchDomain d host)"
  by (auto simp: ds_MatchDomain_def emptyDomainSet_def addExact_def addSuffix_def addKeyword_def underDomain_def list_ex_iff labelChain_iff)

text \<open>What a line of a list, and of a classical list, says of a host.\<close>

definition lineHits :: "string \<Rightarrow> string \<Rightarrow> bool" where
  "lineHits line host =
    (if hasPrefix line ''full:'' then host = norm_dom (drop 5 line)
     else if hasPrefix line ''keyword:'' then contains host (toLower (drop 8 line))
     else if hasPrefix line ''domain:'' then underDomain (norm_dom (drop 7 line)) host
     else if hasPrefix line ''+.'' then underDomain (norm_dom (drop 2 line)) host
     else if hasPrefix line ''.'' then underDomain (norm_dom (drop 1 line)) host
     else underDomain (norm_dom line) host)"

definition classicalHits :: "string \<Rightarrow> string \<Rightarrow> bool" where
  "classicalHits line host =
    (case splitNByte 3 line (CHR '','') of
       t # v # _ \<Rightarrow>
         (let kind = toUpper (trimSpace t); val = trimSpace v in
          (kind = ''DOMAIN'' \<and> host = norm_dom val)
          \<or> (kind = ''DOMAIN-SUFFIX'' \<and> underDomain (norm_dom val) host)
          \<or> (kind = ''DOMAIN-KEYWORD'' \<and> contains host (toLower val)))
     | _ \<Rightarrow> False)"

definition ruleLines :: "string \<Rightarrow> string list" where
  "ruleLines data = List.map_filter lineOf (scanLines data)"

lemma forEachLine_fold: "forEachLine data fn s = fold fn (ruleLines data) s"
proof -
  have "fold (\<lambda>text s. case lineOf text of None \<Rightarrow> s | Some line \<Rightarrow> fn line s) ls s = fold fn (List.map_filter lineOf ls) s" for ls
    by (induction ls arbitrary: s) (auto simp: map_filter_simps split: option.split)
  then show ?thesis by (simp add: forEachLine_def ruleLines_def)
qed

lemma fold_hits:
  "(\<And>line d. ds_MatchDomain (f line d) host \<longleftrightarrow> hits line \<or> ds_MatchDomain d host) \<Longrightarrow>
    ds_MatchDomain (fold f ls d) host \<longleftrightarrow> list_ex hits ls \<or> ds_MatchDomain d host"
  by (induction ls arbitrary: d) auto

lemma parseDomainLine_hits: "ds_MatchDomain (parseDomainLine line d) host \<longleftrightarrow> lineHits line host \<or> ds_MatchDomain d host"
  by (simp add: parseDomainLine_def lineHits_def)

lemma classicalLine_hits: "ds_MatchDomain (classicalLine line d) host \<longleftrightarrow> classicalHits line host \<or> ds_MatchDomain d host"
proof -
  obtain f where f: "splitNByte 3 line (CHR '','') = f" by blast
  show ?thesis unfolding classicalLine_def classicalHits_def f by (auto simp: Let_def split: list.split)
qed

lemma ipList_fold: "fold (\<lambda>line s. case ipOfLine line of Some p \<Rightarrow> s @ [p] | None \<Rightarrow> s) ls s = s @ List.map_filter ipOfLine ls"
  by (induction ls arbitrary: s) (auto simp: map_filter_simps split: option.split)

text \<open>
  A domain list, a classical list and an address list match exactly what one of their lines says:
  the scan stops nowhere before a line of 4 MiB, comments and blank lines say nothing, and every other
  line contributes its exact name, its name and the names below it, its keyword or its prefix.
\<close>

theorem text_list_match:
  "ds_MatchDomain (ParseDomainList data) host = list_ex (\<lambda>line. lineHits line host) (ruleLines data)
   \<and> ds_MatchDomain (ParseClassical data) host = list_ex (\<lambda>line. classicalHits line host) (ruleLines data)
   \<and> text_MatchIP (ParseIPList data) ip
       = list_ex (\<lambda>line. case ipOfLine line of None \<Rightarrow> False | Some p \<Rightarrow> pfx_Contains p ip) (ruleLines data)"
proof (intro conjI)
  show "ds_MatchDomain (ParseDomainList data) host = list_ex (\<lambda>line. lineHits line host) (ruleLines data)"
    unfolding ParseDomainList_def forEachLine_fold by (subst fold_hits [where hits = "\<lambda>line. lineHits line host"]) (simp_all add: parseDomainLine_hits)
  show "ds_MatchDomain (ParseClassical data) host = list_ex (\<lambda>line. classicalHits line host) (ruleLines data)"
    unfolding ParseClassical_def forEachLine_fold by (subst fold_hits [where hits = "\<lambda>line. classicalHits line host"]) (simp_all add: classicalLine_hits)
  have "list_ex P (List.map_filter f xs) = list_ex (\<lambda>x. case f x of None \<Rightarrow> False | Some y \<Rightarrow> P y) xs" for P and f :: "string \<Rightarrow> Prefix option" and xs
    by (induction xs) (auto simp: map_filter_simps split: option.split)
  then show "text_MatchIP (ParseIPList data) ip = list_ex (\<lambda>line. case ipOfLine line of None \<Rightarrow> False | Some p \<Rightarrow> pfx_Contains p ip) (ruleLines data)"
    unfolding ParseIPList_def forEachLine_fold ipList_fold text_MatchIP_def by simp
qed

end
