(* ===== verification/KcpSegment.thy ===== *)
theory KcpSegment
  imports Wire GoStrings
begin

text \<open>
  The wire format of mKCP (\<open>transport/mkcp/internal/mkcpcore\<close>: \<open>segment.go\<close>, \<open>auth.go\<close>, \<open>header.go\<close>, \<open>packet.go\<close>): segments, the
  keyless authenticator, the disguise headers, and packets made of them.  What the writer sends is
  what the reader takes apart.
\<close>

unbundle bit_operations_syntax

section \<open>Segments\<close>

abbreviation (input) "commandACK \<equiv> (0 :: u8)"
abbreviation (input) "commandData \<equiv> (1 :: u8)"
abbreviation (input) "commandTerminate \<equiv> (2 :: u8)"
abbreviation (input) "commandPing \<equiv> (3 :: u8)"
abbreviation (input) "segmentOptionClose \<equiv> (1 :: u8)"
abbreviation (input) "dataSegmentOverhead \<equiv> (18 :: nat)"

record dataSegment =
  dg_conv :: u16
  dg_option :: u8
  dg_timestamp :: u32
  dg_number :: u32
  dg_sendingNext :: u32
  dg_payload :: bytes
  dg_timeout :: u32
  dg_transmit :: u32

record ackSegment =
  ak_conv :: u16
  ak_option :: u8
  ak_receivingWindow :: u32
  ak_receivingNext :: u32
  ak_timestamp :: u32
  ak_numberList :: "u32 list"

record cmdOnlySegment =
  co_conv :: u16
  co_cmd :: u8
  co_option :: u8
  co_sendingNext :: u32
  co_receivingNext :: u32
  co_peerRTO :: u32

datatype segment = SData dataSegment | SAck ackSegment | SCmd cmdOnlySegment

fun seg_conversation :: "segment \<Rightarrow> u16" where
  "seg_conversation (SData s) = dg_conv s"
| "seg_conversation (SAck s) = ak_conv s"
| "seg_conversation (SCmd s) = co_conv s"

fun seg_command :: "segment \<Rightarrow> u8" where
  "seg_command (SData s) = commandData"
| "seg_command (SAck s) = commandACK"
| "seg_command (SCmd s) = co_cmd s"

fun byteSize :: "segment \<Rightarrow> nat" where
  "byteSize (SData s) = dataSegmentOverhead + length (dg_payload s)"
| "byteSize (SAck s) = 17 + length (ak_numberList s) * 4"
| "byteSize (SCmd s) = 16"

text \<open>\<open>serialize\<close> fills a buffer of \<^const>\<open>byteSize\<close> bytes.\<close>

fun seg_serialize :: "segment \<Rightarrow> bytes" where
  "seg_serialize (SData s) =
    be16 (dg_conv s) @ [commandData, dg_option s] @ be32 (dg_timestamp s) @ be32 (dg_number s) @ be32 (dg_sendingNext s)
    @ be16 (word_of_nat (length (dg_payload s))) @ dg_payload s"
| "seg_serialize (SAck s) =
    be16 (ak_conv s) @ [commandACK, ak_option s] @ be32 (ak_receivingWindow s) @ be32 (ak_receivingNext s) @ be32 (ak_timestamp s)
    @ [word_of_nat (length (ak_numberList s))] @ concat (map be32 (ak_numberList s))"
| "seg_serialize (SCmd s) =
    be16 (co_conv s) @ [co_cmd s, co_option s] @ be32 (co_sendingNext s) @ be32 (co_receivingNext s) @ be32 (co_peerRTO s)"

definition u16At :: "bytes \<Rightarrow> nat \<Rightarrow> u16" where
  "u16At b i = get16 (b ! i) (b ! (i + 1))"

definition u32At :: "bytes \<Rightarrow> nat \<Rightarrow> u32" where
  "u32At b i = get32 (b ! i) (b ! (i + 1)) (b ! (i + 2)) (b ! (i + 3))"

fun readNumbers :: "nat \<Rightarrow> bytes \<Rightarrow> u32 list" where
  "readNumbers 0 p = []"
| "readNumbers (Suc n) p = u32At p 0 # readNumbers n (drop 4 p)"

definition readSegment :: "bytes \<Rightarrow> (segment \<times> bytes) option" where
  "readSegment b =
    (if length b < 4 then None
     else
       (let conv = u16At b 0; cmd = b ! 2; opt = b ! 3; b = drop 4 b in
        if cmd = commandData then
          (if length b < 14 then None
           else
             (let dataLen = unat (u16At b 12) in
              if length b < 14 + dataLen then None
              else Some (SData \<lparr> dg_conv = conv, dg_option = opt, dg_timestamp = u32At b 0, dg_number = u32At b 4,
                                 dg_sendingNext = u32At b 8, dg_payload = take dataLen (drop 14 b), dg_timeout = 0, dg_transmit = 0 \<rparr>,
                         drop (14 + dataLen) b)))
        else if cmd = commandACK then
          (if length b < 13 then None
           else
             (let count = unat (b ! 12) in
              if length b < 13 + count * 4 then None
              else Some (SAck \<lparr> ak_conv = conv, ak_option = opt, ak_receivingWindow = u32At b 0, ak_receivingNext = u32At b 4,
                                ak_timestamp = u32At b 8, ak_numberList = readNumbers count (drop 13 b) \<rparr>,
                         drop (13 + count * 4) b)))
        else
          (if length b < 12 then None
           else Some (SCmd \<lparr> co_conv = conv, co_cmd = cmd, co_option = opt, co_sendingNext = u32At b 0,
                             co_receivingNext = u32At b 4, co_peerRTO = u32At b 8 \<rparr>, drop 12 b))))"

section \<open>Authentication\<close>

text \<open>\<open>cipher.AEAD\<close>, with \<^const>\<open>None\<close> for a message that does not open.\<close>

record AEAD =
  aead_NonceSize :: nat
  aead_Overhead :: nat
  aead_Seal :: "bytes \<Rightarrow> bytes \<Rightarrow> bytes"
  aead_Open :: "bytes \<Rightarrow> bytes \<Rightarrow> bytes option"

definition xorfwd :: "bytes \<Rightarrow> bytes" where
  "xorfwd x = fold (\<lambda>i x. x[i := x ! i XOR x ! (i - 4)]) [4..<length x] x"

definition xorbkd :: "bytes \<Rightarrow> bytes" where
  "xorbkd x = fold (\<lambda>i x. x[i := x ! i XOR x ! (i - 4)]) (rev [4..<length x]) x"

definition pad4 :: "bytes \<Rightarrow> bytes" where
  "pad4 x = (let extra = 4 - length x mod 4 in if extra \<noteq> 4 then x @ replicate extra 0 else x)"

definition simple_Seal :: "bytes \<Rightarrow> bytes \<Rightarrow> bytes" where
  "simple_Seal nonce plain =
    (let body = be16 (word_of_nat (length plain)) @ plain; dst = be32 (fnv32a body) @ body in
     take (length dst) (xorfwd (pad4 dst)))"

definition simple_Open :: "bytes \<Rightarrow> bytes \<Rightarrow> bytes option" where
  "simple_Open nonce ciphertext =
    (let dst = take (length ciphertext) (xorbkd (pad4 ciphertext)) in
     if length dst < 6 then None
     else if u32At dst 0 \<noteq> fnv32a (drop 4 dst) then None
     else if length dst - 6 \<noteq> unat (u16At dst 4) then None
     else Some (drop 6 dst))"

definition simpleAuthenticator :: AEAD where
  "simpleAuthenticator = \<lparr> aead_NonceSize = 0, aead_Overhead = 6, aead_Seal = simple_Seal, aead_Open = simple_Open \<rparr>"

text \<open>What a packet writer relies on.\<close>

locale aead =
  fixes a :: AEAD and limit :: nat
  assumes open_seal: "length nonce = aead_NonceSize a \<Longrightarrow> length plain < limit \<Longrightarrow> aead_Open a nonce (aead_Seal a nonce plain) = Some plain"
    and seal_length: "length nonce = aead_NonceSize a \<Longrightarrow> length (aead_Seal a nonce plain) = length plain + aead_Overhead a"

section \<open>Disguise headers\<close>

datatype packetHeader =
  NoopHeader
| SrtpHeader u16 u16
| UtpHeader u8 u8 u16
| WechatVideoHeader u32
| DtlsHeader u16 u16 u32
| WireguardHeader

text \<open>The random numbers a header starts from are an argument.\<close>

definition newPacketHeader :: "string \<Rightarrow> u16 \<Rightarrow> packetHeader" where
  "newPacketHeader name rnd =
    (let n = toLower name in
     if n \<in> {'''', ''none'', ''noop''} then NoopHeader
     else if n = ''srtp'' then SrtpHeader 0xb5e8 rnd
     else if n = ''utp'' then UtpHeader 1 0 rnd
     else if n \<in> {''wechat-video'', ''wechat''} then WechatVideoHeader (ucast rnd)
     else if n = ''dtls'' then DtlsHeader rnd 17 0
     else if n = ''wireguard'' then WireguardHeader
     else NoopHeader)"

fun header_size :: "packetHeader \<Rightarrow> nat" where
  "header_size NoopHeader = 0"
| "header_size (SrtpHeader _ _) = 4"
| "header_size (UtpHeader _ _ _) = 4"
| "header_size (WechatVideoHeader _) = 13"
| "header_size (DtlsHeader _ _ _) = 13"
| "header_size WireguardHeader = 4"

fun header_serialize :: "packetHeader \<Rightarrow> bytes \<times> packetHeader" where
  "header_serialize NoopHeader = ([], NoopHeader)"
| "header_serialize (SrtpHeader h n) = (be16 h @ be16 (n + 1), SrtpHeader h (n + 1))"
| "header_serialize (UtpHeader h e c) = (be16 c @ [h, e], UtpHeader h e c)"
| "header_serialize (WechatVideoHeader sn) =
    ([0xa1, 0x08] @ be32 (sn + 1) @ [0x00, 0x10, 0x11, 0x18, 0x30, 0x22, 0x30], WechatVideoHeader (sn + 1))"
| "header_serialize (DtlsHeader epoch len seq) =
    ([23, 254, 253] @ be16 epoch @ [0, 0] @ be32 seq @ be16 len,
     DtlsHeader epoch (if len + 17 > 100 then len + 17 - 50 else len + 17) (seq + 1))"
| "header_serialize WireguardHeader = ([0x04, 0x00, 0x00, 0x00], WireguardHeader)"

section \<open>Packets\<close>

definition packet_overhead :: "AEAD \<Rightarrow> packetHeader \<Rightarrow> nat" where
  "packet_overhead sec h = aead_Overhead sec + header_size h"

text \<open>\<open>writeSegment\<close>: the packet, and the header for the next one; the nonce is drawn at random by the caller.\<close>

definition writeSegment :: "AEAD \<Rightarrow> packetHeader \<Rightarrow> bytes \<Rightarrow> segment \<Rightarrow> bytes \<times> packetHeader" where
  "writeSegment sec h nonce seg =
    (let (out, h) = header_serialize h in (out @ nonce @ aead_Seal sec nonce (seg_serialize seg), h))"

lemma readSegment_shrink: "readSegment b = Some (s, r) \<Longrightarrow> length r < length b"
  unfolding readSegment_def Let_def by (auto split: if_split_asm)

function readSegments :: "bytes \<Rightarrow> segment list" where
  "readSegments b =
    (if b = [] then [] else case readSegment b of None \<Rightarrow> [] | Some (seg, extra) \<Rightarrow> seg # readSegments extra)"
  by auto
termination by (relation "measure length") (auto dest: readSegment_shrink)

declare readSegments.simps [simp del]

definition packet_read :: "AEAD \<Rightarrow> packetHeader \<Rightarrow> bytes \<Rightarrow> segment list" where
  "packet_read sec h b =
    (if length b \<le> header_size h then []
     else
       (let b = drop (header_size h) b; n = aead_NonceSize sec in
        if length b \<le> n + aead_Overhead sec then []
        else (case aead_Open sec (take n b) (drop n b) of None \<Rightarrow> [] | Some out \<Rightarrow> readSegments out)))"


section \<open>The authenticator opens what it sealed\<close>

text \<open>Forward, every byte is mixed with the mixed byte four places before it; backward, with the plain one.\<close>

lemma xor_loop_length [simp]: "length (fold (\<lambda>i x. x[i := x ! i XOR x ! (i - 4)]) is (x :: bytes)) = length x"
  by (induction "is" arbitrary: x) simp_all

lemma xorfwd_upto:
  "n \<le> length x \<Longrightarrow> let y = fold (\<lambda>i x. x[i := x ! i XOR x ! (i - 4)]) [4..<n] (x :: bytes) in
     \<forall>i < length x. y ! i = (if 4 \<le> i \<and> i < n then x ! i XOR y ! (i - 4) else x ! i)"
proof (induction n)
  case (Suc n)
  define y where "y = fold (\<lambda>i x. x[i := x ! i XOR x ! (i - 4)]) [4..<n] x"
  have y: "y ! i = (if 4 \<le> i \<and> i < n then x ! i XOR y ! (i - 4) else x ! i)" if "i < length x" for i
    using Suc.IH Suc.prems that unfolding y_def Let_def by auto
  show ?case
  proof (cases "4 \<le> n")
    case True
    have f: "fold (\<lambda>i x. x[i := x ! i XOR x ! (i - 4)]) [4..<Suc n] x = y[n := y ! n XOR y ! (n - 4)]" using True by (simp add: y_def)
    have l: "length y = length x" by (simp add: y_def)
    show ?thesis unfolding f Let_def
    proof (intro allI impI)
      fix i assume i: "i < length x"
      show "y[n := y ! n XOR y ! (n - 4)] ! i = (if 4 \<le> i \<and> i < Suc n then x ! i XOR y[n := y ! n XOR y ! (n - 4)] ! (i - 4) else x ! i)"
      proof (cases "i = n")
        case True
        then have "y ! n = x ! n" "n - 4 \<noteq> n" using y [OF i] \<open>4 \<le> n\<close> by auto
        then show ?thesis using True \<open>4 \<le> n\<close> i l by simp
      next
        case False
        then have "i < Suc n \<longleftrightarrow> i < n" by auto
        then show ?thesis using False y [OF i] by (cases "i < n") simp_all
      qed
    qed
  next
    case False
    then have "[4..<Suc n] = []" by simp
    then show ?thesis using False unfolding Let_def by (simp only: fold_simps) auto
  qed
qed simp

lemma xorbkd_upto:
  "n \<le> length x \<Longrightarrow> 4 \<le> m \<Longrightarrow> let y = fold (\<lambda>i x. x[i := x ! i XOR x ! (i - 4)]) (rev [m..<n]) (x :: bytes) in
     \<forall>i < length x. y ! i = (if m \<le> i \<and> i < n then x ! i XOR x ! (i - 4) else x ! i)"
proof (induction "n - m" arbitrary: m)
  case (Suc k)
  have m: "m < n" using Suc by simp
  let ?y = "fold (\<lambda>i x. x[i := x ! i XOR x ! (i - 4)]) (rev [Suc m..<n]) x"
  have y: "\<forall>i < length x. ?y ! i = (if Suc m \<le> i \<and> i < n then x ! i XOR x ! (i - 4) else x ! i)"
    using Suc.hyps(1) [of "Suc m"] Suc.hyps(2) Suc.prems by (simp add: Let_def)
  have f: "fold (\<lambda>i x. x[i := x ! i XOR x ! (i - 4)]) (rev [m..<n]) x = ?y[m := ?y ! m XOR ?y ! (m - 4)]"
    using m by (simp add: upt_conv_Cons)
  show ?case unfolding f Let_def using y m Suc.prems by (auto simp: nth_list_update)
qed (auto simp: Let_def)

lemma length_xor [simp]: "length (xorfwd x) = length x" "length (xorbkd x) = length x"
  by (simp_all add: xorfwd_def xorbkd_def)

lemma xorfwd_nth: "i < length x \<Longrightarrow> xorfwd x ! i = (if 4 \<le> i then x ! i XOR xorfwd x ! (i - 4) else x ! i)"
  using xorfwd_upto [of "length x" x] by (auto simp: xorfwd_def Let_def)

lemma xorbkd_nth: "i < length x \<Longrightarrow> xorbkd x ! i = (if 4 \<le> i then x ! i XOR x ! (i - 4) else x ! i)"
  using xorbkd_upto [of "length x" x 4] by (auto simp: xorbkd_def Let_def)

text \<open>Padding does not reach back, so it can be left out.\<close>

lemma xorfwd_prefix: "i < length x \<Longrightarrow> xorfwd (x @ z) ! i = xorfwd x ! i"
proof (induction i rule: less_induct)
  case (less i)
  then show ?case using xorfwd_nth [of i "x @ z"] xorfwd_nth [of i x] less.IH [of "i - 4"] by (simp add: nth_append)
qed

lemma xorbkd_prefix: "i < length x \<Longrightarrow> xorbkd (x @ z) ! i = xorbkd x ! i"
  using xorbkd_nth [of i "x @ z"] xorbkd_nth [of i x] by (auto simp: nth_append)

lemma pad4_append: "\<exists>z. pad4 x = x @ z"
  by (auto simp: pad4_def Let_def)

lemma take_xor [simp]: "take (length x) (xorfwd (pad4 x)) = xorfwd x" "take (length x) (xorbkd (pad4 x)) = xorbkd x"
proof -
  obtain z where z: "pad4 x = x @ z" using pad4_append by blast
  show "take (length x) (xorfwd (pad4 x)) = xorfwd x" "take (length x) (xorbkd (pad4 x)) = xorbkd x"
    unfolding z by (auto intro!: nth_equalityI simp: xorfwd_prefix xorbkd_prefix)
qed

lemma xor_back: "xorbkd (xorfwd x) = x"
proof (rule nth_equalityI)
  fix i assume "i < length (xorbkd (xorfwd x))"
  then have i: "i < length x" by simp
  then show "xorbkd (xorfwd x) ! i = x ! i"
    using xorbkd_nth [of i "xorfwd x"] xorfwd_nth [OF i] by (auto simp: xor.assoc)
qed simp

lemma At_be:
  "u16At (be16 w @ r) 0 = w" "u32At (be32 v @ r) 0 = v"
  "u32At (be32 v @ be16 w @ r) 0 = v" "u16At (be32 v @ be16 w @ r) 4 = w"
  by (simp_all add: u16At_def u32At_def be16_def be32_def)

lemma simple_open_seal: "length plain < 65536 \<Longrightarrow> simple_Open n (simple_Seal n' plain) = Some plain"
proof -
  assume l: "length plain < 65536"
  let ?body = "be16 (word_of_nat (length plain)) @ plain"
  let ?dst = "be32 (fnv32a ?body) @ ?body"
  have s: "simple_Seal n' plain = xorfwd ?dst" unfolding simple_Seal_def Let_def take_xor ..
  have u: "unat (word_of_nat (length plain) :: u16) = length plain" using l by (simp add: unat_of_nat)
  have d: "drop 4 ?dst = ?body" "drop 6 ?dst = plain" by (simp_all add: be32_def be16_def)
  have l6: "\<not> length ?dst < 6" "length ?dst - 6 = length plain" by simp_all
  show ?thesis unfolding simple_Open_def s take_xor xor_back Let_def d l6(2) At_be u using l6(1) by (simp only: if_False simp_thms)
qed

lemma simple_seal_length [simp]: "length (simple_Seal n plain) = length plain + 6"
  unfolding simple_Seal_def Let_def take_xor by simp

interpretation simple_auth: aead simpleAuthenticator 65536
  by unfold_locales (simp_all add: simpleAuthenticator_def simple_open_seal)

section \<open>Segments come back\<close>

text \<open>What survives the wire: the timer and the counter of a data segment stay behind.\<close>

fun onWire :: "segment \<Rightarrow> segment" where
  "onWire (SData s) = SData (s \<lparr> dg_timeout := 0, dg_transmit := 0 \<rparr>)"
| "onWire s = s"

fun okSegment :: "segment \<Rightarrow> bool" where
  "okSegment (SData s) = (length (dg_payload s) < 65536)"
| "okSegment (SAck s) = (length (ak_numberList s) < 256)"
| "okSegment (SCmd s) = (co_cmd s \<noteq> commandACK \<and> co_cmd s \<noteq> commandData)"

lemma length_serialize [simp]: "length (seg_serialize s) = byteSize s"
proof (cases s)
  case (SAck a)
  have "length (concat (map be32 ns)) = length ns * 4" for ns by (induction ns) simp_all
  then show ?thesis using SAck by simp
qed simp_all

lemma length_be32s: "length (concat (map be32 ns)) = length ns * 4"
  by (induction ns) simp_all

lemma readNumbers_back: "readNumbers (length ns) (concat (map be32 ns) @ r) = ns"
  by (induction ns) (simp_all add: At_be)

lemma drop_fields: "drop (14 + n) xs = drop n (drop 14 xs)" "drop (13 + n) xs = drop n (drop 13 xs)"
  by (simp_all add: add.commute)

lemma seg_fields:
  "u16At (be16 v @ x # y # r) 0 = v" "(be16 v @ x # y # r) ! 2 = x" "(be16 v @ x # y # r) ! 3 = y" "drop 4 (be16 v @ x # y # r) = r"
  "u32At (be32 a @ r) 0 = a" "u32At (be32 a @ be32 b @ r) 4 = b" "u32At (be32 a @ be32 b @ be32 c @ r) 8 = c"
  "u16At (be32 a @ be32 b @ be32 c @ be16 d @ r) 12 = d" "(be32 a @ be32 b @ be32 c @ z # r) ! 12 = z"
  "drop 14 (be32 a @ be32 b @ be32 c @ be16 d @ r) = r" "drop 13 (be32 a @ be32 b @ be32 c @ z # r) = r"
  "drop 12 (be32 a @ be32 b @ be32 c @ r) = r"
  by (simp_all add: u16At_def u32At_def be16_def be32_def drop_Suc numeral_3_eq_3)

lemma readSegment_back:
  assumes "okSegment s"
  shows "readSegment (seg_serialize s @ r) = Some (onWire s, r)"
proof (cases s)
  case (SData d)
  have u: "unat (word_of_nat (length (dg_payload d)) :: u16) = length (dg_payload d)" using assms SData by (simp add: unat_of_nat)
  show ?thesis unfolding SData readSegment_def Let_def seg_serialize.simps append_assoc append_Cons append_Nil drop_fields seg_fields u by simp
next
  case (SAck a)
  have u: "unat (word_of_nat (length (ak_numberList a)) :: u8) = length (ak_numberList a)" using assms SAck by (simp add: unat_of_nat)
  define ns where "ns = concat (map be32 (ak_numberList a))"
  have ns: "length ns = length (ak_numberList a) * 4" "readNumbers (length (ak_numberList a)) (ns @ r) = ak_numberList a"
    using length_be32s readNumbers_back by (auto simp: ns_def)
  show ?thesis unfolding SAck readSegment_def Let_def seg_serialize.simps append_assoc append_Cons append_Nil drop_fields seg_fields u ns_def [symmetric]
    using ns by simp
next
  case (SCmd c)
  show ?thesis using assms unfolding SCmd readSegment_def Let_def seg_serialize.simps append_assoc append_Cons append_Nil drop_fields seg_fields by simp
qed


interpretation kcp_segs: codec seg_serialize "\<lambda>b. case readSegment b of None \<Rightarrow> Inl () | Some r \<Rightarrow> Inr r"
    "\<lambda>s. okSegment s \<and> onWire s = s"
  by unfold_locales (simp add: readSegment_back)

lemma header_length: "length (fst (header_serialize h)) = header_size h" "header_size (snd (header_serialize h)) = header_size h"
  by (cases h; simp)+

text \<open>Several segments in one packet, as another writer may send them.\<close>

lemma readSegments_back: "list_all okSegment ss \<Longrightarrow> readSegments (concat (map seg_serialize ss)) = map onWire ss"
proof (induction ss)
  case Nil
  show ?case by (simp add: readSegments.simps)
next
  case (Cons s ss)
  have "seg_serialize s \<noteq> []" using length_serialize [of s] by (cases s) auto
  then show ?case using Cons readSegment_back [of s "concat (map seg_serialize ss)"] by (simp add: readSegments.simps)
qed

text \<open>
  C28: A packet written for a segment is read back as that segment, and nothing else, by a reader with
  the same kind of header, for every authenticator that opens what it sealed; its length is the
  segment's size plus the overhead the connection reckons with plus the nonce. The keyless
  authenticator of the program is such an authenticator.
\<close>

theorem kcp_packet:
  assumes "aead sec limit" "okSegment seg" "byteSize seg < limit" "length nonce = aead_NonceSize sec" "header_size h' = header_size h"
  shows "packet_read sec h' (fst (writeSegment sec h nonce seg)) = [onWire seg]
    \<and> length (fst (writeSegment sec h nonce seg)) = byteSize seg + packet_overhead sec h + aead_NonceSize sec"
proof -
  let ?c = "aead_Seal sec nonce (seg_serialize seg)"
  have l: "length ?c = byteSize seg + aead_Overhead sec" using aead.seal_length [OF assms(1,4)] by simp
  have open_it: "aead_Open sec nonce ?c = Some (seg_serialize seg)" using aead.open_seal [OF assms(1,4)] assms(3) by simp
  have w: "fst (writeSegment sec h nonce seg) = fst (header_serialize h) @ nonce @ ?c"
    by (simp add: writeSegment_def case_prod_beta Let_def)
  have p: "0 < byteSize seg" by (cases seg) auto
  have "readSegments (seg_serialize seg) = [onWire seg]" using readSegments_back [of "[seg]"] assms(2) by simp
  then show ?thesis unfolding w packet_read_def Let_def
    using header_length(1) [of h] assms(4,5) l p open_it by (simp add: packet_overhead_def)
qed

definition kw_seg :: segment where
  "kw_seg = SAck \<lparr> ak_conv = 7, ak_option = 1, ak_receivingWindow = 40, ak_receivingNext = 3, ak_timestamp = 9, ak_numberList = [5, 4] \<rparr>"

theorem kcp_packet_witness:
  "packet_read simpleAuthenticator (DtlsHeader 1 17 0) (fst (writeSegment simpleAuthenticator (DtlsHeader 9 34 5) [] kw_seg)) = [kw_seg]"
  using kcp_packet [OF simple_auth.aead_axioms, of kw_seg "[]" "DtlsHeader 1 17 0" "DtlsHeader 9 34 5"]
  by (simp add: kw_seg_def simpleAuthenticator_def)

end
