(* ===== verification/KcpConn.thy ===== *)
theory KcpConn
  imports KcpSegment
begin

text \<open>
  The mKCP connection (\<open>transport/mkcp/internal/mkcpcore\<close>: \<open>config.go\<close>, \<open>conn.go\<close>, \<open>listener.go\<close>): sending window, receiving cache,
  acknowledgements, round-trip estimate, congestion control, the closing handshake, and the
  listener that hands segments to connections.  Every operation runs under the connection's lock
  and is a function on its state; the clock is an argument, in milliseconds since the connection
  was made.  The channels that only wake a waiting goroutine have no state: an operation that would wait has
  the value \<^const>\<open>None\<close> and is tried again.
\<close>

section \<open>Configuration\<close>

record KcpConfig =
  kf_MTU :: u32
  kf_TTI :: u32
  kf_UplinkCapacity :: u32
  kf_DownlinkCapacity :: u32
  kf_Congestion :: bool
  kf_WriteBuffer :: u32
  kf_ReadBuffer :: u32

definition cfg_mtu :: "KcpConfig \<Rightarrow> u32" where
  "cfg_mtu c = (if kf_MTU c = 0 then 1350 else kf_MTU c)"

definition cfg_tti :: "KcpConfig \<Rightarrow> u32" where
  "cfg_tti c = (if kf_TTI c = 0 then 50 else kf_TTI c)"

definition cfg_uplinkCapacity :: "KcpConfig \<Rightarrow> u32" where
  "cfg_uplinkCapacity c = (if kf_UplinkCapacity c = 0 then 5 else kf_UplinkCapacity c)"

definition cfg_downlinkCapacity :: "KcpConfig \<Rightarrow> u32" where
  "cfg_downlinkCapacity c = (if kf_DownlinkCapacity c = 0 then 20 else kf_DownlinkCapacity c)"

definition cfg_writeBuffer :: "KcpConfig \<Rightarrow> u32" where
  "cfg_writeBuffer c = (if kf_WriteBuffer c = 0 then 2 * 1024 * 1024 else kf_WriteBuffer c)"

definition cfg_readBuffer :: "KcpConfig \<Rightarrow> u32" where
  "cfg_readBuffer c = (if kf_ReadBuffer c = 0 then 2 * 1024 * 1024 else kf_ReadBuffer c)"

text \<open>The two window sizes divide by \<open>1000 / tti\<close>, which is 0 for an interval above a second: a panic.\<close>

definition cfg_panics :: "KcpConfig \<Rightarrow> bool" where
  "cfg_panics c = (1000 div cfg_tti c = 0)"

definition sendingInFlightSize :: "KcpConfig \<Rightarrow> u32" where
  "sendingInFlightSize c =
    (let size = cfg_uplinkCapacity c * 1024 * 1024 div cfg_mtu c div (1000 div cfg_tti c) in if size < 8 then 8 else size)"

definition receivingInFlightSize :: "KcpConfig \<Rightarrow> u32" where
  "receivingInFlightSize c =
    (let size = cfg_downlinkCapacity c * 1024 * 1024 div cfg_mtu c div (1000 div cfg_tti c) in if size < 8 then 8 else size)"

definition sendingBufferSize :: "KcpConfig \<Rightarrow> u32" where
  "sendingBufferSize c = cfg_writeBuffer c div cfg_mtu c"

section \<open>State\<close>

datatype connState = StateActive | StateReadyToClose | StatePeerClosed | StateTerminating | StatePeerTerminating | StateTerminated

record ackItem =
  ai_number :: u32
  ai_timestamp :: u32
  ai_nextFlush :: u32

record Conn =
  kc_cfg :: KcpConfig
  kc_conv :: u16
  kc_mss :: nat
  kc_rto :: u32
  kc_rttVariation :: u32
  kc_srtt :: u32
  kc_minRtt :: u32
  kc_rtoUpdated :: u32
  kc_state :: connState
  kc_stateBegin :: u32
  kc_lastIncoming :: u32
  kc_lastPing :: u32
  kc_readBuf :: bytes
  kc_recvCache :: "(u32 \<times> dataSegment) list"
  kc_recvNext :: u32
  kc_ackList :: "ackItem list"
  kc_ackDirty :: bool
  kc_sendWindow :: "dataSegment list"
  kc_sendNext :: u32
  kc_firstUnacked :: u32
  kc_remoteRecvWin :: u32
  kc_totalInFlightSize :: u32
  kc_controlWindow :: u32
  kc_firstUnackedWasUpdated :: bool
  kc_done :: bool

text \<open>\<open>newConn\<close>; the second argument is the overhead of the packet writer.\<close>

definition newConn :: "KcpConfig \<Rightarrow> nat \<Rightarrow> u16 \<Rightarrow> Conn option" where
  "newConn cfg overhead conv =
    (if cfg_panics cfg then None
     else Some
      \<lparr> kc_cfg = cfg, kc_conv = conv,
        kc_mss = (let m = int (unat (cfg_mtu cfg)) - int overhead - int dataSegmentOverhead in if m < 576 then 576 else nat m),
        kc_rto = 100, kc_rttVariation = 0, kc_srtt = 0, kc_minRtt = cfg_tti cfg, kc_rtoUpdated = 0,
        kc_state = StateActive, kc_stateBegin = 0, kc_lastIncoming = 0, kc_lastPing = 0,
        kc_readBuf = [], kc_recvCache = [], kc_recvNext = 0, kc_ackList = [], kc_ackDirty = False,
        kc_sendWindow = [], kc_sendNext = 0, kc_firstUnacked = 0, kc_remoteRecvWin = 32,
        kc_totalInFlightSize = 0, kc_controlWindow = sendingInFlightSize cfg, kc_firstUnackedWasUpdated = False,
        kc_done = False \<rparr>)"

definition setState :: "u32 \<Rightarrow> connState \<Rightarrow> Conn \<Rightarrow> Conn" where
  "setState now st c =
    (if kc_state c = st then c
     else
       (let c = c \<lparr> kc_state := st, kc_stateBegin := now \<rparr> in
        if st \<in> {StatePeerClosed, StateTerminating, StatePeerTerminating, StateTerminated} then c \<lparr> kc_sendWindow := [] \<rparr> else c))"

definition kc_terminate :: "u32 \<Rightarrow> Conn \<Rightarrow> Conn" where
  "kc_terminate now c = (if kc_done c then c else (setState now StateTerminated c) \<lparr> kc_done := True \<rparr>)"

section \<open>Reading, writing, closing\<close>

datatype kcpErr = KcpEOF | KcpClosedPipe | KcpNetClosed

definition kc_Read :: "nat \<Rightarrow> Conn \<Rightarrow> (kcpErr, bytes \<times> Conn) result option" where
  "kc_Read n c =
    (if kc_readBuf c \<noteq> [] then Some (Inr (take n (kc_readBuf c), c \<lparr> kc_readBuf := drop n (kc_readBuf c) \<rparr>))
     else if kc_state c \<in> {StateReadyToClose, StateTerminating, StateTerminated} then Some (Inl KcpEOF)
     else None)"

text \<open>The pieces of one \<open>Write\<close>, and one piece under the lock.\<close>

function kcpPieces :: "nat \<Rightarrow> bytes \<Rightarrow> bytes list" where
  "kcpPieces mss b = (if mss = 0 \<or> b = [] then [] else take mss b # kcpPieces mss (drop mss b))"
  by auto
termination by (relation "measure (\<lambda>(mss, b). length b)") auto

declare kcpPieces.simps [simp del]

definition newDataSegment :: "u32 \<Rightarrow> bytes \<Rightarrow> dataSegment" where
  "newDataSegment n payload =
    \<lparr> dg_conv = 0, dg_option = 0, dg_timestamp = 0, dg_number = n, dg_sendingNext = 0, dg_payload = payload, dg_timeout = 0, dg_transmit = 0 \<rparr>"

definition kc_writePiece :: "bytes \<Rightarrow> Conn \<Rightarrow> (kcpErr, Conn) result option" where
  "kc_writePiece payload c =
    (if kc_state c \<noteq> StateActive then Some (Inl KcpClosedPipe)
     else if word_of_nat (length (kc_sendWindow c)) \<le> sendingBufferSize (kc_cfg c) then
       Some (Inr (c \<lparr> kc_sendNext := kc_sendNext c + 1, kc_sendWindow := kc_sendWindow c @ [newDataSegment (kc_sendNext c) payload] \<rparr>))
     else None)"

definition kc_Close :: "u32 \<Rightarrow> Conn \<Rightarrow> (kcpErr, Conn) result" where
  "kc_Close now c =
    (case kc_state c of
       StateReadyToClose \<Rightarrow> Inl KcpNetClosed
     | StateTerminating \<Rightarrow> Inl KcpNetClosed
     | StateTerminated \<Rightarrow> Inl KcpNetClosed
     | StateActive \<Rightarrow> Inr (setState now StateReadyToClose c)
     | StatePeerClosed \<Rightarrow> Inr (setState now StateTerminating c)
     | StatePeerTerminating \<Rightarrow> Inr (kc_terminate now (setState now StateTerminated c)))"

section \<open>Incoming segments\<close>

definition handleOption :: "u32 \<Rightarrow> u8 \<Rightarrow> Conn \<Rightarrow> Conn" where
  "handleOption now opt c =
    (if and opt segmentOptionClose = segmentOptionClose then
       (case kc_state c of
          StateReadyToClose \<Rightarrow> setState now StateTerminating c
        | StateActive \<Rightarrow> setState now StatePeerClosed c
        | _ \<Rightarrow> c)
     else c)"

function deliver :: "Conn \<Rightarrow> Conn" where
  "deliver c =
    (case map_of (kc_recvCache c) (kc_recvNext c) of
       None \<Rightarrow> c
     | Some seg \<Rightarrow>
         deliver (c \<lparr> kc_recvCache := filter (\<lambda>(n, _). n \<noteq> kc_recvNext c) (kc_recvCache c),
                      kc_recvNext := kc_recvNext c + 1, kc_readBuf := kc_readBuf c @ dg_payload seg \<rparr>))"
  by auto
termination
proof (relation "measure (\<lambda>c. length (kc_recvCache c))")
  fix c :: Conn and seg
  assume "map_of (kc_recvCache c) (kc_recvNext c) = Some seg"
  then have "(kc_recvNext c, seg) \<in> set (kc_recvCache c)" by (rule map_of_SomeD)
  then have "length (filter (\<lambda>(n, _). n \<noteq> kc_recvNext c) (kc_recvCache c)) < length (kc_recvCache c)"
    by (auto intro: length_filter_less)
  then show "(c \<lparr> kc_recvCache := filter (\<lambda>(n, _). n \<noteq> kc_recvNext c) (kc_recvCache c),
                  kc_recvNext := kc_recvNext c + 1, kc_readBuf := kc_readBuf c @ dg_payload seg \<rparr>, c)
      \<in> measure (\<lambda>c. length (kc_recvCache c))" by simp
qed simp

declare deliver.simps [simp del]

definition processSendingNext :: "u32 \<Rightarrow> Conn \<Rightarrow> Conn" where
  "processSendingNext nxt c =
    (let acks = filter (\<lambda>a. ai_number a \<ge> nxt) (kc_ackList c) in
     c \<lparr> kc_ackDirty := (kc_ackDirty c \<or> length acks \<noteq> length (kc_ackList c)), kc_ackList := acks \<rparr>)"

definition findFirstUnacked :: "Conn \<Rightarrow> Conn" where
  "findFirstUnacked c =
    (let u = (case kc_sendWindow c of [] \<Rightarrow> kc_sendNext c | seg # _ \<Rightarrow> dg_number seg) in
     c \<lparr> kc_firstUnackedWasUpdated := (kc_firstUnackedWasUpdated c \<or> u \<noteq> kc_firstUnacked c), kc_firstUnacked := u \<rparr>)"

definition processReceivingNext :: "u32 \<Rightarrow> Conn \<Rightarrow> Conn" where
  "processReceivingNext nxt c =
    findFirstUnacked (c \<lparr> kc_sendWindow := filter (\<lambda>seg. \<not> dg_number seg < nxt) (kc_sendWindow c) \<rparr>)"

fun removeSegment :: "u32 \<Rightarrow> dataSegment list \<Rightarrow> dataSegment list option" where
  "removeSegment number [] = None"
| "removeSegment number (seg # segs) =
    (if dg_number seg = number then Some segs else map_option ((#) seg) (removeSegment number segs))"

definition processAck :: "u32 \<Rightarrow> Conn \<Rightarrow> bool \<times> Conn" where
  "processAck number c =
    (if number - kc_firstUnacked c > 0x7fffffff \<or> number - kc_sendNext c < 0x7fffffff then (False, c)
     else
       (case removeSegment number (kc_sendWindow c) of
          None \<Rightarrow> (False, c)
        | Some w \<Rightarrow>
            (True, findFirstUnacked (c \<lparr> kc_totalInFlightSize := (if kc_totalInFlightSize c > 0 then kc_totalInFlightSize c - 1 else 0),
                                          kc_sendWindow := w \<rparr>))))"

fun fastAck :: "u32 \<Rightarrow> u32 \<Rightarrow> dataSegment list \<Rightarrow> dataSegment list" where
  "fastAck number reduction [] = []"
| "fastAck number reduction (seg # segs) =
    (if number = dg_number seg \<or> number - dg_number seg > 0x7fffffff then seg # segs
     else (if dg_transmit seg > 0 \<and> dg_timeout seg > reduction then seg \<lparr> dg_timeout := dg_timeout seg - reduction \<rparr> else seg)
            # fastAck number reduction segs)"

definition handleFastAck :: "u32 \<Rightarrow> Conn \<Rightarrow> Conn" where
  "handleFastAck number c =
    (let reduction = kc_rto c div 3 in
     if reduction = 0 then c else c \<lparr> kc_sendWindow := fastAck number reduction (kc_sendWindow c) \<rparr>)"

definition updateRTT :: "u32 \<Rightarrow> u32 \<Rightarrow> Conn \<Rightarrow> Conn" where
  "updateRTT rtt current c =
    (if rtt > 0x7fffffff then c
     else
       (let c = (if kc_srtt c = 0 then c \<lparr> kc_srtt := rtt, kc_rttVariation := rtt div 2 \<rparr>
                 else
                   (let delta = (if kc_srtt c > rtt then kc_srtt c - rtt else rtt - kc_srtt c);
                        srtt = (7 * kc_srtt c + rtt) div 8 in
                    c \<lparr> kc_rttVariation := (3 * kc_rttVariation c + delta) div 4,
                        kc_srtt := (if srtt < kc_minRtt c then kc_minRtt c else srtt) \<rparr>));
            rto = (if kc_minRtt c < 4 * kc_rttVariation c then kc_srtt c + 4 * kc_rttVariation c else kc_srtt c + kc_rttVariation c);
            rto = (if rto > 10000 then 10000 else rto) in
        c \<lparr> kc_rto := rto * 5 div 4, kc_rtoUpdated := current \<rparr>))"

definition updatePeerRTO :: "u32 \<Rightarrow> u32 \<Rightarrow> Conn \<Rightarrow> Conn" where
  "updatePeerRTO rto current c =
    (if rto = 0 \<or> current - kc_rtoUpdated c < 3000 then c else c \<lparr> kc_rtoUpdated := current, kc_rto := rto \<rparr>)"

definition inputData :: "u32 \<Rightarrow> dataSegment \<Rightarrow> Conn \<Rightarrow> Conn" where
  "inputData now s c =
    (let c = processSendingNext (dg_sendingNext s) (handleOption now (dg_option s) c) in
     deliver
      (if dg_number s - kc_recvNext c < receivingInFlightSize (kc_cfg c) then
         c \<lparr> kc_ackList := kc_ackList c @ [\<lparr> ai_number = dg_number s, ai_timestamp = dg_timestamp s, ai_nextFlush = 0 \<rparr>],
             kc_ackDirty := True,
             kc_recvCache := (case map_of (kc_recvCache c) (dg_number s) of
                                None \<Rightarrow> (dg_number s, s) # kc_recvCache c | Some _ \<Rightarrow> kc_recvCache c) \<rparr>
       else c))"

fun ackNumbers :: "u32 list \<Rightarrow> u32 \<Rightarrow> bool \<Rightarrow> Conn \<Rightarrow> u32 \<times> bool \<times> Conn" where
  "ackNumbers [] maxack removed c = (maxack, removed, c)"
| "ackNumbers (n # ns) maxack removed c =
    (let (r, c) = processAck n c in if maxack < n then ackNumbers ns n r c else ackNumbers ns maxack removed c)"

definition inputAck :: "u32 \<Rightarrow> ackSegment \<Rightarrow> Conn \<Rightarrow> Conn" where
  "inputAck now s c =
    (let c = handleOption now (ak_option s) c;
         c = (if ak_receivingWindow s > kc_remoteRecvWin c then c \<lparr> kc_remoteRecvWin := ak_receivingWindow s \<rparr> else c);
         c = processReceivingNext (ak_receivingNext s) c in
     if ak_numberList s = [] then c
     else
       (let (maxack, removed, c) = ackNumbers (ak_numberList s) 0 False c in
        if removed then
          (let c = handleFastAck maxack c in
           if now - ak_timestamp s < 10000 then updateRTT (now - ak_timestamp s) now c else c)
        else c))"

text \<open>The flag is the \<open>terminate\<close> of \<open>Input\<close>, which runs after the loop.\<close>

definition inputCmd :: "u32 \<Rightarrow> cmdOnlySegment \<Rightarrow> Conn \<Rightarrow> bool \<times> Conn" where
  "inputCmd now s c =
    (let c = handleOption now (co_option s) c;
         (t, c) = (if co_cmd s = commandTerminate then
                     (case kc_state c of
                        StateActive \<Rightarrow> (False, setState now StatePeerTerminating c)
                      | StatePeerClosed \<Rightarrow> (False, setState now StatePeerTerminating c)
                      | StateReadyToClose \<Rightarrow> (False, setState now StateTerminating c)
                      | StateTerminating \<Rightarrow> (True, setState now StateTerminated c)
                      | _ \<Rightarrow> (False, c))
                   else (False, c)) in
     (t, updatePeerRTO (co_peerRTO s) now
           (processSendingNext (co_sendingNext s) (processReceivingNext (co_receivingNext s) c))))"

fun inputSegment :: "u32 \<Rightarrow> segment \<Rightarrow> Conn \<Rightarrow> bool \<times> Conn" where
  "inputSegment now (SData s) c = (False, inputData now s c)"
| "inputSegment now (SAck s) c = (False, inputAck now s c)"
| "inputSegment now (SCmd s) c = inputCmd now s c"

fun inputLoop :: "u32 \<Rightarrow> segment list \<Rightarrow> bool \<Rightarrow> Conn \<Rightarrow> bool \<times> Conn" where
  "inputLoop now [] t c = (t, c)"
| "inputLoop now (seg # segs) t c =
    (if seg_conversation seg \<noteq> kc_conv c then (t, c)
     else let (t', c) = inputSegment now seg c in inputLoop now segs (t \<or> t') c)"

definition kc_Input :: "u32 \<Rightarrow> segment list \<Rightarrow> Conn \<Rightarrow> Conn" where
  "kc_Input now segments c =
    (if segments = [] \<or> kc_state c = StateTerminated then c
     else
       (let (t, c) = inputLoop now segments False (c \<lparr> kc_lastIncoming := now \<rparr>) in
        if t then kc_terminate now c else c))"

section \<open>Flushing\<close>

definition closeOption :: "Conn \<Rightarrow> u8" where
  "closeOption c = (if kc_state c = StateReadyToClose then segmentOptionClose else 0)"

definition newAckSegment :: "Conn \<Rightarrow> ackSegment" where
  "newAckSegment c =
    \<lparr> ak_conv = kc_conv c, ak_option = closeOption c,
      ak_receivingWindow = kc_recvNext c + receivingInFlightSize (kc_cfg c), ak_receivingNext = kc_recvNext c,
      ak_timestamp = 0, ak_numberList = [] \<rparr>"

definition pingSegment :: "u8 \<Rightarrow> u32 \<Rightarrow> Conn \<Rightarrow> cmdOnlySegment \<times> Conn" where
  "pingSegment cmd current c =
    (\<lparr> co_conv = kc_conv c, co_cmd = cmd, co_option = closeOption c, co_sendingNext = kc_firstUnacked c,
       co_receivingNext = kc_recvNext c, co_peerRTO = kc_rto c \<rparr>,
     c \<lparr> kc_lastPing := current \<rparr>)"

text \<open>
  The loop over the pending acknowledgements: the items done so far, the full segments, the one
  being filled, the candidates and the dirty flag.
\<close>

fun ackLoop :: "u32 \<Rightarrow> Conn \<Rightarrow> ackItem list \<Rightarrow> ackItem list \<Rightarrow> ackSegment list \<Rightarrow> ackSegment \<Rightarrow> u32 list \<Rightarrow> bool
    \<Rightarrow> ackItem list \<times> ackSegment list \<times> ackSegment \<times> u32 list \<times> bool" where
  "ackLoop current c [] items segs ack cands dirty = (items, segs, ack, cands, dirty)"
| "ackLoop current c (item # rest) items segs ack cands dirty =
    (if ai_nextFlush item > current then
       ackLoop current c rest (items @ [item]) segs ack (if length cands < 128 then cands @ [ai_number item] else cands) dirty
     else
       (let ack = ack \<lparr> ak_numberList := ak_numberList ack @ [ai_number item],
                        ak_timestamp := (if ai_timestamp item - ak_timestamp ack < 0x7fffffff then ai_timestamp item else ak_timestamp ack) \<rparr>;
            timeout = (if kc_rto c div 2 < 20 then 20 else kc_rto c div 2);
            items = items @ [item \<lparr> ai_nextFlush := current + timeout \<rparr>] in
        if length (ak_numberList ack) = 128 then ackLoop current c rest items (segs @ [ack]) (newAckSegment c) cands False
        else ackLoop current c rest items segs ack cands dirty))"

definition flushAcks :: "u32 \<Rightarrow> Conn \<Rightarrow> segment list \<times> Conn" where
  "flushAcks current c =
    (if kc_ackList c = [] then ([], c)
     else
       (let (items, segs, ack, cands, dirty) = ackLoop current c (kc_ackList c) [] [] (newAckSegment c) [] (kc_ackDirty c) in
        if dirty \<or> ak_numberList ack \<noteq> [] then
          (map SAck (segs @ [ack \<lparr> ak_numberList := ak_numberList ack @ take (128 - length (ak_numberList ack)) cands \<rparr>]),
           c \<lparr> kc_ackList := items, kc_ackDirty := False \<rparr>)
        else (map SAck segs, c \<lparr> kc_ackList := items, kc_ackDirty := dirty \<rparr>)))"

definition onPacketLoss :: "u32 \<Rightarrow> Conn \<Rightarrow> Conn" where
  "onPacketLoss lossRate c =
    (if kc_rto c = 0 then c
     else
       (let w = kc_controlWindow c;
            w = (if lossRate \<ge> 15 then 3 * w div 4 else if lossRate \<le> 5 then w + w div 4 else w);
            w = (if w < 16 then 16 else w);
            mx = 2 * sendingInFlightSize (kc_cfg c) in
        c \<lparr> kc_controlWindow := (if w > mx then mx else w) \<rparr>))"

definition sendable :: "u32 \<Rightarrow> Conn \<Rightarrow> dataSegment \<Rightarrow> dataSegment" where
  "sendable current c seg =
    seg \<lparr> dg_conv := kc_conv c, dg_timestamp := current, dg_sendingNext := kc_firstUnacked c, dg_option := closeOption c,
          dg_transmit := dg_transmit seg + 1,
          dg_timeout := current + (if kc_rto c < cfg_tti (kc_cfg c) then cfg_tti (kc_cfg c) else kc_rto c) \<rparr>"

text \<open>The loop over the window: the window afterwards, what is sent, and the counters.\<close>

fun sendLoop :: "u32 \<Rightarrow> Conn \<Rightarrow> u32 \<Rightarrow> dataSegment list \<Rightarrow> u32 \<Rightarrow> u32 \<Rightarrow> u32
    \<Rightarrow> dataSegment list \<times> dataSegment list \<times> u32 \<times> u32 \<times> u32" where
  "sendLoop current c cwnd [] inFlightTotal lost inFlight = ([], [], inFlightTotal, lost, inFlight)"
| "sendLoop current c cwnd (seg # segs) inFlightTotal lost inFlight =
    (if current - dg_timeout seg \<ge> 0x7fffffff then
       (let (w, out, r) = sendLoop current c cwnd segs inFlightTotal lost inFlight in (seg # w, out, r))
     else
       (let t = (if dg_transmit seg = 0 then inFlightTotal + 1 else inFlightTotal);
            l = (if dg_transmit seg = 0 then lost else lost + 1);
            seg = sendable current c seg in
        if inFlight + 1 \<ge> cwnd then (seg # segs, [seg], t, l, inFlight + 1)
        else (let (w, out, r) = sendLoop current c cwnd segs t l (inFlight + 1) in (seg # w, seg # out, r))))"

definition flushSend :: "u32 \<Rightarrow> Conn \<Rightarrow> segment list \<times> Conn" where
  "flushSend current c =
    (if kc_sendWindow c = [] then
       (if kc_firstUnackedWasUpdated c then
          (let (p, c) = pingSegment commandPing current (c \<lparr> kc_firstUnackedWasUpdated := False \<rparr>) in ([SCmd p], c))
        else ([], c))
     else
       (let cwnd = sendingInFlightSize (kc_cfg c);
            remoteWindow = kc_remoteRecvWin c - kc_firstUnacked c;
            cwnd = (if cwnd > remoteWindow then remoteWindow else cwnd);
            cwnd = (if kf_Congestion (kc_cfg c) \<and> cwnd > kc_controlWindow c then kc_controlWindow c else cwnd);
            (w, out, t, lost, inFlight) = sendLoop current c (cwnd * 20) (kc_sendWindow c) (kc_totalInFlightSize c) 0 0;
            c = c \<lparr> kc_sendWindow := w, kc_totalInFlightSize := t \<rparr>;
            c = (if kf_Congestion (kc_cfg c) \<and> inFlight > 0 \<and> t \<noteq> 0 then onPacketLoss (lost * 100 div t) c else c) in
        (map SData out, c \<lparr> kc_firstUnackedWasUpdated := False \<rparr>)))"

definition flushStates :: "u32 \<Rightarrow> Conn \<Rightarrow> Conn" where
  "flushStates current c =
    (let c = (if kc_state c = StateActive \<and> current - kc_lastIncoming c \<ge> 30000 then setState current StateReadyToClose c else c) in
     if kc_state c = StateReadyToClose \<and> kc_sendWindow c = [] then setState current StateTerminating c else c)"

definition kc_flush :: "u32 \<Rightarrow> Conn \<Rightarrow> segment list \<times> Conn" where
  "kc_flush current c =
    (if kc_state c = StateTerminated then ([], c)
     else
       (let c = flushStates current c in
        if kc_state c = StateTerminating then
          (let (p, c) = pingSegment commandTerminate current c in
           ([SCmd p], if current - kc_stateBegin c > 8000 then kc_terminate current (setState current StateTerminated c) else c))
        else
          (let c = (if kc_state c = StatePeerTerminating \<and> current - kc_stateBegin c > 4000 then setState current StateTerminating c else c);
               c = (if kc_state c = StateReadyToClose \<and> current - kc_stateBegin c > 15000 then setState current StateTerminating c else c);
               (acks, c) = flushAcks current c;
               (datas, c) = flushSend current c;
               (pings, c) = (if current - kc_lastPing c \<ge> 3000 then (let (p, c) = pingSegment commandPing current c in ([SCmd p], c)) else ([], c)) in
           (acks @ datas @ pings, c))))"

section \<open>The listener\<close>

record Listener =
  kl_cfg :: KcpConfig
  kl_overhead :: nat
  kl_sessions :: "((string \<times> u16) \<times> Conn) list option"
  kl_accept :: "(string \<times> u16) list"

text \<open>
  \<open>onReceive\<close> with the segments of one packet; \<^const>\<open>None\<close> is the wait, or the panic of \<open>newConn\<close>, with the
  lock held: the queue of 1024 connections not yet accepted is full.
\<close>

definition onReceive :: "u32 \<Rightarrow> segment list \<Rightarrow> string \<Rightarrow> Listener \<Rightarrow> Listener option" where
  "onReceive now segments addr l =
    (case segments of
       [] \<Rightarrow> Some l
     | seg # _ \<Rightarrow>
         (case kl_sessions l of
            None \<Rightarrow> Some l
          | Some ss \<Rightarrow>
              (let sid = (addr, seg_conversation seg) in
               case map_of ss sid of
                 Some c \<Rightarrow> Some (l \<lparr> kl_sessions := Some ((sid, kc_Input now segments c) # filter (\<lambda>(i, _). i \<noteq> sid) ss) \<rparr>)
               | None \<Rightarrow>
                   if seg_command seg = commandTerminate then Some l
                   else if length (kl_accept l) \<ge> 1024 then None
                   else
                     (case newConn (kl_cfg l) (kl_overhead l) (seg_conversation seg) of
                        None \<Rightarrow> None
                      | Some c \<Rightarrow> Some (l \<lparr> kl_sessions := Some ((sid, kc_Input now segments c) # ss), kl_accept := kl_accept l @ [sid] \<rparr>)))))"

definition listener_remove :: "string \<times> u16 \<Rightarrow> Listener \<Rightarrow> Listener" where
  "listener_remove sid l = l \<lparr> kl_sessions := map_option (filter (\<lambda>(i, _). i \<noteq> sid)) (kl_sessions l) \<rparr>"

definition listener_Accept :: "Listener \<Rightarrow> (string \<times> u16) option \<times> Listener" where
  "listener_Accept l = (case kl_accept l of [] \<Rightarrow> (None, l) | sid # rest \<Rightarrow> (Some sid, l \<lparr> kl_accept := rest \<rparr>))"

end
