(* ===== verification/KcpLink.thy ===== *)
theory KcpLink
  imports KcpConn
begin

text \<open>
  Two mKCP connections over a network that may lose, repeat, delay and reorder packets.  The network
  is what each side ever sent; anything of it may arrive, any number of times, in any
  grouping.  What one side delivers is always a beginning of what the other wrote, and a sending
  window that empties on an open connection means that everything has arrived.
\<close>

section \<open>What one connection keeps\<close>

definition kc_open :: "Conn \<Rightarrow> bool" where
  "kc_open c = (kc_state c = StateActive \<or> kc_state c = StateReadyToClose)"

definition skey :: "dataSegment \<Rightarrow> u32 \<times> bytes" where
  "skey s = (dg_number s, dg_payload s)"

definition wkeys :: "Conn \<Rightarrow> (u32 \<times> bytes) set" where
  "wkeys c = skey ` set (kc_sendWindow c)"

definition nums :: "Conn \<Rightarrow> u32 set" where
  "nums c = dg_number ` set (kc_sendWindow c)"

definition recd :: "Conn \<Rightarrow> u32 set" where
  "recd c = {n. n < kc_recvNext c} \<union> fst ` set (kc_recvCache c)"

definition acks :: "Conn \<Rightarrow> u32 set" where
  "acks c = ai_number ` set (kc_ackList c)"

text \<open>The receiving side, against the pieces \<open>W\<close> the peer wrote and the bytes already read.\<close>

definition recvOK :: "bytes list \<Rightarrow> bytes \<Rightarrow> Conn \<Rightarrow> bool" where
  "recvOK W got c =
    ((\<forall>(n, d) \<in> set (kc_recvCache c). unat n < length W \<and> dg_payload d = W ! unat n)
     \<and> unat (kc_recvNext c) \<le> length W
     \<and> got @ kc_readBuf c = concat (take (unat (kc_recvNext c)) W))"

definition settled :: "Conn \<Rightarrow> bool" where
  "settled c = (map_of (kc_recvCache c) (kc_recvNext c) = None \<and> acks c \<subseteq> recd c)"

definition sendOK :: "bytes list \<Rightarrow> Conn \<Rightarrow> bool" where
  "sendOK W c = (kc_sendNext c = word_of_nat (length W) \<and> (\<forall>(n, p) \<in> wkeys c. unat n < length W \<and> p = W ! unat n))"

text \<open>A segment of a peer that wrote \<open>W\<close> and received \<open>R\<close>.\<close>

fun goodSeg :: "bytes list \<Rightarrow> u32 set \<Rightarrow> segment \<Rightarrow> bool" where
  "goodSeg W R (SData d) = (unat (dg_number d) < length W \<and> dg_payload d = W ! unat (dg_number d))"
| "goodSeg W R (SAck a) = (set (ak_numberList a) \<subseteq> R \<and> {n. n < ak_receivingNext a} \<subseteq> R)"
| "goodSeg W R (SCmd c) = ({n. n < co_receivingNext c} \<subseteq> R)"

text \<open>
  What an operation does to a connection whose peer received \<open>R\<close>: the receiving side goes on, nothing it
  has is forgotten, and the window only loses what the peer has, unless the connection closes.
\<close>

definition sends :: "u32 set \<Rightarrow> Conn \<Rightarrow> Conn \<Rightarrow> bool" where
  "sends R c c' = (kc_sendNext c' = kc_sendNext c \<and> wkeys c' \<subseteq> wkeys c \<and> (kc_open c' \<longrightarrow> kc_open c \<and> nums c \<subseteq> nums c' \<union> R))"

definition sameRecv :: "Conn \<Rightarrow> Conn \<Rightarrow> bool" where
  "sameRecv c c' = (kc_recvNext c' = kc_recvNext c \<and> kc_recvCache c' = kc_recvCache c \<and> kc_readBuf c' = kc_readBuf c
     \<and> acks c' \<subseteq> acks c \<and> kc_cfg c' = kc_cfg c \<and> kc_conv c' = kc_conv c)"

lemma sends_refl [simp]: "sends R c c" and sameRecv_refl [simp]: "sameRecv c c"
  by (simp_all add: sends_def sameRecv_def)

lemma sends_trans: "sends R a b \<Longrightarrow> sends R b c \<Longrightarrow> sends R a c"
  unfolding sends_def by auto

lemma sameRecv_trans: "sameRecv a b \<Longrightarrow> sameRecv b c \<Longrightarrow> sameRecv a c"
  unfolding sameRecv_def by auto

definition mild :: "u32 set \<Rightarrow> Conn \<Rightarrow> Conn \<Rightarrow> bool" where
  "mild R c c' = (sends R c c' \<and> sameRecv c c')"

lemma mild_refl [simp]: "mild R c c"
  by (simp add: mild_def)

lemma mild_trans: "mild R a b \<Longrightarrow> mild R b c \<Longrightarrow> mild R a c"
  unfolding mild_def using sends_trans sameRecv_trans by blast

named_theorems mild_intros

lemmas mild_unfold = skey_def mild_def sends_def sameRecv_def wkeys_def nums_def acks_def kc_open_def

lemma mild_setState [mild_intros]:
  "st \<noteq> StateActive \<Longrightarrow> (st = StateReadyToClose \<Longrightarrow> kc_state c = StateActive) \<Longrightarrow> mild R c (setState now st c)"
  by (auto simp: setState_def Let_def mild_unfold)

lemma mild_terminate [mild_intros]: "mild R c (kc_terminate now c)"
  unfolding kc_terminate_def by (auto simp: setState_def Let_def mild_unfold)

lemma mild_handleOption [mild_intros]: "mild R c (handleOption now opt c)"
  unfolding handleOption_def by (auto intro!: mild_setState split: connState.split)

lemma mild_processSendingNext [mild_intros]: "mild R c (processSendingNext nxt c)"
  unfolding processSendingNext_def by (auto simp: Let_def mild_unfold)

lemma mild_findFirstUnacked [mild_intros]: "mild R c (findFirstUnacked c)"
  unfolding findFirstUnacked_def by (auto simp: Let_def mild_unfold)

lemma mild_processReceivingNext: "{n. n < nxt} \<subseteq> R \<Longrightarrow> mild R c (processReceivingNext nxt c)"
  unfolding processReceivingNext_def
  by (rule mild_trans [OF _ mild_findFirstUnacked]) (auto simp: mild_unfold)

lemma removeSegment_set: "removeSegment n w = Some w' \<Longrightarrow> set w' \<subseteq> set w \<and> set w \<subseteq> set w' \<union> {s. dg_number s = n}"
  by (induction w arbitrary: w') (fastforce split: if_split_asm)+

lemma mild_processAck: "n \<in> R \<Longrightarrow> mild R c (snd (processAck n c))"
proof -
  assume n: "n \<in> R"
  have "mild R c (c \<lparr> kc_totalInFlightSize := k, kc_sendWindow := w \<rparr>)" if "removeSegment n (kc_sendWindow c) = Some w" for k w
    using removeSegment_set [OF that] n by (force simp: mild_unfold)
  then show ?thesis unfolding processAck_def by (auto intro: mild_trans [OF _ mild_findFirstUnacked] split: option.split)
qed

lemma skey_retimed [simp]: "skey (s \<lparr> dg_timeout := t \<rparr>) = skey s" "skey (sendable now c s) = skey s"
  by (simp_all add: skey_def sendable_def)

lemma fastAck_keys: "map skey (fastAck n r w) = map skey w"
  by (induction w) simp_all

text \<open>Changing only timers and counters of the window.\<close>

lemma mild_retime:
  assumes "map skey w = map skey (kc_sendWindow c)"
  shows "mild R c (c \<lparr> kc_sendWindow := w \<rparr>)"
proof -
  have "set (map skey w) = wkeys c" unfolding assms wkeys_def by simp
  moreover have "dg_number ` set w = nums c"
    using arg_cong [OF assms, of "\<lambda>xs. set (map fst xs)"] by (simp add: nums_def o_def skey_def)
  ultimately show ?thesis by (simp add: mild_def sends_def sameRecv_def wkeys_def nums_def acks_def kc_open_def)
qed

lemma mild_handleFastAck [mild_intros]: "mild R c (handleFastAck n c)"
  unfolding handleFastAck_def Let_def by (simp add: mild_retime fastAck_keys)

lemma mild_updateRTT [mild_intros]: "mild R c (updateRTT rtt now c)"
  unfolding updateRTT_def Let_def by (simp add: mild_unfold)

lemma mild_updatePeerRTO [mild_intros]: "mild R c (updatePeerRTO rto now c)"
  unfolding updatePeerRTO_def by (simp add: mild_unfold)

lemma mild_ackNumbers: "set ns \<subseteq> R \<Longrightarrow> mild R c (snd (snd (ackNumbers ns m r c)))"
proof (induction ns arbitrary: m r c)
  case (Cons n ns)
  have "mild R c (snd (processAck n c))" using Cons.prems by (intro mild_processAck) simp
  moreover have "mild R (snd (processAck n c)) (snd (snd (ackNumbers ns m' r' (snd (processAck n c)))))" for m' r' using Cons by simp
  ultimately show ?case by (simp add: case_prod_beta Let_def) (meson mild_trans)
qed simp

lemma mild_inputAck: "goodSeg W R (SAck s) \<Longrightarrow> mild R c (inputAck now s c)"
proof -
  assume g: "goodSeg W R (SAck s)"
  let ?a = "handleOption now (ak_option s) c"
  let ?b = "if ak_receivingWindow s > kc_remoteRecvWin ?a then ?a \<lparr> kc_remoteRecvWin := ak_receivingWindow s \<rparr> else ?a"
  let ?d = "processReceivingNext (ak_receivingNext s) ?b"
  have b: "mild R ?a ?b" by (simp add: mild_unfold)
  have d: "mild R c ?d"
    by (rule mild_trans [OF mild_trans [OF mild_handleOption b] mild_processReceivingNext]) (use g in simp)
  obtain m r e where e: "ackNumbers (ak_numberList s) 0 False ?d = (m, r, e)" by (cases "ackNumbers (ak_numberList s) 0 False ?d")
  have "mild R ?d e" using mild_ackNumbers [of "ak_numberList s" R ?d 0 False] g e by simp
  with d have ce: "mild R c e" by (rule mild_trans)
  then have fa: "mild R c (handleFastAck m e)" using mild_handleFastAck by (rule mild_trans)
  then have "mild R c (updateRTT t now (handleFastAck m e))" for t using mild_updateRTT by (rule mild_trans)
  with d ce fa show ?thesis unfolding inputAck_def Let_def e prod.case by (simp del: if_split split: if_split)
qed

lemma mild_inputCmd: "goodSeg W R (SCmd s) \<Longrightarrow> mild R c (snd (inputCmd now s c))"
proof -
  assume g: "goodSeg W R (SCmd s)"
  let ?a = "handleOption now (co_option s) c"
  have "mild R c b \<Longrightarrow> mild R c (updatePeerRTO (co_peerRTO s) now (processSendingNext (co_sendingNext s) (processReceivingNext (co_receivingNext s) b)))" for b
    by (rule mild_trans [OF mild_trans [OF mild_trans mild_processSendingNext] mild_updatePeerRTO])
      (use mild_processReceivingNext [of "co_receivingNext s" R] g in auto)
  moreover have "mild R c ?a" by (rule mild_handleOption)
  moreover have "mild R c (setState now st ?a)" if "st \<noteq> StateActive" "st \<noteq> StateReadyToClose" for st
    using mild_trans [OF mild_handleOption mild_setState] that by blast
  ultimately show ?thesis unfolding inputCmd_def Let_def case_prod_beta by (auto split: connState.split)
qed


section \<open>Delivery\<close>

lemma unat_Suc: "unat n < length W \<Longrightarrow> length W < 2 ^ 32 \<Longrightarrow> unat ((n :: u32) + 1) = unat n + 1"
  by (simp add: unat_plus_simple [THEN iffD1] unat_word_ariths)

lemma deliver_same [simp]:
  "kc_ackList (deliver c) = kc_ackList c" "kc_sendWindow (deliver c) = kc_sendWindow c" "kc_sendNext (deliver c) = kc_sendNext c"
  "kc_state (deliver c) = kc_state c" "kc_cfg (deliver c) = kc_cfg c" "kc_conv (deliver c) = kc_conv c"
proof (induction c rule: deliver.induct)
  case (1 c)
  case 1 show ?case using "1.IH"(1) by (subst deliver.simps) (simp split: option.split)
  case 2 show ?case using "1.IH"(2) by (subst deliver.simps) (simp split: option.split)
  case 3 show ?case using "1.IH"(3) by (subst deliver.simps) (simp split: option.split)
  case 4 show ?case using "1.IH"(4) by (subst deliver.simps) (simp split: option.split)
  case 5 show ?case using "1.IH"(5) by (subst deliver.simps) (simp split: option.split)
  case 6 show ?case using "1.IH"(6) by (subst deliver.simps) (simp split: option.split)
qed

lemma deliver_recv:
  "recvOK W got c \<Longrightarrow> length W < 2 ^ 32 \<Longrightarrow>
    recvOK W got (deliver c) \<and> recd c \<subseteq> recd (deliver c) \<and> map_of (kc_recvCache (deliver c)) (kc_recvNext (deliver c)) = None"
proof (induction c rule: deliver.induct)
  case (1 c)
  show ?case
  proof (cases "map_of (kc_recvCache c) (kc_recvNext c)")
    case None
    then have "deliver c = c" by (subst deliver.simps) simp
    then show ?thesis using 1 None by simp
  next
    case (Some seg)
    let ?n = "kc_recvNext c"
    let ?c = "c \<lparr> kc_recvCache := filter (\<lambda>(n, _). n \<noteq> ?n) (kc_recvCache c), kc_recvNext := ?n + 1, kc_readBuf := kc_readBuf c @ dg_payload seg \<rparr>"
    have d: "deliver c = deliver ?c" using Some by (subst deliver.simps) simp
    have "(?n, seg) \<in> set (kc_recvCache c)" using Some by (rule map_of_SomeD)
    then have n: "unat ?n < length W" "dg_payload seg = W ! unat ?n" using "1.prems"(1) by (auto simp: recvOK_def)
    note s = unat_Suc [OF n(1) "1.prems"(2)]
    have "recvOK W got ?c" using "1.prems"(1) n s unfolding recvOK_def by (auto simp: take_Suc_conv_app_nth)
    moreover have "recd c \<subseteq> recd ?c"
    proof
      fix m assume "m \<in> recd c"
      moreover have "m < ?n \<Longrightarrow> m < ?n + 1" "?n < ?n + 1" using s by (auto simp: word_less_nat_alt)
      ultimately show "m \<in> recd ?c" by (cases "m = ?n") (force simp: recd_def)+
    qed
    ultimately show ?thesis using "1.IH" [OF Some] "1.prems"(2) unfolding d by blast
  qed
qed

text \<open>One incoming segment of an honest peer.\<close>

definition progress :: "bytes list \<Rightarrow> bytes \<Rightarrow> u32 set \<Rightarrow> Conn \<Rightarrow> Conn \<Rightarrow> bool" where
  "progress W got R c c' =
    (recvOK W got c \<and> settled c \<longrightarrow> recvOK W got c' \<and> settled c' \<and> recd c \<subseteq> recd c' \<and> sends R c c' \<and> kc_conv c' = kc_conv c)"

lemma progress_trans: "progress W got R a b \<Longrightarrow> progress W got R b c \<Longrightarrow> progress W got R a c"
  unfolding progress_def using sends_trans by (metis subset_trans)

lemma progress_refl [simp]: "progress W got R c c"
  by (simp add: progress_def)

lemma mild_recv: "mild R c c' \<Longrightarrow> recvOK W got c' = recvOK W got c \<and> recd c' = recd c \<and> (settled c \<longrightarrow> settled c')"
  by (auto simp: mild_def sameRecv_def recvOK_def recd_def settled_def)

lemma mild_progress: "mild R c c' \<Longrightarrow> progress W got R c c'"
  using mild_recv [of R c c' W got] by (auto simp: progress_def mild_def sameRecv_def)

lemma cached: "k \<in> fst ` set (case map_of C k of None \<Rightarrow> (k, d) # C | Some _ \<Rightarrow> C)"
proof (cases "map_of C k")
  case (Some e)
  then have "(k, e) \<in> set C" by (rule map_of_SomeD)
  then show ?thesis using Some by (simp add: rev_image_eqI)
qed simp

lemma inputData_progress:
  assumes "goodSeg W R (SData s)" "length W < 2 ^ 32"
  shows "progress W got R c (inputData now s c)"
proof -
  let ?a = "processSendingNext (dg_sendingNext s) (handleOption now (dg_option s) c)"
  have a: "mild R c ?a" by (rule mild_trans [OF mild_handleOption mild_processSendingNext])
  define b where "b = (if dg_number s - kc_recvNext ?a < receivingInFlightSize (kc_cfg ?a) then
         ?a \<lparr> kc_ackList := kc_ackList ?a @ [\<lparr> ai_number = dg_number s, ai_timestamp = dg_timestamp s, ai_nextFlush = 0 \<rparr>],
             kc_ackDirty := True,
             kc_recvCache := (case map_of (kc_recvCache ?a) (dg_number s) of
                                None \<Rightarrow> (dg_number s, s) # kc_recvCache ?a | Some _ \<Rightarrow> kc_recvCache ?a) \<rparr>
       else ?a)"
  have i: "inputData now s c = deliver b" by (simp add: inputData_def b_def Let_def)
  have "progress W got R ?a (deliver b)" unfolding progress_def
  proof (intro impI)
    assume ok: "recvOK W got ?a \<and> settled ?a"
    have b1: "recvOK W got b" using ok assms(1) by (auto simp: b_def recvOK_def split: option.split)
    have b2: "recd ?a \<subseteq> recd b" by (auto simp: b_def recd_def split: option.split)
    have b3: "acks b \<subseteq> recd b"
    proof (cases "dg_number s - kc_recvNext ?a < receivingInFlightSize (kc_cfg ?a)")
      case True
      then have "acks b = insert (dg_number s) (acks ?a)" by (simp add: b_def acks_def)
      moreover have "dg_number s \<in> recd b" using True cached [of "dg_number s" s "kc_recvCache ?a"] by (simp add: b_def recd_def)
      ultimately show ?thesis using ok b2 by (auto simp: settled_def)
    next
      case False
      then have "b = ?a" by (simp add: b_def)
      then show ?thesis using ok by (simp add: settled_def)
    qed
    have b4: "kc_sendNext b = kc_sendNext ?a" "wkeys b = wkeys ?a" "nums b = nums ?a" "kc_open b = kc_open ?a" "kc_conv b = kc_conv ?a"
      by (auto simp: b_def wkeys_def nums_def kc_open_def)
    note d = deliver_recv [OF b1 assms(2)]
    have "settled (deliver b)" using d b3 by (auto simp: settled_def acks_def)
    moreover have "sends R ?a (deliver b)" using b4 by (simp add: sends_def wkeys_def nums_def kc_open_def)
    ultimately show "recvOK W got (deliver b) \<and> settled (deliver b) \<and> recd ?a \<subseteq> recd (deliver b) \<and> sends R ?a (deliver b) \<and> kc_conv (deliver b) = kc_conv ?a"
      using d b2 b4(5) by auto
  qed
  with mild_progress [OF a] show ?thesis unfolding i by (rule progress_trans)
qed

lemma inputSegment_progress:
  assumes "goodSeg W R seg" "length W < 2 ^ 32"
  shows "progress W got R c (snd (inputSegment now seg c))"
  using assms inputData_progress mild_progress [OF mild_inputAck] mild_progress [OF mild_inputCmd]
  by (cases seg) (simp_all del: goodSeg.simps)

lemma inputLoop_progress:
  assumes "length W < 2 ^ 32"
  shows "list_all (goodSeg W R) segs \<Longrightarrow> progress W got R c (snd (inputLoop now segs t c))"
proof (induction segs arbitrary: t c)
  case (Cons seg segs)
  then show ?case using inputSegment_progress [OF _ assms, of R seg got c now]
    by (auto simp: case_prod_beta Let_def intro: progress_trans)
qed simp

lemma kc_Input_progress:
  assumes "length W < 2 ^ 32" "list_all (goodSeg W R) segs"
  shows "progress W got R c (kc_Input now segs c)"
proof -
  let ?c = "c \<lparr> kc_lastIncoming := now \<rparr>"
  have "mild R c ?c" by (simp add: mild_unfold)
  then have "progress W got R c (snd (inputLoop now segs False ?c))"
    using mild_progress inputLoop_progress [OF assms] progress_trans by blast
  then show ?thesis unfolding kc_Input_def Let_def case_prod_beta
    using mild_progress [OF mild_terminate] progress_trans by (auto simp del: inputLoop.simps)
qed


section \<open>What a flush sends\<close>

fun fromConn :: "Conn \<Rightarrow> segment \<Rightarrow> bool" where
  "fromConn c (SData d) = (skey d \<in> wkeys c)"
| "fromConn c (SAck a) = (set (ak_numberList a) \<subseteq> acks c \<and> ak_receivingNext a = kc_recvNext c)"
| "fromConn c (SCmd s) = (co_receivingNext s = kc_recvNext c)"

lemma ackLoop_spec:
  assumes "ackLoop now c items done segs ack cands dirty = (items', segs', ack', cands', dirty')"
    and "A = ai_number ` set (done @ items)" "ak_receivingNext ack = kc_recvNext c" "set (ak_numberList ack) \<subseteq> A" "set cands \<subseteq> A"
    and "list_all (\<lambda>a. set (ak_numberList a) \<subseteq> A \<and> ak_receivingNext a = kc_recvNext c) segs"
  shows "ai_number ` set items' = A \<and> ak_receivingNext ack' = kc_recvNext c \<and> set (ak_numberList ack') \<subseteq> A \<and> set cands' \<subseteq> A
    \<and> list_all (\<lambda>a. set (ak_numberList a) \<subseteq> A \<and> ak_receivingNext a = kc_recvNext c) segs'"
  using assms
proof (induction now c items "done" segs ack cands dirty rule: ackLoop.induct)
  case (2 now c item rest "done" segs ack cands dirty)
  show ?case
  proof (cases "ai_nextFlush item > now")
    case True
    then show ?thesis using "2.IH"(1) [OF True] "2.prems" by auto
  next
    case False
    let ?ack = "ack \<lparr> ak_numberList := ak_numberList ack @ [ai_number item],
       ak_timestamp := (if ai_timestamp item - ak_timestamp ack < 0x7fffffff then ai_timestamp item else ak_timestamp ack) \<rparr>"
    show ?thesis
    proof (cases "length (ak_numberList ?ack) = 128")
      case True
      then show ?thesis using "2.IH"(2) [OF False refl refl refl True] "2.prems" False
        by (auto simp: Let_def newAckSegment_def insert_absorb)
    next
      case False2: False
      then show ?thesis using "2.IH"(3) [OF False refl refl refl False2] "2.prems" False by (auto simp: Let_def)
    qed
  qed
qed auto

lemma flushAcks_spec:
  "mild R c (snd (flushAcks now c)) \<and> list_all (fromConn c) (fst (flushAcks now c)) \<and> kc_state (snd (flushAcks now c)) = kc_state c
   \<and> wkeys (snd (flushAcks now c)) = wkeys c"
proof (cases "kc_ackList c = []")
  case False
  obtain items segs ack cands dirty where l:
      "ackLoop now c (kc_ackList c) [] [] (newAckSegment c) [] (kc_ackDirty c) = (items, segs, ack, cands, dirty)"
    by (cases "ackLoop now c (kc_ackList c) [] [] (newAckSegment c) [] (kc_ackDirty c)") auto
  have sp: "ai_number ` set items = acks c" "ak_receivingNext ack = kc_recvNext c" "set (ak_numberList ack) \<subseteq> acks c" "set cands \<subseteq> acks c"
      "list_all (\<lambda>a. set (ak_numberList a) \<subseteq> acks c \<and> ak_receivingNext a = kc_recvNext c) segs"
    using ackLoop_spec [OF l, of "acks c"] by (auto simp: acks_def newAckSegment_def)
  have "set (take k cands) \<subseteq> acks c" for k using sp(4) set_take_subset by fast
  then show ?thesis using False sp unfolding flushAcks_def l
    by (auto simp: mild_def sends_def sameRecv_def acks_def wkeys_def nums_def kc_open_def list_all_iff)
qed (simp add: flushAcks_def)

lemma sendLoop_spec:
  "sendLoop now c cwnd w t l f = (w', out, r) \<Longrightarrow>
    map skey w' = map skey w
    \<and> skey ` set out \<subseteq> skey ` set w"
proof (induction now c cwnd w t l f arbitrary: w' out r rule: sendLoop.induct)
  case (2 now c cwnd seg segs t l f)
  obtain w1 o1 r1 where s1: "sendLoop now c cwnd segs t l f = (w1, o1, r1)" by (cases "sendLoop now c cwnd segs t l f")
  let ?t = "if dg_transmit seg = 0 then t + 1 else t" and ?l = "if dg_transmit seg = 0 then l else l + 1"
  obtain w2 o2 r2 where s2: "sendLoop now c cwnd segs ?t ?l (f + 1) = (w2, o2, r2)" by (cases "sendLoop now c cwnd segs ?t ?l (f + 1)")
  show ?case
  proof (cases "now - dg_timeout seg \<ge> 0x7fffffff")
    case True
    then show ?thesis using "2.IH"(1) [OF True s1] "2.prems" s1 by auto
  next
    case False
    show ?thesis
    proof (cases "f + 1 \<ge> cwnd")
      case True
      then show ?thesis using "2.prems" False by (auto simp: Let_def)
    next
      case False2: False
      have "w' = sendable now c seg # w2" "out = sendable now c seg # o2" using "2.prems" s2 False False2 by (auto simp: Let_def)
      then show ?thesis using "2.IH"(2) [OF False refl refl refl False2 s2] by (simp add: subset_insertI2)
    qed
  qed
qed simp

lemma flushSend_spec: "mild R c (snd (flushSend now c)) \<and> list_all (fromConn c) (fst (flushSend now c))"
proof (cases "kc_sendWindow c = []")
  case True
  then show ?thesis by (auto simp: flushSend_def pingSegment_def Let_def mild_unfold)
next
  case False
  let ?r = "kc_remoteRecvWin c - kc_firstUnacked c" and ?s = "sendingInFlightSize (kc_cfg c)"
  let ?u = "if ?s > ?r then ?r else ?s"
  let ?cw = "if kf_Congestion (kc_cfg c) \<and> ?u > kc_controlWindow c then kc_controlWindow c else ?u"
  obtain w out t lost f where l: "sendLoop now c (?cw * 20) (kc_sendWindow c) (kc_totalInFlightSize c) 0 0 = (w, out, t, lost, f)"
    by (cases "sendLoop now c (?cw * 20) (kc_sendWindow c) (kc_totalInFlightSize c) 0 0") auto
  note sp = sendLoop_spec [OF l]
  have "mild R c (c \<lparr> kc_sendWindow := w \<rparr>)" using sp by (intro mild_retime) simp
  moreover have "mild R b (b \<lparr> kc_totalInFlightSize := t \<rparr>)" "mild R b (onPacketLoss k b)" "mild R b (b \<lparr> kc_firstUnackedWasUpdated := False \<rparr>)" for b k
    by (simp_all add: mild_unfold onPacketLoss_def Let_def)
  ultimately have "mild R c (c \<lparr> kc_sendWindow := w, kc_totalInFlightSize := t \<rparr>)"
    "mild R b (if q then onPacketLoss k b else b)" "mild R b (b \<lparr> kc_firstUnackedWasUpdated := False \<rparr>)" for b k q
    using mild_trans by auto
  then have "mild R c ((if q then onPacketLoss k (c \<lparr> kc_sendWindow := w, kc_totalInFlightSize := t \<rparr>)
      else c \<lparr> kc_sendWindow := w, kc_totalInFlightSize := t \<rparr>) \<lparr> kc_firstUnackedWasUpdated := False \<rparr>)" for k q
    using mild_trans by blast
  moreover have "list_all (fromConn c) (map SData out)" using sp by (auto simp: list_all_iff wkeys_def)
  ultimately show ?thesis using False unfolding flushSend_def Let_def l by simp
qed


lemma fromConn_mild: "mild R c b \<Longrightarrow> fromConn b seg \<Longrightarrow> fromConn c seg"
  by (cases seg) (auto simp: mild_def sends_def sameRecv_def)

lemma pingSegment_spec: "mild R c (snd (pingSegment cmd now c)) \<and> fromConn c (SCmd (fst (pingSegment cmd now c)))"
  by (simp add: pingSegment_def mild_unfold)

lemma mild_flushStates: "mild R c (flushStates now c)"
proof -
  define b where "b = (if kc_state c = StateActive \<and> now - kc_lastIncoming c \<ge> 30000 then setState now StateReadyToClose c else c)"
  have m: "mild R c b" by (simp add: b_def mild_setState)
  moreover have "mild R c (setState now StateTerminating b)" by (rule mild_trans [OF m mild_setState]) simp_all
  ultimately show ?thesis unfolding flushStates_def Let_def b_def [symmetric] by simp
qed

lemma kc_flush_spec: "mild R c (snd (kc_flush now c)) \<and> list_all (fromConn c) (fst (kc_flush now c))"
proof (cases "kc_state c = StateTerminated")
  case False
  define b where "b = flushStates now c"
  have b: "mild R c b" unfolding b_def by (rule mild_flushStates)
  show ?thesis
  proof (cases "kc_state b = StateTerminating")
    case True
    obtain p d where p: "pingSegment commandTerminate now b = (p, d)" by fastforce
    have d: "mild R c d" "fromConn c (SCmd p)" using pingSegment_spec [of R b commandTerminate now] p mild_trans [OF b] fromConn_mild [OF b] by (auto simp del: fromConn.simps)
    have "mild R d (kc_terminate now (setState now StateTerminated d))" by (rule mild_trans [OF mild_setState mild_terminate]) simp_all
    with d(1) have "mild R c (kc_terminate now (setState now StateTerminated d))" by (rule mild_trans)
    with d show ?thesis using False True p by (simp add: kc_flush_def b_def [symmetric] Let_def)
  next
    case open2: False
    define d where "d = (if kc_state b = StatePeerTerminating \<and> now - kc_stateBegin b > 4000 then setState now StateTerminating b else b)"
    define e where "e = (if kc_state d = StateReadyToClose \<and> now - kc_stateBegin d > 15000 then setState now StateTerminating d else d)"
    have tm: "mild R k (setState now StateTerminating k)" for k by (rule mild_setState) simp_all
    have "mild R b d" "mild R d e" unfolding d_def e_def using tm by simp_all
    then have e: "mild R c e" by (rule mild_trans [OF mild_trans [OF b]])
    obtain s1 c1 where a: "flushAcks now e = (s1, c1)" by fastforce
    have c1: "mild R c c1" "list_all (fromConn c) s1"
      using flushAcks_spec [of R e now] a mild_trans [OF e] fromConn_mild [OF e] by (auto simp: list_all_iff simp del: fromConn.simps)
    obtain s2 c2 where d2: "flushSend now c1 = (s2, c2)" by fastforce
    have c2: "mild R c c2" "list_all (fromConn c) s2"
      using flushSend_spec [of R c1 now] d2 mild_trans [OF c1(1)] fromConn_mild [OF c1(1)] by (auto simp: list_all_iff simp del: fromConn.simps)
    obtain p c3 where p: "pingSegment commandPing now c2 = (p, c3)" by fastforce
    have c3: "mild R c c3" "fromConn c (SCmd p)"
      using pingSegment_spec [of R c2 commandPing now] p mild_trans [OF c2(1)] fromConn_mild [OF c2(1)] by (auto simp del: fromConn.simps)
    show ?thesis using False open2 a d2 p c1 c2 c3 unfolding kc_flush_def b_def [symmetric] d_def [symmetric] e_def [symmetric] Let_def
      by (simp add: d_def [symmetric] e_def [symmetric])
  qed
qed (simp add: kc_flush_def)

section \<open>Two connections and the network\<close>

datatype side = LeftSide | RightSide

fun other :: "side \<Rightarrow> side" where
  "other LeftSide = RightSide"
| "other RightSide = LeftSide"

lemma other_other [simp]: "other (other x) = x" and other_neq [simp]: "other x \<noteq> x" "x \<noteq> other x"
  by (cases x; simp)+

record kcpLink =
  lk_conn :: "side \<Rightarrow> Conn"
  lk_wrote :: "side \<Rightarrow> bytes list"
  lk_got :: "side \<Rightarrow> bytes"
  lk_sent :: "side \<Rightarrow> segment set"

inductive link_step :: "kcpLink \<Rightarrow> kcpLink \<Rightarrow> bool" where
  step_write: "kc_writePiece p (lk_conn s x) = Some (Inr c) \<Longrightarrow>
    link_step s (s \<lparr> lk_conn := (lk_conn s)(x := c), lk_wrote := (lk_wrote s)(x := lk_wrote s x @ [p]) \<rparr>)"
| step_read: "kc_Read n (lk_conn s x) = Some (Inr (b, c)) \<Longrightarrow>
    link_step s (s \<lparr> lk_conn := (lk_conn s)(x := c), lk_got := (lk_got s)(x := lk_got s x @ b) \<rparr>)"
| step_flush: "kc_flush now (lk_conn s x) = (segs, c) \<Longrightarrow>
    link_step s (s \<lparr> lk_conn := (lk_conn s)(x := c), lk_sent := (lk_sent s)(x := lk_sent s x \<union> onWire ` set segs) \<rparr>)"
| step_input: "set segs \<subseteq> lk_sent s (other x) \<Longrightarrow>
    link_step s (s \<lparr> lk_conn := (lk_conn s)(x := kc_Input now segs (lk_conn s x)) \<rparr>)"
| step_close: "kc_Close now (lk_conn s x) = Inr c \<Longrightarrow> link_step s (s \<lparr> lk_conn := (lk_conn s)(x := c) \<rparr>)"
| step_terminate: "link_step s (s \<lparr> lk_conn := (lk_conn s)(x := kc_terminate now (lk_conn s x)) \<rparr>)"

inductive_cases link_stepE: "link_step s s'"

definition link_start :: "kcpLink \<Rightarrow> bool" where
  "link_start s =
    (lk_wrote s = (\<lambda>_. []) \<and> lk_got s = (\<lambda>_. []) \<and> lk_sent s = (\<lambda>_. {})
     \<and> (\<exists>cfgL cfgR oL oR conv. newConn cfgL oL conv = Some (lk_conn s LeftSide) \<and> newConn cfgR oR conv = Some (lk_conn s RightSide)))"

definition sideInv :: "kcpLink \<Rightarrow> side \<Rightarrow> bool" where
  "sideInv s x =
    (let c = lk_conn s x; y = other x in
     sendOK (lk_wrote s x) c
     \<and> recvOK (lk_wrote s y) (lk_got s x) c \<and> settled c
     \<and> (\<forall>seg \<in> lk_sent s x. goodSeg (lk_wrote s x) (recd c) seg)
     \<and> (kc_open c \<longrightarrow> word_of_nat ` {..<length (lk_wrote s x)} \<subseteq> nums c \<union> recd (lk_conn s y)))"

lemma goodSeg_mono: "goodSeg W R seg \<Longrightarrow> R \<subseteq> R' \<Longrightarrow> goodSeg (W @ V) R' seg"
  by (cases seg) (auto simp: nth_append)

lemma recvOK_more: "recvOK W got c \<Longrightarrow> recvOK (W @ [p]) got c"
  by (auto simp: recvOK_def nth_append)

text \<open>A side that only moves on, as every operation but a write does, keeps the invariant of both sides.\<close>

lemma inv_move:
  assumes "\<forall>z. sideInv s z" "progress (lk_wrote s (other x)) got (recd (lk_conn s (other x))) (lk_conn s x) c"
    and "got = lk_got s x" "\<forall>seg \<in> new. goodSeg (lk_wrote s x) (recd c) seg"
    and "s' = s \<lparr> lk_conn := (lk_conn s)(x := c), lk_sent := (lk_sent s)(x := lk_sent s x \<union> new) \<rparr>"
  shows "sideInv s' z"
proof -
  have inv: "sideInv s x" "sideInv s (other x)" using assms(1) by blast+
  have p: "recvOK (lk_wrote s (other x)) (lk_got s x) c" "settled c" "recd (lk_conn s x) \<subseteq> recd c" "sends (recd (lk_conn s (other x))) (lk_conn s x) c"
    using assms(2,3) inv(1) by (auto simp: progress_def sideInv_def Let_def)
  have good: "goodSeg (lk_wrote s x) (recd c) seg" if "seg \<in> lk_sent s x \<union> new" for seg
    using that assms(4) inv(1) goodSeg_mono [of "lk_wrote s x" "recd (lk_conn s x)" seg "recd c" "[]"] p(3) by (auto simp: sideInv_def Let_def)
  show ?thesis
  proof (cases "z = x")
    case True
    have "sendOK (lk_wrote s x) c" using inv(1) p(4) by (auto simp: sideInv_def Let_def sendOK_def sends_def)
    moreover have "kc_open c \<longrightarrow> word_of_nat ` {..<length (lk_wrote s x)} \<subseteq> nums c \<union> recd (lk_conn s (other x))"
      using inv(1) p(4) by (auto simp: sideInv_def Let_def sends_def)
    ultimately show ?thesis using True good p assms(5) by (simp add: sideInv_def Let_def)
  next
    case False
    then have z: "z = other x" by (cases x; cases z) auto
    show ?thesis using inv(2) p(3) assms(5) unfolding z by (auto simp: sideInv_def Let_def)
  qed
qed


lemma inv_mild:
  assumes "\<forall>z. sideInv s z" "mild (recd (lk_conn s (other x))) (lk_conn s x) c"
  shows "sideInv (s \<lparr> lk_conn := (lk_conn s)(x := c) \<rparr>) z"
  by (rule inv_move [OF assms(1) mild_progress [OF assms(2)] refl, of "{}"]) simp_all

lemma fromConn_good:
  assumes "sideInv s x" "fromConn (lk_conn s x) seg"
  shows "goodSeg (lk_wrote s x) (recd (lk_conn s x)) (onWire seg)"
proof (cases seg)
  case (SData d)
  then have "(dg_number d, dg_payload d) \<in> wkeys (lk_conn s x)" using assms(2) by (simp add: skey_def)
  then show ?thesis using SData assms(1) by (auto simp: sideInv_def Let_def sendOK_def)
next
  case (SAck a)
  then show ?thesis using assms by (auto simp: sideInv_def Let_def settled_def recd_def)
next
  case (SCmd k)
  then show ?thesis using assms by (auto simp: recd_def)
qed

lemma inv_flush:
  assumes "\<forall>z. sideInv s z" "kc_flush now (lk_conn s x) = (segs, c)"
  shows "sideInv (s \<lparr> lk_conn := (lk_conn s)(x := c), lk_sent := (lk_sent s)(x := lk_sent s x \<union> onWire ` set segs) \<rparr>) z"
proof -
  have f: "mild (recd (lk_conn s (other x))) (lk_conn s x) c" "list_all (fromConn (lk_conn s x)) segs"
    using kc_flush_spec [of "recd (lk_conn s (other x))" "lk_conn s x" now] assms(2) by simp_all
  have "\<forall>seg \<in> onWire ` set segs. goodSeg (lk_wrote s x) (recd c) seg"
    using fromConn_good [of s x] assms(1) f mild_recv [OF f(1)] by (auto simp: list_all_iff)
  then show ?thesis by (rule inv_move [OF assms(1) mild_progress [OF f(1)] refl]) simp
qed

lemma inv_input:
  assumes "\<forall>z. sideInv s z" "set segs \<subseteq> lk_sent s (other x)" "length (lk_wrote s (other x)) < 2 ^ 32"
  shows "sideInv (s \<lparr> lk_conn := (lk_conn s)(x := kc_Input now segs (lk_conn s x)) \<rparr>) z"
proof -
  have "sideInv s (other x)" using assms(1) by blast
  then have "list_all (goodSeg (lk_wrote s (other x)) (recd (lk_conn s (other x)))) segs"
    using assms(2) by (auto simp: sideInv_def Let_def list_all_iff)
  from kc_Input_progress [OF assms(3) this] show ?thesis by (rule inv_move [OF assms(1) _ refl, of _ _ "{}"]) simp_all
qed

lemma mild_Close: "kc_Close now c = Inr c' \<Longrightarrow> mild R c c'"
proof -
  have t: "mild R c (kc_terminate now (setState now StateTerminated c))" by (rule mild_trans [OF mild_setState mild_terminate]) simp_all
  show "kc_Close now c = Inr c' \<Longrightarrow> ?thesis" using t by (auto simp: kc_Close_def intro!: mild_setState split: connState.splits)
qed

lemma inv_write:
  assumes "\<forall>z. sideInv s z" "kc_writePiece p (lk_conn s x) = Some (Inr c)" "length (lk_wrote s x) < 2 ^ 32"
  shows "sideInv (s \<lparr> lk_conn := (lk_conn s)(x := c), lk_wrote := (lk_wrote s)(x := lk_wrote s x @ [p]) \<rparr>) z"
proof -
  let ?c = "lk_conn s x" and ?W = "lk_wrote s x"
  have inv: "sideInv s x" "sideInv s (other x)" using assms(1) by blast+
  have c: "c = ?c \<lparr> kc_sendNext := kc_sendNext ?c + 1, kc_sendWindow := kc_sendWindow ?c @ [newDataSegment (kc_sendNext ?c) p] \<rparr>"
      "kc_state ?c = StateActive"
    using assms(2) by (auto simp: kc_writePiece_def split: if_split_asm)
  have n: "kc_sendNext ?c = word_of_nat (length ?W)" using inv(1) by (simp add: sideInv_def Let_def sendOK_def)
  have u: "unat (word_of_nat (length ?W) :: u32) = length ?W" using assms(3) by (simp add: unat_of_nat)
  have keys: "wkeys c = insert (word_of_nat (length ?W), p) (wkeys ?c)" "nums c = insert (word_of_nat (length ?W)) (nums ?c)"
    using c(1) n by (simp_all add: wkeys_def nums_def newDataSegment_def skey_def)
  have same: "recd c = recd ?c" "settled c = settled ?c" "recvOK V got c = recvOK V got ?c" "kc_open c" "kc_open ?c" for V got
    using c by (simp_all add: recd_def settled_def acks_def recvOK_def kc_open_def)
  show ?thesis
  proof (cases "z = x")
    case True
    have "sendOK (?W @ [p]) c" using inv(1) keys(1) u c(1) n by (auto simp: sideInv_def Let_def sendOK_def nth_append)
    moreover have "\<forall>seg \<in> lk_sent s x. goodSeg (?W @ [p]) (recd c) seg" using inv(1) same(1) goodSeg_mono by (auto simp: sideInv_def Let_def)
    moreover have "word_of_nat ` {..<length (?W @ [p])} \<subseteq> nums c \<union> recd (lk_conn s (other x))"
    proof -
      have "word_of_nat ` {..<length ?W} \<subseteq> nums ?c \<union> recd (lk_conn s (other x))" using inv(1) same(5) by (simp add: sideInv_def Let_def)
      moreover have "{..<length (?W @ [p])} = insert (length ?W) {..<length ?W}" by auto
      ultimately show ?thesis unfolding keys(2) by auto
    qed
    ultimately show ?thesis using True inv(1) same by (simp add: sideInv_def Let_def)
  next
    case False
    then have z: "z = other x" by (cases x; cases z) auto
    show ?thesis using inv(2) same(1) recvOK_more unfolding z by (auto simp: sideInv_def Let_def)
  qed
qed

lemma inv_read:
  assumes "\<forall>z. sideInv s z" "kc_Read n (lk_conn s x) = Some (Inr (b, c))"
  shows "sideInv (s \<lparr> lk_conn := (lk_conn s)(x := c), lk_got := (lk_got s)(x := lk_got s x @ b) \<rparr>) z"
proof -
  let ?c = "lk_conn s x"
  have inv: "sideInv s x" "sideInv s (other x)" using assms(1) by blast+
  have c: "b = take n (kc_readBuf ?c)" "c = ?c \<lparr> kc_readBuf := drop n (kc_readBuf ?c) \<rparr>"
    using assms(2) by (auto simp: kc_Read_def split: if_split_asm)
  have "recd c = recd ?c" "settled c = settled ?c" "sendOK W c = sendOK W ?c" "kc_open c = kc_open ?c" "nums c = nums ?c"
      "recvOK W (got @ b) c = recvOK W got ?c" for W got
    using c by (simp_all add: recd_def settled_def acks_def recvOK_def kc_open_def sendOK_def wkeys_def nums_def)
  then show ?thesis using inv by (cases "z = x"; cases x; cases z) (simp_all add: sideInv_def Let_def)
qed

inductive link_reach :: "kcpLink \<Rightarrow> bool" where
  reach_start: "link_start s \<Longrightarrow> link_reach s"
| reach_step: "link_reach s \<Longrightarrow> link_step s s' \<Longrightarrow> link_reach s'"

lemma link_step_wrote: "link_step s s' \<Longrightarrow> length (lk_wrote s z) \<le> length (lk_wrote s' z)"
  by (auto elim!: link_stepE)

lemma link_inv: "link_reach s \<Longrightarrow> \<forall>z. length (lk_wrote s z) < 2 ^ 32 \<Longrightarrow> \<forall>z. sideInv s z"
proof (induction rule: link_reach.induct)
  case (reach_start s)
  then obtain cfgL cfgR oL oR conv where "newConn cfgL oL conv = Some (lk_conn s LeftSide)" "newConn cfgR oR conv = Some (lk_conn s RightSide)"
      "lk_wrote s = (\<lambda>_. [])" "lk_got s = (\<lambda>_. [])" "lk_sent s = (\<lambda>_. {})" unfolding link_start_def by blast
  note st = this
  have new: "sendOK [] c \<and> recvOK [] [] c \<and> settled c" if "newConn cfg k conv = Some c" for cfg k c
    using that by (auto simp: newConn_def sendOK_def recvOK_def settled_def wkeys_def acks_def split: if_split_asm)
  show ?case
  proof
    fix z show "sideInv s z" using new [OF st(1)] new [OF st(2)] st(3-5) by (cases z) (simp_all add: sideInv_def Let_def)
  qed
next
  case (reach_step s s')
  have len: "length (lk_wrote s z) < 2 ^ 32" for z using link_step_wrote [OF reach_step.hyps(2), of z] reach_step.prems by (meson le_less_trans)
  then have inv: "\<forall>z. sideInv s z" using reach_step.IH by blast
  from reach_step.hyps(2) show ?case
    by cases (use inv len in \<open>auto intro: inv_write inv_read inv_flush inv_input inv_mild [OF _ mild_Close] inv_mild [OF _ mild_terminate]\<close>)
qed

text \<open>
  C27: Over a network that loses, repeats, delays and reorders packets at will, and whatever the clocks
  show, what one mKCP connection has delivered is a beginning of what the other wrote, in order and
  without gap or repetition; and when the sending window of a connection that is open, or closing but
  not given up, is empty, the peer has delivered everything. This holds for every reachable pair of
  connections that wrote fewer than 2^32 pieces each.
\<close>

theorem kcp_reliable:
  assumes "link_reach s" "\<forall>z. length (lk_wrote s z) < 2 ^ 32"
  shows "prefix (lk_got s x @ kc_readBuf (lk_conn s x)) (concat (lk_wrote s (other x)))
    \<and> (kc_open (lk_conn s (other x)) \<and> kc_sendWindow (lk_conn s (other x)) = [] \<longrightarrow>
       lk_got s x @ kc_readBuf (lk_conn s x) = concat (lk_wrote s (other x)))"
proof -
  let ?c = "lk_conn s x" and ?W = "lk_wrote s (other x)"
  have inv: "sideInv s x" "sideInv s (other x)" using link_inv [OF assms] by blast+
  have r: "lk_got s x @ kc_readBuf ?c = concat (take (unat (kc_recvNext ?c)) ?W)" "unat (kc_recvNext ?c) \<le> length ?W"
      "map_of (kc_recvCache ?c) (kc_recvNext ?c) = None"
    using inv(1) by (auto simp: sideInv_def Let_def recvOK_def settled_def)
  have "concat ?W = concat (take (unat (kc_recvNext ?c)) ?W) @ concat (drop (unat (kc_recvNext ?c)) ?W)"
    by (metis append_take_drop_id concat_append)
  then have "prefix (lk_got s x @ kc_readBuf ?c) (concat ?W)" unfolding r(1) by (simp add: prefix_def)
  moreover have "unat (kc_recvNext ?c) = length ?W" if "kc_open (lk_conn s (other x))" "kc_sendWindow (lk_conn s (other x)) = []"
  proof (rule ccontr)
    assume "unat (kc_recvNext ?c) \<noteq> length ?W"
    then have "unat (kc_recvNext ?c) < length ?W" using r(2) by simp
    then have "kc_recvNext ?c \<in> word_of_nat ` {..<length ?W}" by (intro image_eqI [of _ _ "unat (kc_recvNext ?c)"]) simp_all
    then have "kc_recvNext ?c \<in> recd ?c" using inv(2) that by (auto simp: sideInv_def Let_def nums_def)
    then show False using r(3) by (auto simp: recd_def map_of_eq_None_iff)
  qed
  ultimately show ?thesis using r(1) by auto
qed


text \<open>Two bytes sent, received, acknowledged.\<close>

definition kwCfg :: KcpConfig where
  "kwCfg = \<lparr> kf_MTU = 0, kf_TTI = 0, kf_UplinkCapacity = 0, kf_DownlinkCapacity = 0, kf_Congestion = True, kf_WriteBuffer = 0, kf_ReadBuffer = 0 \<rparr>"

definition kw0 :: Conn where "kw0 = the (newConn kwCfg 6 7)"
definition kw1 :: Conn where "kw1 = (case kc_writePiece [104, 105] kw0 of Some (Inr c) \<Rightarrow> c | _ \<Rightarrow> kw0)"
definition kw2 :: Conn where "kw2 = snd (kc_flush 1 kw1)"
definition kw3 :: Conn where "kw3 = kc_Input 1 (map onWire (fst (kc_flush 1 kw1))) kw0"
definition kw4 :: Conn where "kw4 = snd (kc_flush 2 kw3)"
definition kw5 :: Conn where "kw5 = kc_Input 2 (map onWire (fst (kc_flush 2 kw3))) kw2"

lemma kw_steps:
  "newConn kwCfg 6 7 = Some kw0" "kc_writePiece [104, 105] kw0 = Some (Inr kw1)"
  "kc_open kw5" "kc_sendWindow kw5 = []"
  by code_simp+

theorem kcp_reliable_witness:
  "kc_readBuf kw4 = [104, 105]"
proof -
  let ?s0 = "\<lparr> lk_conn = (\<lambda>_. kw0), lk_wrote = (\<lambda>_. []), lk_got = (\<lambda>_. []), lk_sent = (\<lambda>_. {}) \<rparr>"
  let ?s1 = "?s0 \<lparr> lk_conn := (lk_conn ?s0)(LeftSide := kw1), lk_wrote := (lk_wrote ?s0)(LeftSide := lk_wrote ?s0 LeftSide @ [[104, 105]]) \<rparr>"
  let ?o1 = "fst (kc_flush 1 kw1)" and ?o2 = "fst (kc_flush 2 kw3)"
  let ?s2 = "?s1 \<lparr> lk_conn := (lk_conn ?s1)(LeftSide := kw2), lk_sent := (lk_sent ?s1)(LeftSide := lk_sent ?s1 LeftSide \<union> onWire ` set ?o1) \<rparr>"
  let ?s3 = "?s2 \<lparr> lk_conn := (lk_conn ?s2)(RightSide := kc_Input 1 (map onWire ?o1) (lk_conn ?s2 RightSide)) \<rparr>"
  let ?s4 = "?s3 \<lparr> lk_conn := (lk_conn ?s3)(RightSide := kw4), lk_sent := (lk_sent ?s3)(RightSide := lk_sent ?s3 RightSide \<union> onWire ` set ?o2) \<rparr>"
  let ?s5 = "?s4 \<lparr> lk_conn := (lk_conn ?s4)(LeftSide := kc_Input 2 (map onWire ?o2) (lk_conn ?s4 LeftSide)) \<rparr>"
  have "link_reach ?s0" by (rule reach_start) (simp add: link_start_def, use kw_steps(1) in blast)
  then have "link_reach ?s1" by (rule reach_step) (rule step_write, simp add: kw_steps(2))
  then have "link_reach ?s2" by (rule reach_step) (rule step_flush [of 1], simp add: kw2_def)
  then have "link_reach ?s3" by (rule reach_step) (rule step_input, simp)
  then have "link_reach ?s4" by (rule reach_step) (rule step_flush [of 2], simp add: kw4_def kw3_def)
  then have "link_reach ?s5" by (rule reach_step) (rule step_input, simp)
  moreover have "\<forall>z. length (lk_wrote ?s5 z) < 2 ^ 32" by simp
  ultimately have "lk_got ?s5 RightSide @ kc_readBuf (lk_conn ?s5 RightSide) = concat (lk_wrote ?s5 LeftSide)"
    using kcp_reliable [of ?s5 RightSide] kw_steps(3,4) by (simp add: kw5_def)
  then show ?thesis by simp
qed

end
