(* ===== verification/Dialogue.thy ===== *)
theory Dialogue
  imports Wire
begin

text \<open>
  Handshakes in which both sides read and write in turn.  A side is a tree of reads and writes, with a
  branch for every error the code handles; two sides run over a pair of byte streams, one step at a
  time and in any order.  Every run ends, and the order of the steps does not change how it ends, so
  one run decides them all.  What a side does against an arbitrary peer is the set of its outcomes.
\<close>

section \<open>One side\<close>

datatype ('e, 'a) talk =
    Done "('e, 'a) result"
  | Recv nat "(ioErr, bytes) result \<Rightarrow> ('e, 'a) talk"
  | Send bytes "bool \<Rightarrow> ('e, 'a) talk"

primrec talk_bind :: "('e, 'a) talk \<Rightarrow> ('a \<Rightarrow> ('e, 'b) talk) \<Rightarrow> ('e, 'b) talk" where
  "talk_bind (Done r) f = (case r of Inl e \<Rightarrow> Done (Inl e) | Inr a \<Rightarrow> f a)"
| "talk_bind (Recv n k) f = Recv n (\<lambda>r. talk_bind (k r) f)"
| "talk_bind (Send w k) f = Send w (\<lambda>ok. talk_bind (k ok) f)"

text \<open>What can come of a side, whatever the peer sends and wherever the connection breaks.\<close>

definition replies :: "nat \<Rightarrow> (ioErr, bytes) result set" where
  "replies n = Inr ` {b. length b = n} \<union> range Inl"

primrec outcomes :: "('e, 'a) talk \<Rightarrow> ('e, 'a) result set" where
  "outcomes (Done r) = {r}"
| "outcomes (Recv n k) = (\<Union>r \<in> replies n. outcomes (k r))"
| "outcomes (Send w k) = outcomes (k True) \<union> outcomes (k False)"

lemma outcomes_bind: "Inr b \<in> outcomes (talk_bind t f) \<longleftrightarrow> (\<exists>a. Inr a \<in> outcomes t \<and> Inr b \<in> outcomes (f a))"
proof (induction t)
  case (Done r)
  then show ?case by (cases r) auto
qed auto

lemma talk_bind_assoc: "talk_bind (talk_bind t f) g = talk_bind t (\<lambda>a. talk_bind (f a) g)"
proof (induction t)
  case (Done r)
  then show ?case by (cases r) auto
qed auto

section \<open>Two sides\<close>

type_synonym ('e, 'a, 'f, 'b) convo = "('e, 'a) talk \<times> ('f, 'b) talk \<times> bytes \<times> bytes"

text \<open>
  The streams hold what is written and not yet read, from the first side to the second and back.  A
  side that failed has closed the connection: the other reads what is still there and then the end.
\<close>

definition closedRead :: "bytes \<Rightarrow> ioErr" where
  "closedRead v = (if v = [] then EOF else UnexpectedEOF)"

text \<open>One step of a side: its new tree, what is left to read, what it wrote.\<close>

fun side_step :: "('e, 'a) talk \<Rightarrow> bool \<Rightarrow> bytes \<Rightarrow> (('e, 'a) talk \<times> bytes \<times> bytes) option" where
  "side_step (Done r) closed v = None"
| "side_step (Send w k) closed v = Some (k True, v, w)"
| "side_step (Recv n k) closed v =
    (if n \<le> length v then Some (k (Inr (take n v)), drop n v, [])
     else if closed then Some (k (Inl (closedRead v)), [], []) else None)"

fun failed :: "('e, 'a) talk \<Rightarrow> bool" where
  "failed (Done (Inl e)) = True"
| "failed t = False"

inductive conv_step :: "('e, 'a, 'f, 'b) convo \<Rightarrow> ('e, 'a, 'f, 'b) convo \<Rightarrow> bool" where
  left: "side_step p (failed q) v = Some (p', v', w) \<Longrightarrow> conv_step (p, q, u, v) (p', q, u @ w, v')"
| right: "side_step q (failed p) u = Some (q', u', w) \<Longrightarrow> conv_step (p, q, u, v) (p, q', u', v @ w)"

inductive_cases conv_stepE: "conv_step (p, q, u, v) d"
inductive_simps conv_step_done: "conv_step (Done r, Done s, u, v) d"

definition conv_stuck :: "('e, 'a, 'f, 'b) convo \<Rightarrow> bool" where
  "conv_stuck c = (\<forall>d. \<not> conv_step c d)"

lemma stuck_done: "conv_stuck (Done r, Done s, u, v)"
  by (simp add: conv_stuck_def conv_step_done)

text \<open>A conversation ends in \<open>d\<close>: every run stops, and wherever it stops, it is in \<open>d\<close>.\<close>

definition ends_in :: "('e, 'a, 'f, 'b) convo \<Rightarrow> ('e, 'a, 'f, 'b) convo \<Rightarrow> bool" where
  "ends_in c d = (conv_stuck d \<and> conv_step\<^sup>*\<^sup>* c d \<and> (\<forall>c'. conv_step\<^sup>*\<^sup>* c c' \<longrightarrow> conv_step\<^sup>*\<^sup>* c' d)
    \<and> \<not> (\<exists>run :: nat \<Rightarrow> ('e, 'a, 'f, 'b) convo. run 0 = c \<and> (\<forall>i. conv_step (run i) (run (Suc i)))))"

section \<open>The order of the steps\<close>

lemma not_failed: "side_step q cl u = Some x \<Longrightarrow> \<not> failed q"
  by (cases q) auto

lemma side_step_mono: "side_step p False v = Some (p', v', w) \<Longrightarrow> side_step p cl (v @ x) = Some (p', v' @ x, w)"
  by (cases p) (auto split: if_splits)

lemma side_step_commute:
  assumes "side_step p (failed q) v = Some (p', v', w)" "side_step q (failed p) u = Some (q', u', z)"
  shows "\<exists>d. conv_step (p', q, u @ w, v') d \<and> conv_step (p, q', u', v @ z) d"
proof -
  have n: "\<not> failed q" "\<not> failed p" using not_failed [OF assms(1)] not_failed [OF assms(2)] by blast+
  have "side_step q (failed p') (u @ w) = Some (q', u' @ w, z)" by (rule side_step_mono) (use assms(2) n in simp)
  moreover have "side_step p (failed q') (v @ z) = Some (p', v' @ z, w)" by (rule side_step_mono) (use assms(1) n in simp)
  ultimately show ?thesis
    using conv_step.right [of q p' "u @ w" q' "u' @ w" z v'] conv_step.left [of p q' "v @ z" p' "v' @ z" w u'] by blast
qed

lemma conv_diamond:
  assumes "conv_step a b" "conv_step a c"
  shows "b = c \<or> (\<exists>d. conv_step b d \<and> conv_step c d)"
  using assms(1)
proof cases
  case l: (left p q v p' v' w u)
  show ?thesis using assms(2)
  proof cases
    case (right q2 p2 u2 q' u' z v2)
    then have "side_step q (failed p) u = Some (q', u', z)" "c = (p, q', u', v @ z)" using l(1) by simp_all
    then show ?thesis using side_step_commute [OF l(3)] l(2) by blast
  qed (use l in simp)
next
  case r: (right q p u q' u' w v)
  show ?thesis using assms(2)
  proof cases
    case (left p2 q2 v2 p' v' z u2)
    then have "side_step p (failed q) v = Some (p', v', z)" "c = (p', q, u @ z, v')" using r(1) by simp_all
    then show ?thesis using side_step_commute [OF _ r(3)] r(2) by blast
  qed (use r in simp)
qed

text \<open>If one run ends in \<open>d\<close>, everything on the way leads there.\<close>

lemma leads_on:
  assumes "conv_step\<^sup>*\<^sup>* a d" "conv_stuck d" "conv_step a b"
  shows "conv_step\<^sup>*\<^sup>* b d"
  using assms(1,3)
proof (induction arbitrary: b rule: converse_rtranclp_induct)
  case base
  then show ?case using assms(2) unfolding conv_stuck_def by blast
next
  case (step a a')
  from conv_diamond [OF step.hyps(1) step.prems] show ?case
  proof
    assume "\<exists>d. conv_step a' d \<and> conv_step b d"
    then obtain e where "conv_step a' e" "conv_step b e" by blast
    then show ?thesis using step.IH [of e] by (meson converse_rtranclp_into_rtranclp)
  qed (use step.hyps(2) in simp)
qed

lemma leads_all:
  assumes "conv_step\<^sup>*\<^sup>* a c" "conv_step\<^sup>*\<^sup>* a d" "conv_stuck d"
  shows "conv_step\<^sup>*\<^sup>* c d"
  using assms(1,2) by (induction rule: rtranclp_induct) (auto intro: leads_on [OF _ assms(3)])

text \<open>A step goes down the tree of the side that makes it, so no run is infinite.\<close>

inductive sub :: "('e, 'a) talk \<Rightarrow> ('e, 'a) talk \<Rightarrow> bool" where
  sub_recv: "sub (k r) (Recv n k)"
| sub_send: "sub (k b) (Send w k)"

inductive_cases subE: "sub t (Done r)" "sub t (Recv n k)" "sub t (Send w k)"

lemma wf_sub: "wfp (sub :: ('e, 'a) talk \<Rightarrow> _)"
proof (rule wfpUNIVI)
  fix P :: "('e, 'a) talk \<Rightarrow> bool" and t
  assume h: "\<forall>t. (\<forall>s. sub s t \<longrightarrow> P s) \<longrightarrow> P t"
  show "P t"
  proof (induction t)
    case (Done r)
    show ?case using h [rule_format, of "Done r"] by (auto elim: subE)
  next
    case (Recv n k)
    then show ?case using h [rule_format, of "Recv n k"] by (auto elim: subE)
  next
    case (Send w k)
    then show ?case using h [rule_format, of "Send w k"] by (auto elim: subE)
  qed
qed

lemma side_step_sub: "side_step p cl v = Some (p', v', w) \<Longrightarrow> sub p' p"
  by (cases p) (auto split: if_splits intro: sub.intros)

lemma no_infinite_run:
  fixes run :: "nat \<Rightarrow> ('e, 'a, 'f, 'b) convo"
  assumes "\<forall>i. conv_step (run i) (run (Suc i))"
  shows False
proof -
  let ?r = "inv_image ({(x, y :: ('e, 'a) talk). sub x y} <*lex*> {(x, y :: ('f, 'b) talk). sub x y}) (\<lambda>(p, q, u, v). (p, q))"
  have wf: "wf ?r" using wf_sub [where ?'e = 'e and ?'a = 'a] wf_sub [where ?'e = 'f and ?'a = 'b]
    by (intro wf_inv_image wf_lex_prod) (simp_all add: wfp_def)
  have "(run (Suc i), run i) \<in> ?r" for i
  proof -
    have "conv_step (run i) (run (Suc i))" using assms by blast
    then show ?thesis by cases (auto dest: side_step_sub)
  qed
  then show False using wf unfolding wf_iff_no_infinite_down_chain by blast
qed

lemma ends_inI: "conv_step\<^sup>*\<^sup>* c d \<Longrightarrow> conv_stuck d \<Longrightarrow> ends_in c d"
  unfolding ends_in_def using leads_all no_infinite_run by blast

lemma ends_in_unique: "ends_in c d \<Longrightarrow> ends_in c e \<Longrightarrow> d = e"
  unfolding ends_in_def conv_stuck_def by (metis converse_rtranclpE)

text \<open>Whatever a conversation makes of a side is one of the outcomes it has against an arbitrary peer.\<close>

lemma closedRead_replies: "Inl e \<in> replies n" "length b = n \<Longrightarrow> Inr b \<in> replies n"
  by (auto simp: replies_def)

lemma side_step_outcomes: "side_step q cl u = Some (q', u', w) \<Longrightarrow> outcomes q' \<subseteq> outcomes q"
  by (cases q) (force simp: replies_def split: if_splits)+

lemma run_outcomes: "conv_step\<^sup>*\<^sup>* (p, q, u, v) (p', q', u', v') \<Longrightarrow> outcomes p' \<subseteq> outcomes p \<and> outcomes q' \<subseteq> outcomes q"
proof (induction "(p', q', u', v')" arbitrary: p' q' u' v' rule: rtranclp_induct)
  case (step y)
  obtain a b s t where y: "y = (a, b, s, t)" by (cases y) blast
  have "outcomes p' \<subseteq> outcomes a \<and> outcomes q' \<subseteq> outcomes b"
    using step.hyps(2) unfolding y by (auto elim!: conv_stepE dest!: side_step_outcomes)
  then show ?case using step.hyps(3) [OF y] by blast
qed simp

section \<open>Running a conversation\<close>

text \<open>The first side goes as far as it can, then the second.\<close>

fun drive :: "nat \<Rightarrow> ('e, 'a, 'f, 'b) convo \<Rightarrow> ('e, 'a, 'f, 'b) convo" where
  "drive 0 c = c"
| "drive (Suc n) (p, q, u, v) =
    (case side_step p (failed q) v of
       Some (p', v', w) \<Rightarrow> drive n (p', q, u @ w, v')
     | None \<Rightarrow>
         (case side_step q (failed p) u of
            Some (q', u', w) \<Rightarrow> drive n (p, q', u', v @ w)
          | None \<Rightarrow> (p, q, u, v)))"

lemma drive_runs: "conv_step\<^sup>*\<^sup>* c (drive n c)"
proof (induction n arbitrary: c)
  case (Suc n)
  obtain p q u v where c: "c = (p, q, u, v)" by (cases c) blast
  show ?case
  proof (cases "side_step p (failed q) v")
    case None
    show ?thesis
    proof (cases "side_step q (failed p) u")
      case (Some x)
      obtain q' u' w where x: "x = (q', u', w)" by (cases x) blast
      have "conv_step c (p, q', u', v @ w)" using conv_step.right [of q p u q' u' w v] Some x c by simp
      then show ?thesis using None Some x c Suc [of "(p, q', u', v @ w)"] by (simp add: converse_rtranclp_into_rtranclp)
    qed (use None c in simp)
  next
    case (Some x)
    obtain p' v' w where x: "x = (p', v', w)" by (cases x) blast
    have "conv_step c (p', q, u @ w, v')" using conv_step.left [of p q v p' v' w u] Some x c by simp
    then show ?thesis using Some x c Suc [of "(p', q, u @ w, v')"] by (simp add: converse_rtranclp_into_rtranclp)
  qed
qed simp

lemma drive_ends: "drive n c = (Done r, Done s, u, v) \<Longrightarrow> ends_in c (Done r, Done s, u, v)"
  using ends_inI [OF _ stuck_done, of c r s u v] drive_runs [of c n] by metis

end
