(* ===== verification/Socks.thy ===== *)
theory Socks
  imports Dialogue Handshake ByteBuf MuxFrame
begin

text \<open>
  SOCKS (\<open>proto/socks\<close>): the version 5 handshakes of both sides, the version 4 server, and the datagrams
  of an UDP association.  The two handshakes run against each other as dialogues.
\<close>

unbundle bit_operations_syntax

section \<open>Constants and replies\<close>

abbreviation (input) "skVersion \<equiv> (5 :: u8)"
abbreviation (input) "skConnect \<equiv> (1 :: u8)"
abbreviation (input) "skUDPAssoc \<equiv> (3 :: u8)"
abbreviation (input) "skIPv4 \<equiv> (1 :: u8)"
abbreviation (input) "skDomain \<equiv> (3 :: u8)"
abbreviation (input) "skIPv6 \<equiv> (4 :: u8)"
abbreviation (input) "methodNoAuth \<equiv> (0 :: u8)"
abbreviation (input) "methodUserPass \<equiv> (2 :: u8)"
abbreviation (input) "methodNone \<equiv> (255 :: u8)"
abbreviation (input) "authVersion \<equiv> (1 :: u8)"

datatype socksErr =
    SkVersion | SkNoAuth | SkAuthVersion | SkAuthFailed | SkAtyp | SkCommand | Sk4Command | Sk4Field
  | SkShortUDP | SkRefused | SkMethod u8 | SkTooLong | SkUserPass | SkRep u8 | SkNoClient | SkNotAssoc
  | SkRead ioErr | SkWrite | SkListen | SkDial

text \<open>\<open>cred.Ref\<close>: the identity and, for a known user, its node.\<close>

record 'n Ref =
  ref_ID :: u64
  ref_Node :: "'n option"

definition ambientRef :: "'n Ref" where
  "ambientRef = \<lparr> ref_ID = 1, ref_Node = None \<rparr>"

type_synonym 'n Authenticator = "string \<Rightarrow> bytes \<Rightarrow> 'n Ref option"

text \<open>The stream a handshake returns: the one below, the one below behind a reader, or a relay socket with its port.\<close>

datatype skStream = Below | Buffered | Assoc u16

definition recvN :: "nat \<Rightarrow> (socksErr, bytes) talk" where
  "recvN n = Recv n (\<lambda>r. case r of Inl e \<Rightarrow> Done (Inl (SkRead e)) | Inr b \<Rightarrow> Done (Inr b))"

definition sendAll :: "bytes \<Rightarrow> (socksErr, unit) talk" where
  "sendAll w = Send w (\<lambda>ok. if ok then Done (Inr ()) else Done (Inl SkWrite))"

text \<open>A last reply, whose own failure the code ignores.\<close>

definition refuse :: "bytes \<Rightarrow> socksErr \<Rightarrow> (socksErr, 'a) talk" where
  "refuse w e = Send w (\<lambda>_. Done (Inl e))"

definition reply :: "u8 \<Rightarrow> bytes" where
  "reply rep = [skVersion, rep, 0, skIPv4, 0, 0, 0, 0, 0, 0]"

definition replyAddr :: "u8 \<Rightarrow> bytes \<Rightarrow> u16 \<Rightarrow> bytes" where
  "replyAddr rep ip port =
    [skVersion, rep, 0] @ (case To4 ip of Some ip4 \<Rightarrow> [skIPv4] @ ip4 | None \<Rightarrow> [skIPv6] @ To16 ip) @ be16 port"

section \<open>Addresses\<close>

definition sk_writeSocksAddr :: "Socksaddr \<Rightarrow> bytes" where
  "sk_writeSocksAddr dst =
    (if IsFqdn dst then [skDomain, word_of_nat (length (sa_Fqdn dst))] @ bytes_of_string (sa_Fqdn dst)
     else case sa_Addr dst of Addr4 w \<Rightarrow> [skIPv4] @ be32 w | a \<Rightarrow> [skIPv6] @ As16 a)
    @ be16 (sa_Port dst)"

definition sk_readAddr :: "u8 \<Rightarrow> (socksErr, Socksaddr) talk" where
  "sk_readAddr atyp =
    (let d = \<lparr> sa_Addr = AddrZero, sa_Fqdn = [], sa_Port = 0 \<rparr> in
     talk_bind
       (if atyp = skIPv4 then talk_bind (recvN 4) (\<lambda>a. Done (Inr (d\<lparr>sa_Addr := AddrFrom4 a\<rparr>)))
        else if atyp = skIPv6 then talk_bind (recvN 16) (\<lambda>a. Done (Inr (d\<lparr>sa_Addr := AddrFrom16 a\<rparr>)))
        else if atyp = skDomain then
          talk_bind (recvN 1) (\<lambda>l. talk_bind (recvN (unat (l ! 0))) (\<lambda>name. Done (Inr (d\<lparr>sa_Fqdn := string_of_bytes name\<rparr>))))
        else Done (Inl SkAtyp))
       (\<lambda>d. talk_bind (recvN 2) (\<lambda>pb. Done (Inr (d\<lparr>sa_Port := get16 (pb ! 0) (pb ! 1)\<rparr>)))))"

section \<open>The server\<close>

definition serverUserPass :: "'n Authenticator \<Rightarrow> (socksErr, 'n Ref) talk" where
  "serverUserPass auth =
    talk_bind (recvN 2) (\<lambda>hdr.
      if hdr ! 0 \<noteq> authVersion then Done (Inl SkAuthVersion)
      else
        talk_bind (recvN (unat (hdr ! 1))) (\<lambda>user.
          talk_bind (recvN 1) (\<lambda>pl.
            talk_bind (recvN (unat (pl ! 0))) (\<lambda>pass.
              case auth ''socks'' (user @ [0x3A] @ pass) of
                None \<Rightarrow> refuse [authVersion, 1] SkAuthFailed
              | Some r \<Rightarrow> talk_bind (sendAll [authVersion, 0]) (\<lambda>_. Done (Inr r))))))"

text \<open>
  \<open>bindIP\<close> is the local address of the control connection, empty if there is none; \<open>listen\<close> is the
  operating system, which opens a relay socket and says on which port.
\<close>

definition ip_IsUnspecified :: "bytes \<Rightarrow> bool" where
  "ip_IsUnspecified ip = (To4 ip = Some [0, 0, 0, 0] \<or> ip = replicate 16 0)"

definition handleUDPAssoc :: "bytes \<Rightarrow> (bytes \<Rightarrow> u16 option) \<Rightarrow> (socksErr, 'n Ref Request \<times> skStream) talk" where
  "handleUDPAssoc bindIP listen =
    (case listen bindIP of
       None \<Rightarrow> refuse (reply 1) SkListen
     | Some port \<Rightarrow>
         (let ip = (if bindIP = [] \<or> ip_IsUnspecified bindIP then [0, 0, 0, 0] else bindIP) in
          talk_bind (sendAll (replyAddr 0 ip port)) (\<lambda>_.
            Done (Inr (\<lparr> rq_Dst = \<lparr> sa_Addr = AddrZero, sa_Fqdn = [], sa_Port = 0 \<rparr>, rq_Cred = ambientRef,
                          rq_Network = UDP, rq_Command = skUDPAssoc \<rparr>, Assoc port)))))"

text \<open>The request that follows the negotiation of a method.\<close>

definition serveRequest :: "bytes \<Rightarrow> (bytes \<Rightarrow> u16 option) \<Rightarrow> 'n Ref \<Rightarrow> (socksErr, 'n Ref Request \<times> skStream) talk" where
  "serveRequest bindIP listen ref =
    talk_bind (recvN 4) (\<lambda>h.
      if h ! 0 \<noteq> skVersion then Done (Inl SkVersion)
      else
        talk_bind (sk_readAddr (h ! 3)) (\<lambda>dst.
          if h ! 1 = skUDPAssoc then handleUDPAssoc bindIP listen
          else if h ! 1 \<noteq> skConnect then refuse (reply 7) SkCommand
          else talk_bind (sendAll (reply 0)) (\<lambda>_.
            Done (Inr (\<lparr> rq_Dst = dst, rq_Cred = ref, rq_Network = TCP, rq_Command = h ! 1 \<rparr>, Below)))))"

definition serverHandshake5 ::
    "bool \<Rightarrow> 'n Authenticator \<Rightarrow> bytes \<Rightarrow> (bytes \<Rightarrow> u16 option) \<Rightarrow> (socksErr, 'n Ref Request \<times> skStream) talk" where
  "serverHandshake5 authRequired auth bindIP listen =
    talk_bind (recvN 1) (\<lambda>nm.
      talk_bind (recvN (unat (nm ! 0))) (\<lambda>methods.
        talk_bind
          (if authRequired then
             (if methodUserPass \<notin> set methods then refuse [skVersion, methodNone] SkNoAuth
              else talk_bind (sendAll [skVersion, methodUserPass]) (\<lambda>_. serverUserPass auth))
           else if methodNoAuth \<in> set methods then
             talk_bind (sendAll [skVersion, methodNoAuth]) (\<lambda>_. Done (Inr ambientRef))
           else refuse [skVersion, methodNone] SkNoAuth)
          (serveRequest bindIP listen)))"

section \<open>Version 4\<close>

abbreviation (input) "version4 \<equiv> (4 :: u8)"
abbreviation (input) "rep4Granted \<equiv> (0x5A :: u8)"
abbreviation (input) "rep4Rejected \<equiv> (0x5B :: u8)"

definition maxSocks4Field :: nat where "maxSocks4Field = 256"

definition isSocks4aMarker :: "bytes \<Rightarrow> bool" where
  "isSocks4aMarker ip = (ip ! 0 = 0 \<and> ip ! 1 = 0 \<and> ip ! 2 = 0 \<and> ip ! 3 \<noteq> 0)"

primrec readCString :: "nat \<Rightarrow> bytes \<Rightarrow> (socksErr, string) talk" where
  "readCString 0 out = Done (Inl Sk4Field)"
| "readCString (Suc i) out =
    talk_bind (recvN 1) (\<lambda>b. if b ! 0 = 0 then Done (Inr (string_of_bytes out)) else readCString i (out @ [b ! 0]))"

definition reply4 :: "u8 \<Rightarrow> u16 \<Rightarrow> bytes \<Rightarrow> bytes" where
  "reply4 rep port ip = [0, rep] @ be16 port @ ip"

definition serverHandshake4 :: "'n Authenticator \<Rightarrow> (socksErr, 'n Ref Request \<times> skStream) talk" where
  "serverHandshake4 auth =
    talk_bind (recvN 7) (\<lambda>h.
      let cmd = h ! 0; port = get16 (h ! 1) (h ! 2); ip = drop 3 h in
      talk_bind (readCString maxSocks4Field []) (\<lambda>_.
        talk_bind
          (if isSocks4aMarker ip then
             talk_bind (readCString maxSocks4Field []) (\<lambda>host.
               if host = [] then refuse (reply4 rep4Rejected port ip) Sk4Field
               else Done (Inr (FromFqdn host port)))
           else Done (Inr (FromIPPort \<lparr> ap_addr = AddrFrom4 ip, ap_port = port \<rparr>)))
          (\<lambda>dst.
            if cmd \<noteq> skConnect then refuse (reply4 rep4Rejected port ip) Sk4Command
            else talk_bind (sendAll (reply4 rep4Granted port ip)) (\<lambda>_.
              Done (Inr (\<lparr> rq_Dst = dst,
                 rq_Cred = (case auth ''socks'' [] of Some r \<Rightarrow> r | None \<Rightarrow> ambientRef),
                 rq_Network = TCP, rq_Command = cmd \<rparr>, Buffered))))))"

definition sk_ServerHandshake ::
    "bool \<Rightarrow> 'n Authenticator \<Rightarrow> bytes \<Rightarrow> (bytes \<Rightarrow> u16 option) \<Rightarrow> (socksErr, 'n Ref Request \<times> skStream) talk" where
  "sk_ServerHandshake authRequired auth bindIP listen =
    talk_bind (recvN 1) (\<lambda>v.
      if v ! 0 = skVersion then serverHandshake5 authRequired auth bindIP listen
      else if v ! 0 = version4 then serverHandshake4 auth
      else Done (Inl SkVersion))"

section \<open>The client\<close>

definition clientUserPass :: "bytes \<Rightarrow> (socksErr, unit) talk" where
  "clientUserPass key =
    (let user = takeWhile (\<lambda>c. c \<noteq> 0x3A) key; pass = drop (Suc (length user)) key in
     if length user > 255 \<or> length pass > 255 then Done (Inl SkTooLong)
     else
       talk_bind (sendAll ([authVersion, word_of_nat (length user)] @ user @ [word_of_nat (length pass)] @ pass)) (\<lambda>_.
         talk_bind (recvN 2) (\<lambda>st. if st ! 1 \<noteq> 0 then Done (Inl SkUserPass) else Done (Inr ()))))"

definition clientNegotiate :: "bytes \<Rightarrow> (socksErr, unit) talk" where
  "clientNegotiate key =
    (let methods = [methodNoAuth] @ (if length key > 0 then [methodUserPass] else []) in
     talk_bind (sendAll ([skVersion, word_of_nat (length methods)] @ methods)) (\<lambda>_.
       talk_bind (recvN 2) (\<lambda>sel.
         if sel ! 0 \<noteq> skVersion then Done (Inl SkVersion)
         else if sel ! 1 = methodNoAuth then Done (Inr ())
         else if sel ! 1 = methodUserPass then clientUserPass key
         else if sel ! 1 = methodNone then Done (Inl SkRefused)
         else Done (Inl (SkMethod (sel ! 1))))))"

definition readReply :: "(socksErr, Socksaddr) talk" where
  "readReply =
    talk_bind (recvN 4) (\<lambda>h.
      if h ! 0 \<noteq> skVersion then Done (Inl SkVersion)
      else if h ! 1 \<noteq> 0 then Done (Inl (SkRep (h ! 1)))
      else sk_readAddr (h ! 3))"

definition sk_ClientHandshake :: "bytes \<Rightarrow> Socksaddr \<Rightarrow> (socksErr, unit) talk" where
  "sk_ClientHandshake key dst =
    talk_bind (clientNegotiate key) (\<lambda>_.
      talk_bind (sendAll ([skVersion, skConnect, 0] @ sk_writeSocksAddr dst)) (\<lambda>_.
        talk_bind readReply (\<lambda>_. Done (Inr ()))))"

fun addr_IsUnspecified :: "Addr \<Rightarrow> bool" where
  "addr_IsUnspecified AddrZero = False"
| "addr_IsUnspecified (Addr4 w) = (w = 0)"
| "addr_IsUnspecified (Addr6 w z) = (w = 0 \<and> z = [])"

text \<open>
  \<open>remote\<close> is the peer of the control connection, if it is a TCP address; \<open>dial\<close> is the operating
  system, which opens a socket to the relay or fails.  The result is the address of the relay.
\<close>

definition sk_DialPacketConn :: "AddrPort option \<Rightarrow> (Socksaddr \<Rightarrow> bool) \<Rightarrow> bytes \<Rightarrow> (socksErr, Socksaddr) talk" where
  "sk_DialPacketConn remote dial key =
    talk_bind (clientNegotiate key) (\<lambda>_.
      talk_bind (sendAll [skVersion, skUDPAssoc, 0, skIPv4, 0, 0, 0, 0, 0, 0]) (\<lambda>_.
        talk_bind readReply (\<lambda>relay.
          let relayAddr =
            (if (addr_IsValid (sa_Addr relay) \<and> addr_IsUnspecified (sa_Addr relay)) \<or> \<not> addr_IsValid (sa_Addr relay) then
               (case remote of Some ra \<Rightarrow> (FromIPPort ra)\<lparr>sa_Port := sa_Port relay\<rparr> | None \<Rightarrow> relay)
             else relay) in
          if dial relayAddr then Done (Inr relayAddr) else Done (Inl SkDial))))"


section \<open>Datagrams of an association\<close>

definition parseUDPAddr :: "bytes \<Rightarrow> (socksErr, Socksaddr \<times> nat) result" where
  "parseUDPAddr p =
    (if length p < 1 then Inl SkShortUDP
     else if p ! 0 = skIPv4 then
       (if length p < 1 + 4 + 2 then Inl SkShortUDP
        else Inr (FromIPPort \<lparr> ap_addr = AddrFrom4 (take 4 (drop 1 p)), ap_port = get16 (p ! 5) (p ! 6) \<rparr>, 1 + 4 + 2))
     else if p ! 0 = skIPv6 then
       (if length p < 1 + 16 + 2 then Inl SkShortUDP
        else Inr (FromIPPort \<lparr> ap_addr = AddrFrom16 (take 16 (drop 1 p)), ap_port = get16 (p ! 17) (p ! 18) \<rparr>, 1 + 16 + 2))
     else if p ! 0 = skDomain then
       (if length p < 2 then Inl SkShortUDP
        else
          (let dl = unat (p ! 1) in
           if length p < 2 + dl + 2 then Inl SkShortUDP
           else Inr (FromFqdn (string_of_bytes (take dl (drop 2 p))) (get16 (p ! (2 + dl)) (p ! (2 + dl + 1))), 2 + dl + 2)))
     else Inl SkAtyp)"

definition encodeUDPHeader :: "Socksaddr \<Rightarrow> bytes" where
  "encodeUDPHeader dst =
    [0, 0, 0]
    @ (if IsFqdn dst then [skDomain, word_of_nat (length (sa_Fqdn dst))] @ bytes_of_string (sa_Fqdn dst)
       else case sa_Addr dst of Addr4 w \<Rightarrow> [skIPv4] @ be32 w | a \<Rightarrow> [skIPv6] @ As16 a)
    @ be16 (sa_Port dst)"

record UDPAddr =
  ua_IP :: bytes
  ua_Port :: nat

definition ip_Equal :: "bytes \<Rightarrow> bytes \<Rightarrow> bool" where
  "ip_Equal x y =
    (if length x = length y then x = y
     else if length x = 4 \<and> length y = 16 then take 12 y = v4InV6Prefix \<and> x = drop 12 y
     else if length x = 16 \<and> length y = 4 then take 12 x = v4InV6Prefix \<and> drop 12 x = y
     else False)"

record socksUDPConn =
  su_client :: "UDPAddr option"

text \<open>
  The relay socket is the list of datagrams that still arrive, each with its source, and then closes.
  A datagram longer than the slice it is read into is cut.  \<^const>\<open>None\<close> is the panic of the buffer.
\<close>

definition recvFrom :: "Buffer \<Rightarrow> bytes \<Rightarrow> Buffer option" where
  "recvFrom b d =
    (case ExtendTail (Tailroom (buf_Reset b)) (buf_Reset b) of
       None \<Rightarrow> None
     | Some (b, i, n) \<Rightarrow> (let d = take n d in Some (Truncate (length d) (putSlice i d b))))"

fun sk_ReadPacket ::
    "socksUDPConn \<Rightarrow> Buffer \<Rightarrow> (UDPAddr \<times> bytes) list
     \<Rightarrow> (socksUDPConn \<times> (UDPAddr \<times> bytes) list \<times> (socksErr, Socksaddr \<times> Buffer) result) option" where
  "sk_ReadPacket c b [] = Some (c, [], Inl (SkRead EOF))"
| "sk_ReadPacket c b ((src, d) # ds) =
    (case recvFrom b d of
       None \<Rightarrow> None
     | Some b \<Rightarrow>
         (let c' = (case su_client c of None \<Rightarrow> c\<lparr>su_client := Some src\<rparr> | Some _ \<Rightarrow> c) in
          if (case su_client c of
                None \<Rightarrow> False
              | Some cl \<Rightarrow> \<not> ip_Equal (ua_IP cl) (ua_IP src) \<or> ua_Port cl \<noteq> ua_Port src)
          then sk_ReadPacket c' b ds
          else
            (let p = buf_Bytes b in
             if length p < 4 \<or> p ! 2 \<noteq> 0 then sk_ReadPacket c' b ds
             else
               (case parseUDPAddr (drop 3 p) of
                  Inl _ \<Rightarrow> sk_ReadPacket c' b ds
                | Inr (dst, hdrLen) \<Rightarrow> Some (c', ds, Inr (dst, Advance (3 + hdrLen) b))))))"

definition sk_WritePacket ::
    "socksUDPConn \<Rightarrow> Buffer \<Rightarrow> Socksaddr \<Rightarrow> (socksErr, UDPAddr \<times> Buffer \<times> bytes) result option" where
  "sk_WritePacket c b dst =
    (case su_client c of
       None \<Rightarrow> Some (Inl SkNoClient)
     | Some cli \<Rightarrow>
         (let hdr = encodeUDPHeader dst in
          case ExtendHeader (length hdr) b of
            None \<Rightarrow> None
          | Some (b, i, _) \<Rightarrow> (let b = putSlice i hdr b in Some (Inr (cli, b, buf_Bytes b)))))"

definition ServerPacketConn :: "skStream \<Rightarrow> (socksErr, socksUDPConn) result" where
  "ServerPacketConn hs = (case hs of Assoc _ \<Rightarrow> Inr \<lparr> su_client = None \<rparr> | _ \<Rightarrow> Inl SkNotAssoc)"

text \<open>The client's socket is connected to the relay, so only the relay's datagrams arrive.\<close>

fun skc_ReadPacket :: "Buffer \<Rightarrow> bytes list \<Rightarrow> (bytes list \<times> (socksErr, Socksaddr \<times> Buffer) result) option" where
  "skc_ReadPacket b [] = Some ([], Inl (SkRead EOF))"
| "skc_ReadPacket b (d # ds) =
    (case recvFrom b d of
       None \<Rightarrow> None
     | Some b \<Rightarrow>
         (let p = buf_Bytes b in
          if length p < 4 \<or> p ! 2 \<noteq> 0 then skc_ReadPacket b ds
          else
            (case parseUDPAddr (drop 3 p) of
               Inl _ \<Rightarrow> skc_ReadPacket b ds
             | Inr (src, hdrLen) \<Rightarrow> Some (ds, Inr (src, Advance (3 + hdrLen) b)))))"

definition skc_WritePacket :: "Buffer \<Rightarrow> Socksaddr \<Rightarrow> (Buffer \<times> bytes) option" where
  "skc_WritePacket b dst =
    (let hdr = encodeUDPHeader dst in
     case ExtendHeader (length hdr) b of
       None \<Rightarrow> None
     | Some (b, i, _) \<Rightarrow> (let b = putSlice i hdr b in Some (b, buf_Bytes b)))"

section \<open>Running the handshakes\<close>

lemma step_recvN [simp]:
  "side_step (talk_bind (recvN n) f) cl v =
    (if n \<le> length v then Some (f (take n v), drop n v, [])
     else if cl then Some (Done (Inl (SkRead (closedRead v))), [], []) else None)"
  by (simp add: recvN_def)

lemma step_sendAll [simp]: "side_step (talk_bind (sendAll w) f) cl v = Some (f (), v, w)"
  by (simp add: sendAll_def)

lemma step_refuse [simp]:
  "side_step (refuse w e) cl v = Some (Done (Inl e), v, w)"
  "talk_bind (refuse w e) f = refuse w e"
  by (simp_all add: refuse_def)

lemma failed_talks [simp]:
  "\<not> failed (talk_bind (recvN n) f)" "\<not> failed (talk_bind (sendAll w) g)" "\<not> failed (refuse w e)"
  by (simp_all add: recvN_def sendAll_def refuse_def)

declare talk_bind_assoc [simp]

lemma drive_numeral [simp]: "drive (numeral n) (p, q, u, v) =
    (case side_step p (failed q) v of
       Some (p', v', w) \<Rightarrow> drive (pred_numeral n) (p', q, u @ w, v')
     | None \<Rightarrow>
         (case side_step q (failed p) u of
            Some (q', u', w) \<Rightarrow> drive (pred_numeral n) (p, q', u', v @ w)
          | None \<Rightarrow> (p, q, u, v)))"
  by (simp add: numeral_eq_Suc)

lemma drive_done [simp]: "drive n (Done r, Done s, u, v) = (Done r, Done s, u, v)"
  by (cases n) simp_all

lemma port_bytes [simp]: "get16 (be16 w ! 0) (be16 w ! Suc 0) = w"
  by (simp add: be16_def)

lemmas negotiation_defs = clientNegotiate_def sk_ServerHandshake_def serverHandshake5_def serverUserPass_def
lemmas request_defs = serveRequest_def handleUDPAssoc_def readReply_def sk_readAddr_def sk_writeSocksAddr_def reply_def replyAddr_def

text \<open>What the client presents, and what the two sides make of it.\<close>

definition userOf :: "bytes \<Rightarrow> bytes" where
  "userOf key = takeWhile (\<lambda>c. c \<noteq> 0x3A) key"

definition passOf :: "bytes \<Rightarrow> bytes" where
  "passOf key = drop (Suc (length (userOf key))) key"

lemma clientUserPass_alt:
  "clientUserPass key =
    (if length (userOf key) > 255 \<or> length (passOf key) > 255 then Done (Inl SkTooLong)
     else
       talk_bind (sendAll ([authVersion, word_of_nat (length (userOf key))] @ userOf key
           @ [word_of_nat (length (passOf key))] @ passOf key)) (\<lambda>_.
         talk_bind (recvN 2) (\<lambda>st. if st ! 1 \<noteq> 0 then Done (Inl SkUserPass) else Done (Inr ()))))"
  by (simp add: clientUserPass_def userOf_def passOf_def Let_def)

definition negotiated :: "bool \<Rightarrow> 'n Authenticator \<Rightarrow> bytes \<Rightarrow> (socksErr \<times> socksErr) + 'n Ref" where
  "negotiated authRequired auth key =
    (if \<not> authRequired then Inr ambientRef
     else if key = [] then Inl (SkRefused, SkNoAuth)
     else if length (userOf key) > 255 \<or> length (passOf key) > 255 then Inl (SkTooLong, SkRead EOF)
     else case auth ''socks'' (userOf key @ [0x3A] @ passOf key) of
       None \<Rightarrow> Inl (SkUserPass, SkAuthFailed) | Some r \<Rightarrow> Inr r)"

definition tcpRequest :: "Socksaddr \<Rightarrow> 'n Ref \<Rightarrow> 'n Ref Request" where
  "tcpRequest dst r = \<lparr> rq_Dst = arrives dst, rq_Cred = r, rq_Network = TCP, rq_Command = 1 \<rparr>"

lemma key_shown: "0x3A \<in> set key \<Longrightarrow> userOf key @ [0x3A] @ passOf key = key"
proof (induction key)
  case (Cons c key)
  then show ?case by (cases "c = 0x3A") (simp_all add: userOf_def passOf_def)
qed simp

lemma negotiation_runs:
  "conv_step\<^sup>*\<^sup>* (talk_bind (clientNegotiate key) F, sk_ServerHandshake authRequired auth bindIP listen, [], [])
    (case negotiated authRequired auth key of
       Inl (e, f) \<Rightarrow> (Done (Inl e), Done (Inl f), [], [])
     | Inr r \<Rightarrow> (F (), serveRequest bindIP listen r, [], []))"
    (is "conv_step\<^sup>*\<^sup>* ?c ?d")
proof -
  have "\<exists>n. drive n ?c = ?d"
  proof -
    note D = negotiation_defs clientUserPass_alt negotiated_def Let_def closedRead_def
    consider (off) "\<not> authRequired" | (none) "authRequired" "key = []"
      | (long) "authRequired" "key \<noteq> []" "length (userOf key) > 255 \<or> length (passOf key) > 255"
      | (bad) "authRequired" "key \<noteq> []" "length (userOf key) \<le> 255" "length (passOf key) \<le> 255"
          "auth ''socks'' (userOf key @ [0x3A] @ passOf key) = None"
      | (good) r where "authRequired" "key \<noteq> []" "length (userOf key) \<le> 255" "length (passOf key) \<le> 255"
          "auth ''socks'' (userOf key @ [0x3A] @ passOf key) = Some r"
      by fastforce
    then show ?thesis
    proof cases
      case off
      then have "drive 6 ?c = ?d" by (cases "key = []") (simp_all add: D)
      then show ?thesis ..
    next
      case none
      then have "drive 20 ?c = ?d" by (simp add: D)
      then show ?thesis ..
    next
      case long
      then have "drive 20 ?c = ?d" by (simp add: D)
      then show ?thesis ..
    next
      case bad
      then have "drive 20 ?c = ?d" by (simp add: D)
      then show ?thesis ..
    next
      case good
      then have "drive 13 ?c = ?d" by (simp add: D)
      then show ?thesis ..
    qed
  qed
  then show ?thesis using drive_runs [of ?c] by metis
qed

text \<open>After the negotiation, whatever the two sides do with the request decides how the conversation ends.\<close>

lemma conversation_ends:
  assumes "\<And>r. \<exists>n. drive n (F (), serveRequest bindIP listen r, [], []) = (Done (a r), Done (b r), [], [])"
  shows "ends_in (talk_bind (clientNegotiate key) F, sk_ServerHandshake authRequired auth bindIP listen, [], [])
    (case negotiated authRequired auth key of
       Inl (e, f) \<Rightarrow> (Done (Inl e), Done (Inl f), [], []) | Inr r \<Rightarrow> (Done (a r), Done (b r), [], []))"
proof (cases "negotiated authRequired auth key")
  case (Inl ef)
  then show ?thesis
    using negotiation_runs [of key F authRequired auth bindIP listen] by (auto simp: stuck_done intro: ends_inI split: prod.splits)
next
  case (Inr r)
  obtain n where "drive n (F (), serveRequest bindIP listen r, [], []) = (Done (a r), Done (b r), [], [])" using assms by blast
  then have "conv_step\<^sup>*\<^sup>* (F (), serveRequest bindIP listen r, [], []) (Done (a r), Done (b r), [], [])"
    using drive_runs by metis
  then show ?thesis
    using negotiation_runs [of key F authRequired auth bindIP listen] Inr by (auto simp: stuck_done intro!: ends_inI)
qed

lemma connect_runs:
  assumes "carriable dst"
  shows "drive 20 (talk_bind (sendAll ([5, 1, 0] @ sk_writeSocksAddr dst)) (\<lambda>_. talk_bind readReply (\<lambda>_. Done (Inr ()))),
      serveRequest bindIP listen r, [], [])
    = (Done (Inr ()), Done (Inr (tcpRequest dst r, Below)), [], [])"
  using assms
  by (cases "IsFqdn dst"; cases "sa_Addr dst")
    (simp_all add: request_defs Let_def carriable_def arrives_def tcpRequest_def FromFqdn_def FromIPPort_def)

text \<open>The address the client of an association sends its datagrams to.\<close>

definition relayOf :: "bytes \<Rightarrow> AddrPort option \<Rightarrow> u16 \<Rightarrow> Socksaddr" where
  "relayOf bindIP remote port =
    (if bindIP = [] \<or> ip_IsUnspecified bindIP then
       (case remote of Some ra \<Rightarrow> (FromIPPort ra)\<lparr>sa_Port := port\<rparr> | None \<Rightarrow> FromIPPort \<lparr> ap_addr = Addr4 0, ap_port = port \<rparr>)
     else FromIPPort \<lparr> ap_addr = (case To4 bindIP of Some ip \<Rightarrow> AddrFrom4 ip | None \<Rightarrow> AddrFrom16 bindIP), ap_port = port \<rparr>)"

definition udpRequest :: "'n Ref Request" where
  "udpRequest = \<lparr> rq_Dst = \<lparr> sa_Addr = AddrZero, sa_Fqdn = [], sa_Port = 0 \<rparr>, rq_Cred = ambientRef, rq_Network = UDP, rq_Command = 3 \<rparr>"

lemma get32_zero: "get32 a b c d = 0 \<longleftrightarrow> a = 0 \<and> b = 0 \<and> c = 0 \<and> d = 0"
proof
  assume z: "get32 a b c d = 0"
  have "\<not> bit (get32 a b c d) n" for n using z by simp
  then have h: "\<not> (24 \<le> n \<and> n < 32 \<and> bit a (n - 24) \<or> 16 \<le> n \<and> n < 32 \<and> bit b (n - 16) \<or> 8 \<le> n \<and> n < 32 \<and> bit c (n - 8) \<or> n < 32 \<and> bit d n)" for n
    unfolding get32_def by (auto simp: bit_simps)
  have "\<not> bit a n" if "n < 8" for n using h [of "n + 24"] that by simp
  moreover have "\<not> bit b n" if "n < 8" for n using h [of "n + 16"] that by simp
  moreover have "\<not> bit c n" if "n < 8" for n using h [of "n + 8"] that by simp
  moreover have "\<not> bit d n" if "n < 8" for n using h [of n] that by simp
  ultimately show "a = 0 \<and> b = 0 \<and> c = 0 \<and> d = 0" by (auto intro!: bit_word_eqI)
qed (simp add: get32_def)

lemma join_zero:
  "push_bit 32 (ucast (a :: u32)) OR ucast (b :: u32) = (0 :: u64) \<longleftrightarrow> a = 0 \<and> b = 0"
  "push_bit 64 (ucast (c :: u64)) OR ucast (d :: u64) = (0 :: u128) \<longleftrightarrow> c = 0 \<and> d = 0"
proof -
  show "push_bit 32 (ucast a) OR ucast b = (0 :: u64) \<longleftrightarrow> a = 0 \<and> b = 0"
  proof
    assume z: "push_bit 32 (ucast a) OR ucast b = (0 :: u64)"
    have h: "\<not> (32 \<le> n \<and> n < 64 \<and> bit a (n - 32) \<or> bit b n)" for n
      using z [THEN arg_cong, of "\<lambda>w. bit w n"] by (auto simp: bit_simps dest: bit_imp_le_length)
    have "\<not> bit a n" if "n < 32" for n using h [of "n + 32"] that by simp
    then show "a = 0 \<and> b = 0" using h by (auto intro!: bit_word_eqI)
  qed simp
  show "push_bit 64 (ucast c) OR ucast d = (0 :: u128) \<longleftrightarrow> c = 0 \<and> d = 0"
  proof
    assume z: "push_bit 64 (ucast c) OR ucast d = (0 :: u128)"
    have h: "\<not> (64 \<le> n \<and> n < 128 \<and> bit c (n - 64) \<or> bit d n)" for n
      using z [THEN arg_cong, of "\<lambda>w. bit w n"] by (auto simp: bit_simps dest: bit_imp_le_length)
    have "\<not> bit c n" if "n < 64" for n using h [of "n + 64"] that by simp
    then show "c = 0 \<and> d = 0" using h by (auto intro!: bit_word_eqI)
  qed simp
qed

lemma addr4_zero: "length b = 4 \<Longrightarrow> addr_IsUnspecified (AddrFrom4 b) \<longleftrightarrow> b = [0, 0, 0, 0]"
  by (auto simp: AddrFrom4_def get32_zero numeral_eq_Suc length_Suc_conv)

lemma get64_zero: "length b = 8 \<Longrightarrow> get64 b = 0 \<longleftrightarrow> b = replicate 8 0"
  unfolding get64_def join_zero get32_zero by (auto simp: numeral_eq_Suc length_Suc_conv)

lemma addr16_zero: "length b = 16 \<Longrightarrow> addr_IsUnspecified (AddrFrom16 b) \<longleftrightarrow> b = replicate 16 0"
proof -
  assume l: "length b = 16"
  have "addr_IsUnspecified (AddrFrom16 b) \<longleftrightarrow> take 8 b = replicate 8 0 \<and> drop 8 b = replicate 8 0"
    using l by (simp add: AddrFrom16_def get128_def join_zero get64_zero)
  also have "\<dots> \<longleftrightarrow> b = replicate 8 0 @ replicate 8 0"
    by (metis append_take_drop_id append_eq_conv_conj length_replicate)
  finally show ?thesis by (simp flip: replicate_add)
qed

definition awaitRelay :: "AddrPort option \<Rightarrow> (Socksaddr \<Rightarrow> bool) \<Rightarrow> (socksErr, Socksaddr) talk" where
  "awaitRelay remote dial =
    talk_bind (sendAll [5, 3, 0, 1, 0, 0, 0, 0, 0, 0]) (\<lambda>_.
      talk_bind readReply (\<lambda>relay.
        let relayAddr =
          (if (addr_IsValid (sa_Addr relay) \<and> addr_IsUnspecified (sa_Addr relay)) \<or> \<not> addr_IsValid (sa_Addr relay) then
             (case remote of Some ra \<Rightarrow> (FromIPPort ra)\<lparr>sa_Port := sa_Port relay\<rparr> | None \<Rightarrow> relay)
           else relay) in
        if dial relayAddr then Done (Inr relayAddr) else Done (Inl SkDial)))"

lemma associate_runs:
  assumes "listen bindIP = Some port" "length bindIP \<in> {0, 4, 16}"
  shows "drive 20 (awaitRelay remote dial, serveRequest bindIP listen r, [], [])
    = (Done (if dial (relayOf bindIP remote port) then Inr (relayOf bindIP remote port) else Inl SkDial),
       Done (Inr (udpRequest, Assoc port)), [], [])"
proof -
  note D = awaitRelay_def request_defs Let_def relayOf_def udpRequest_def FromIPPort_def addr_IsValid_def
  consider (un) "bindIP = [] \<or> ip_IsUnspecified bindIP"
    | (v4) ip where "bindIP \<noteq> []" "\<not> ip_IsUnspecified bindIP" "To4 bindIP = Some ip"
    | (v6) "bindIP \<noteq> []" "\<not> ip_IsUnspecified bindIP" "To4 bindIP = None" by fastforce
  then show ?thesis
  proof cases
    case un
    have z: "To4 [0, 0, 0, 0] = Some [0, 0, 0, 0]" "AddrFrom4 [0, 0, 0, 0] = Addr4 0" by (simp_all add: To4_def AddrFrom4_def get32_def)
    show ?thesis using un assms(1) by (cases remote) (simp_all add: D z)
  next
    case v4
    have l: "length ip = 4" using v4(3) by (rule To4_length)
    obtain w where w: "AddrFrom4 ip = Addr4 w" by (simp add: AddrFrom4_def)
    have u: "w \<noteq> 0" using v4 addr4_zero [OF l] w by (auto simp: ip_IsUnspecified_def)
    show ?thesis using v4 assms(1) l u w by (simp add: D)
  next
    case v6
    have l: "length bindIP = 16" using v6 assms(2) by (auto simp: To4_def)
    obtain w where w: "AddrFrom16 bindIP = Addr6 w []" by (simp add: AddrFrom16_def)
    have u: "w \<noteq> 0" using v6 addr16_zero [OF l] w by (auto simp: ip_IsUnspecified_def)
    show ?thesis using v6 assms(1) l u w by (simp add: D To16_def)
  qed
qed

lemma DialPacketConn_alt: "sk_DialPacketConn remote dial key = talk_bind (clientNegotiate key) (\<lambda>_. awaitRelay remote dial)"
  by (simp add: sk_DialPacketConn_def awaitRelay_def)

section \<open>Properties\<close>

text \<open>
  C22: A SOCKS5 client and server that run over a connection that does not break, in whatever order
  their reads and writes are scheduled, always finish, and the end is determined: both succeed and the
  server has the client's destination and the user of its key (or the ambient identity where no
  authentication is required), with no byte of the payload read or left over; or both fail, with the
  error that fits the cause.  For an association, the client ends with the address of the server's
  relay socket.
\<close>

theorem socks_conversation:
  assumes "carriable dst"
  shows "ends_in (sk_ClientHandshake key dst, sk_ServerHandshake authRequired auth bindIP listen, [], [])
      (case negotiated authRequired auth key of
         Inl (e, f) \<Rightarrow> (Done (Inl e), Done (Inl f), [], [])
       | Inr r \<Rightarrow> (Done (Inr ()), Done (Inr (tcpRequest dst r, Below)), [], []))
    \<and> (listen bindIP = Some port \<and> length bindIP \<in> {0, 4, 16} \<longrightarrow>
       ends_in (sk_DialPacketConn remote dial key, sk_ServerHandshake authRequired auth bindIP listen, [], [])
        (case negotiated authRequired auth key of
           Inl (e, f) \<Rightarrow> (Done (Inl e), Done (Inl f), [], [])
         | Inr r \<Rightarrow> (Done (if dial (relayOf bindIP remote port) then Inr (relayOf bindIP remote port) else Inl SkDial),
                     Done (Inr (udpRequest, Assoc port)), [], [])))"
proof (intro conjI impI)
  show "ends_in (sk_ClientHandshake key dst, sk_ServerHandshake authRequired auth bindIP listen, [], [])
      (case negotiated authRequired auth key of
         Inl (e, f) \<Rightarrow> (Done (Inl e), Done (Inl f), [], [])
       | Inr r \<Rightarrow> (Done (Inr ()), Done (Inr (tcpRequest dst r, Below)), [], []))"
    unfolding sk_ClientHandshake_def by (rule conversation_ends) (use connect_runs [OF assms] in blast)
next
  assume "listen bindIP = Some port \<and> length bindIP \<in> {0, 4, 16}"
  then show "ends_in (sk_DialPacketConn remote dial key, sk_ServerHandshake authRequired auth bindIP listen, [], [])
        (case negotiated authRequired auth key of
           Inl (e, f) \<Rightarrow> (Done (Inl e), Done (Inl f), [], [])
         | Inr r \<Rightarrow> (Done (if dial (relayOf bindIP remote port) then Inr (relayOf bindIP remote port) else Inl SkDial),
                     Done (Inr (udpRequest, Assoc port)), [], []))"
    unfolding DialPacketConn_alt by (intro conversation_ends) (use associate_runs in blast)
qed

definition sw_dst :: Socksaddr where
  "sw_dst = \<lparr> sa_Addr = AddrZero, sa_Fqdn = ''example.com'', sa_Port = 80 \<rparr>"

definition sw_ref :: "nat Ref" where
  "sw_ref = \<lparr> ref_ID = 1048577, ref_Node = Some 7 \<rparr>"

definition sw_auth :: "nat Authenticator" where
  "sw_auth scheme = (\<lambda>_. None)(bytes_of_string ''al:pw'' := Some sw_ref)"

lemma sw_negotiated: "negotiated True sw_auth (bytes_of_string ''al:pw'') = Inr sw_ref"
proof -
  have "userOf (bytes_of_string ''al:pw'') = bytes_of_string ''al''" "passOf (bytes_of_string ''al:pw'') = bytes_of_string ''pw''"
    by code_simp+
  then show ?thesis by (simp add: negotiated_def sw_auth_def) (simp add: bytes_of_string_def byte_of_char_def)
qed

lemma sw_carriable: "carriable sw_dst" "arrives sw_dst = sw_dst"
  by (simp_all add: sw_dst_def carriable_def arrives_def IsFqdn_def FromFqdn_def)

theorem socks_conversation_witness:
  "ends_in (sk_ClientHandshake (bytes_of_string ''al:pw'') sw_dst, sk_ServerHandshake True sw_auth [127, 0, 0, 1] (\<lambda>_. Some 5000), [], [])
     (Done (Inr ()), Done (Inr (tcpRequest sw_dst sw_ref, Below)), [], [])
   \<and> ends_in (sk_DialPacketConn None (\<lambda>_. True) (bytes_of_string ''al:pw''), sk_ServerHandshake True sw_auth [127, 0, 0, 1] (\<lambda>_. Some 5000), [], [])
     (Done (Inr (relayOf [127, 0, 0, 1] None 5000)), Done (Inr (udpRequest, Assoc 5000)), [], [])"
  using socks_conversation [OF sw_carriable(1), of "bytes_of_string ''al:pw''" True sw_auth "[127, 0, 0, 1]" "\<lambda>_. Some 5000" 5000 None "\<lambda>_. True"]
  by (simp add: sw_negotiated)

text \<open>The outcomes of the pieces against any peer.\<close>

lemma outcomes_pieces:
  "Inr b \<in> outcomes (recvN n) \<longleftrightarrow> length b = n"
  "Inr x \<in> outcomes (sendAll w)"
  "Inr y \<notin> outcomes (refuse w e)"
  by (auto simp: recvN_def sendAll_def refuse_def replies_def split: sum.splits)

lemma serverUserPass_known: "Inr r \<in> outcomes (serverUserPass auth) \<Longrightarrow> \<exists>key. 0x3A \<in> set key \<and> auth ''socks'' key = Some r"
  by (auto simp: serverUserPass_def outcomes_bind outcomes_pieces split: if_splits option.splits)
    (meson in_set_conv_decomp)



text \<open>
  C24: A peer that speaks version 4 is served without any authentication even where authentication is
  required and no key at all is registered: for every address that is not the marker of a name, it
  obtains a stream to that address under the ambient identity.
\<close>

theorem socks4_skips_auth:
  assumes "\<not> isSocks4aMarker (be32 w)"
  shows "ends_in (Send ([4, 1] @ be16 port @ be32 w @ [0]) (\<lambda>_. Done (Inr ())), sk_ServerHandshake True (\<lambda>_ _. None) bindIP listen, [], [])
    (Done (Inr ()),
     Done (Inr (\<lparr> rq_Dst = FromIPPort \<lparr> ap_addr = Addr4 w, ap_port = port \<rparr>, rq_Cred = ambientRef, rq_Network = TCP, rq_Command = 1 \<rparr>, Buffered)),
     [], [0, 0x5A] @ be16 port @ be32 w)"
proof (rule drive_ends)
  have m: "readCString maxSocks4Field out =
      talk_bind (recvN 1) (\<lambda>b. if b ! 0 = 0 then Done (Inr (string_of_bytes out)) else readCString 255 (out @ [b ! 0]))" for out
    using readCString.simps(2) [of 255 out] by (simp add: maxSocks4Field_def)
  show "drive 10 (Send ([4, 1] @ be16 port @ be32 w @ [0]) (\<lambda>_. Done (Inr ())), sk_ServerHandshake True (\<lambda>_ _. None) bindIP listen, [], [])
    = (Done (Inr ()),
     Done (Inr (\<lparr> rq_Dst = FromIPPort \<lparr> ap_addr = Addr4 w, ap_port = port \<rparr>, rq_Cred = ambientRef, rq_Network = TCP, rq_Command = 1 \<rparr>, Buffered)),
     [], [0, 0x5A] @ be16 port @ be32 w)"
    using assms by (simp add: sk_ServerHandshake_def serverHandshake4_def m reply4_def be16_def be32_def Let_def AddrFrom4_def)
qed

theorem socks4_skips_auth_witness:
  "ends_in (Send ([4, 1] @ be16 80 @ be32 0x01020304 @ [0]) (\<lambda>_. Done (Inr ())), sk_ServerHandshake True (\<lambda>_ _. None) [] (\<lambda>_. None), [], [])
    (Done (Inr () :: (socksErr, unit) result),
     Done (Inr (\<lparr> rq_Dst = FromIPPort \<lparr> ap_addr = Addr4 0x01020304, ap_port = 80 \<rparr>, rq_Cred = (ambientRef :: nat Ref), rq_Network = TCP, rq_Command = 1 \<rparr>, Buffered)),
     [], [0, 0x5A] @ be16 80 @ be32 0x01020304)"
proof -
  have "\<not> isSocks4aMarker (be32 0x01020304)" by code_simp
  then show ?thesis by (rule socks4_skips_auth)
qed

section \<open>Datagrams\<close>

text \<open>What a datagram says, and whose datagrams an association takes.\<close>

definition decodeUDP :: "bytes \<Rightarrow> (Socksaddr \<times> bytes) option" where
  "decodeUDP d =
    (if length d < 4 \<or> d ! 2 \<noteq> 0 then None
     else case parseUDPAddr (drop 3 d) of Inl _ \<Rightarrow> None | Inr (dst, n) \<Rightarrow> Some (dst, drop (3 + n) d))"

definition holder :: "socksUDPConn \<Rightarrow> (UDPAddr \<times> bytes) list \<Rightarrow> UDPAddr option" where
  "holder c ds = (case su_client c of Some cl \<Rightarrow> Some cl | None \<Rightarrow> (case ds of [] \<Rightarrow> None | (src, _) # _ \<Rightarrow> Some src))"

definition taken :: "UDPAddr option \<Rightarrow> UDPAddr \<times> bytes \<Rightarrow> bool" where
  "taken h = (\<lambda>(src, d). (\<exists>cl. h = Some cl \<and> ip_Equal (ua_IP cl) (ua_IP src) \<and> ua_Port cl = ua_Port src) \<and> decodeUDP d \<noteq> None)"

lemma ip_Equal_refl [simp]: "ip_Equal x x"
  by (simp add: ip_Equal_def)

lemma recvFrom_whole:
  assumes "length (bb_data b) = DefaultSize" "length d \<le> 32256"
  obtains b' where "recvFrom b d = Some b'" "bufOK b'" "buf_Bytes b' = d" "length (bb_data b') = DefaultSize"
proof -
  have R: "bb_start (buf_Reset b) = 512" "bb_end (buf_Reset b) = 512" "length (bb_data (buf_Reset b)) = 32768" "Tailroom (buf_Reset b) = 32256"
    using assms(1) by (simp_all add: buf_Reset_def Tailroom_def DefaultSize_def DefaultHeadroom_def)
  let ?b = "Truncate (length d) (putSlice 512 d (buf_Reset b \<lparr> bb_end := 32768 \<rparr>))"
  have "recvFrom b d = Some ?b" using assms(2) R by (simp add: recvFrom_def ExtendTail_def Let_def)
  moreover have "bufOK ?b" "buf_Bytes ?b = d" "length (bb_data ?b) = DefaultSize"
    using assms(2) R by (simp_all add: bufOK_def buf_Bytes_def Truncate_def putSlice_def DefaultSize_def)
  ultimately show thesis by (rule that)
qed

lemma parseUDPAddr_len: "parseUDPAddr p = Inr (dst, n) \<Longrightarrow> n \<le> length p"
  by (auto simp: parseUDPAddr_def Let_def split: if_splits)

lemma parse_header: "carriable dst \<Longrightarrow>
    parseUDPAddr (drop 3 (encodeUDPHeader dst @ p)) = Inr (arrives dst, length (encodeUDPHeader dst) - 3)"
  by (cases "IsFqdn dst"; cases "sa_Addr dst")
    (auto simp: parseUDPAddr_def encodeUDPHeader_def arrives_def carriable_def be16_def be32_def Let_def nth_append AddrFrom4_def)

lemma decode_header: "carriable dst \<Longrightarrow> decodeUDP (encodeUDPHeader dst @ p) = Some (arrives dst, p)"
proof -
  assume c: "carriable dst"
  have l: "4 \<le> length (encodeUDPHeader dst)" "(encodeUDPHeader dst @ p) ! 2 = 0" by (auto simp: encodeUDPHeader_def)
  then show ?thesis using parse_header [OF c, of p] by (simp add: decodeUDP_def)
qed

lemma reads_next:
  assumes "length (bb_data b) = DefaultSize" "\<forall>(src, d) \<in> set ds. length d \<le> 32256" "su_client c = Some cl"
  shows "case dropWhile (\<lambda>x. \<not> taken (Some cl) x) ds of
      [] \<Rightarrow> sk_ReadPacket c b ds = Some (c, [], Inl (SkRead EOF))
    | (src, d) # ds' \<Rightarrow> \<exists>b' dst. sk_ReadPacket c b ds = Some (c, ds', Inr (dst, b')) \<and> decodeUDP d = Some (dst, buf_Bytes b')"
  using assms
proof (induction ds arbitrary: b)
  case (Cons x ds)
  obtain src d where x: "x = (src, d)" by fastforce
  obtain b' where b': "recvFrom b d = Some b'" "bufOK b'" "buf_Bytes b' = d" "length (bb_data b') = DefaultSize"
    using recvFrom_whole [OF Cons.prems(1), of d] Cons.prems(2) x by auto
  have IH: "case dropWhile (\<lambda>x. \<not> taken (Some cl) x) ds of
      [] \<Rightarrow> sk_ReadPacket c b' ds = Some (c, [], Inl (SkRead EOF))
    | (src, d) # ds' \<Rightarrow> \<exists>b'' dst. sk_ReadPacket c b' ds = Some (c, ds', Inr (dst, b'')) \<and> decodeUDP d = Some (dst, buf_Bytes b'')"
    using Cons.IH [OF b'(4)] Cons.prems by simp
  show ?case
  proof (cases "taken (Some cl) x")
    case True
    then obtain dst n where n: "parseUDPAddr (drop 3 d) = Inr (dst, n)" "\<not> (length d < 4 \<or> d ! 2 \<noteq> 0)"
      using x by (auto simp: taken_def decodeUDP_def split: if_splits sum.splits)
    have "3 + n \<le> buf_Len b'" using parseUDPAddr_len [OF n(1)] n(2) length_buf_Bytes [OF b'(2)] b'(3) by auto
    then have "buf_Bytes (Advance (3 + n) b') = drop (3 + n) d" using buf_Advance [OF b'(2)] b'(3) by simp
    then show ?thesis using True x n b'(1,3) Cons.prems(3) by (auto simp: taken_def decodeUDP_def Let_def)
  next
    case False
    then have e: "sk_ReadPacket c b (x # ds) = sk_ReadPacket c b' ds"
      using x b'(1,3) Cons.prems(3) by (auto simp: taken_def decodeUDP_def Let_def split: sum.splits if_splits)
    have w: "dropWhile (\<lambda>x. \<not> taken (Some cl) x) (x # ds) = dropWhile (\<lambda>x. \<not> taken (Some cl) x) ds" using False by simp
    show ?thesis unfolding e w by (rule IH)
  qed
qed simp

text \<open>The first datagram to arrive makes its source the holder of the association.\<close>

lemma first_locks: "su_client c = None \<Longrightarrow>
    sk_ReadPacket c b ((src, d) # ds) = sk_ReadPacket \<lparr> su_client = Some src \<rparr> b ((src, d) # ds)"
  by (auto simp: Let_def split: option.splits intro: arg_cong)

lemma header_room: "carriable dst \<Longrightarrow> length (encodeUDPHeader dst) \<le> 262"
  by (cases "sa_Addr dst") (auto simp: encodeUDPHeader_def carriable_def)

lemma udp_written:
  assumes "bufOK b" "carriable dst" "262 \<le> Headroom b"
  obtains b' where "skc_WritePacket b dst = Some (b', encodeUDPHeader dst @ buf_Bytes b)"
    "\<And>c cl. su_client c = Some cl \<Longrightarrow> sk_WritePacket c b dst = Some (Inr (cl, b', encodeUDPHeader dst @ buf_Bytes b))"
proof -
  have l: "length (encodeUDPHeader dst) \<le> Headroom b" using header_room [OF assms(2)] assms(3) by simp
  obtain b1 i where b1: "ExtendHeader (length (encodeUDPHeader dst)) b = Some (b1, i, length (encodeUDPHeader dst))"
      "buf_Bytes (putSlice i (encodeUDPHeader dst) b1) = encodeUDPHeader dst @ buf_Bytes b"
    using ExtendHeader_put [OF assms(1) l] by metis
  show thesis by (rule that [of "putSlice i (encodeUDPHeader dst) b1"])
    (simp_all add: skc_WritePacket_def sk_WritePacket_def Let_def b1)
qed

text \<open>
  C25: An association takes the datagrams of the source of the first one and no others: reading returns
  the next datagram of that source that carries a whole header, with its destination and its payload,
  and skips every other; replies go to that source only.  A datagram the client writes for a destination
  is one the server reads with that destination and payload, and a reply the server writes is one the
  client reads in the same way.
\<close>

theorem socks_udp:
  assumes "length (bb_data b) = DefaultSize" "\<forall>(src, d) \<in> set ds. length d \<le> 32256"
    and "bufOK out" "carriable dst" "262 \<le> Headroom out"
  shows "(case dropWhile (\<lambda>x. \<not> taken (holder c ds) x) ds of
      [] \<Rightarrow> sk_ReadPacket c b ds = Some (\<lparr> su_client = holder c ds \<rparr>, [], Inl (SkRead EOF))
    | (src, d) # ds' \<Rightarrow> \<exists>b' to. sk_ReadPacket c b ds = Some (\<lparr> su_client = holder c ds \<rparr>, ds', Inr (to, b'))
        \<and> decodeUDP d = Some (to, buf_Bytes b'))
    \<and> (\<exists>b' w. skc_WritePacket out dst = Some (b', w) \<and> decodeUDP w = Some (arrives dst, buf_Bytes out)
        \<and> (case su_client c of None \<Rightarrow> sk_WritePacket c out dst = Some (Inl SkNoClient)
           | Some cl \<Rightarrow> sk_WritePacket c out dst = Some (Inr (cl, b', w))))"
proof
  show "case dropWhile (\<lambda>x. \<not> taken (holder c ds) x) ds of
      [] \<Rightarrow> sk_ReadPacket c b ds = Some (\<lparr> su_client = holder c ds \<rparr>, [], Inl (SkRead EOF))
    | (src, d) # ds' \<Rightarrow> \<exists>b' to. sk_ReadPacket c b ds = Some (\<lparr> su_client = holder c ds \<rparr>, ds', Inr (to, b'))
        \<and> decodeUDP d = Some (to, buf_Bytes b')"
  proof (cases "su_client c")
    case None
    show ?thesis
    proof (cases ds)
      case Nil
      then show ?thesis using None by (cases c) (simp add: holder_def)
    next
      case (Cons x xs)
      obtain src d where x: "x = (src, d)" by fastforce
      have h: "holder c ds = Some src" using None Cons x by (simp add: holder_def)
      have e: "sk_ReadPacket c b ds = sk_ReadPacket \<lparr> su_client = Some src \<rparr> b ds"
        unfolding Cons x by (rule first_locks [OF None])
      show ?thesis unfolding h e by (rule reads_next [OF assms(1,2)]) simp
    qed
  next
    case (Some cl)
    then have c: "\<lparr> su_client = Some cl \<rparr> = c" and h: "holder c ds = Some cl" by (cases c; simp add: holder_def)+
    show ?thesis unfolding h c by (rule reads_next [OF assms(1,2) Some])
  qed
next
  obtain b' where b': "skc_WritePacket out dst = Some (b', encodeUDPHeader dst @ buf_Bytes out)"
    "\<And>c cl. su_client c = Some cl \<Longrightarrow> sk_WritePacket c out dst = Some (Inr (cl, b', encodeUDPHeader dst @ buf_Bytes out))"
    using udp_written [OF assms(3-5)] by blast
  show "\<exists>b' w. skc_WritePacket out dst = Some (b', w) \<and> decodeUDP w = Some (arrives dst, buf_Bytes out)
        \<and> (case su_client c of None \<Rightarrow> sk_WritePacket c out dst = Some (Inl SkNoClient)
           | Some cl \<Rightarrow> sk_WritePacket c out dst = Some (Inr (cl, b', w)))"
    by (intro exI [of _ b'] exI [of _ "encodeUDPHeader dst @ buf_Bytes out"])
      (use b' in \<open>auto simp: decode_header [OF assms(4)] sk_WritePacket_def split: option.splits\<close>)
qed

theorem socks_udp_witness:
  "\<exists>b' to. sk_ReadPacket \<lparr> su_client = None \<rparr> (buf_New (replicate DefaultSize 0))
       [(\<lparr> ua_IP = [10, 0, 0, 1], ua_Port = 9 \<rparr>, [1]), (\<lparr> ua_IP = [10, 0, 0, 2], ua_Port = 9 \<rparr>, [0, 0, 0, 1, 1, 2, 3, 4, 0, 80, 42]),
        (\<lparr> ua_IP = [10, 0, 0, 1], ua_Port = 9 \<rparr>, [0, 0, 0, 1, 1, 2, 3, 4, 0, 80, 43])]
     = Some (\<lparr> su_client = Some \<lparr> ua_IP = [10, 0, 0, 1], ua_Port = 9 \<rparr> \<rparr>, [], Inr (to, b')) \<and> buf_Bytes b' = [43]"
proof -
  let ?ds = "[(\<lparr> ua_IP = [10, 0, 0, 1], ua_Port = 9 \<rparr>, [1]), (\<lparr> ua_IP = [10, 0, 0, 2], ua_Port = 9 \<rparr>, [0, 0, 0, 1, 1, 2, 3, 4, 0, 80, 42]),
        (\<lparr> ua_IP = [10, 0, 0, 1], ua_Port = 9 \<rparr>, [0, 0, 0, 1, 1, 2, 3, 4, 0, 80, 43])] :: (UDPAddr \<times> bytes) list"
  have d: "decodeUDP [1] = None" "\<exists>a. decodeUDP [0, 0, 0, 1, 1, 2, 3, 4, 0, 80, 43] = Some (a, [43])"
    by (simp_all add: decodeUDP_def parseUDPAddr_def)
  show ?thesis
    using socks_udp [of "buf_New (replicate DefaultSize 0)" ?ds "buf_New (replicate DefaultSize 0)" sw_dst "\<lparr> su_client = None \<rparr>"] d sw_carriable(1)
    by (auto simp: holder_def taken_def ip_Equal_def buf_New_def bufOK_def Headroom_def DefaultSize_def DefaultHeadroom_def)
qed

end
