(* ===== verification/GoPrint.thy ===== *)
theory GoPrint
  imports GoNet
begin

text \<open>
  Printing of addresses: \<open>netip.Addr.String\<close>, \<open>netip.AddrPort.String\<close>, \<open>net.JoinHostPort\<close> and the
  program's \<open>Socksaddr.Host\<close> and \<open>Socksaddr.String\<close>.
\<close>

section \<open>Numbers\<close>

definition digitChar :: "nat \<Rightarrow> char" where
  "digitChar d = char_of (if d < 10 then 48 + d else 87 + d)"

fun radixStr :: "nat \<Rightarrow> nat \<Rightarrow> string" where
  "radixStr b n = (if b < 2 \<or> n < b then [digitChar n] else radixStr b (n div b) @ [digitChar (n mod b)])"

declare radixStr.simps [simp del]

definition Itoa :: "nat \<Rightarrow> string" where
  "Itoa = radixStr 10"

fun joinWith :: "string \<Rightarrow> string list \<Rightarrow> string" where
  "joinWith sep [] = []"
| "joinWith sep [x] = x"
| "joinWith sep (x # y # xs) = x @ sep @ joinWith sep (y # xs)"

section \<open>Addresses\<close>

definition str4 :: "u32 \<Rightarrow> string" where
  "str4 w = joinWith ''.'' (map (\<lambda>i. Itoa (unat (take_bit 8 (drop_bit (24 - 8 * i) w)))) [0..<4])"

definition groups16 :: "u128 \<Rightarrow> nat list" where
  "groups16 w = map (\<lambda>i. unat (take_bit 16 (drop_bit (112 - 16 * i) w))) [0..<8]"

text \<open>The longest run of at least two zero groups, the first of the longest: where it starts and ends.\<close>

definition zeroRun :: "nat list \<Rightarrow> nat \<times> nat" where
  "zeroRun gs = fold (\<lambda>i (zs, ze).
     let l = length (takeWhile (\<lambda>g. g = 0) (drop i gs)) in
     if 2 \<le> l \<and> ze - zs < l then (i, i + l) else (zs, ze)) [0..<8] (255, 255)"

definition str6 :: "u128 \<Rightarrow> string" where
  "str6 w =
    (let gs = groups16 w; (zs, ze) = zeroRun gs; hex = map (radixStr 16) in
     if zs = 255 then joinWith '':'' (hex gs)
     else joinWith '':'' (hex (take zs gs)) @ ''::'' @ joinWith '':'' (hex (drop ze gs)))"

definition withZone :: "string \<Rightarrow> string \<Rightarrow> string" where
  "withZone z s = (if z = [] then s else s @ ''%'' @ z)"

fun addr_String :: "Addr \<Rightarrow> string" where
  "addr_String AddrZero = ''invalid IP''"
| "addr_String (Addr4 w) = str4 w"
| "addr_String (Addr6 w z) =
    withZone z (if Is4In6 (Addr6 w z) then ''::ffff:'' @ str4 (ucast w) else str6 w)"

definition ap_String :: "AddrPort \<Rightarrow> string" where
  "ap_String p =
    (case ap_addr p of
       AddrZero \<Rightarrow> ''invalid AddrPort''
     | Addr4 w \<Rightarrow> str4 w @ '':'' @ Itoa (unat (ap_port p))
     | Addr6 w z \<Rightarrow> ''['' @ addr_String (Addr6 w z) @ '']:'' @ Itoa (unat (ap_port p)))"

definition JoinHostPort :: "string \<Rightarrow> string \<Rightarrow> string" where
  "JoinHostPort host port = (if contains host '':'' then ''['' @ host @ '']:'' @ port else host @ '':'' @ port)"

section \<open>Destinations\<close>

definition Host :: "Socksaddr \<Rightarrow> string" where
  "Host s = (if IsFqdn s then sa_Fqdn s else addr_String (sa_Addr s))"

definition sa_String :: "Socksaddr \<Rightarrow> string" where
  "sa_String s =
    (if IsFqdn s then JoinHostPort (sa_Fqdn s) (Itoa (unat (sa_Port s)))
     else ap_String \<lparr> ap_addr = sa_Addr s, ap_port = sa_Port s \<rparr>)"

end
