(* ===== verification/Group.thy ===== *)
theory Group
  imports GoPrint Wire "HOL-Library.Multiset"
begin

text \<open>
  Group outbounds (\<open>outbound/group\<close>): choosing among member outbounds by hand, by measured delay, by
  order, or by distributing destinations.  An outbound is a value of any type; what a probe measures is
  an argument, as is the parser of the test address.
\<close>

section \<open>Types\<close>

datatype Strategy = Select | URLTest | Fallback | LoadBalance

record 'o Member =
  m_Name :: string
  m_Out :: 'o

record 'o Options =
  o_Name :: string
  o_Members :: "'o Member list"
  o_Strategy :: Strategy
  o_Default :: string
  o_TestURL :: string
  o_Interval :: int
  o_Tolerance :: int
  o_LBHash :: bool

record memState =
  ms_delay :: int
  ms_alive :: bool

record 'o Group =
  g_opts :: "'o Options"
  g_picked :: "'o Member option"
  g_rr :: u64
  g_state :: "string \<rightharpoonup> memState"
  g_testAddr :: Socksaddr
  g_testURL :: string

datatype groupErr = NoMembers | BadURL

text \<open>Arithmetic of \<open>time.Duration\<close>, a signed 64-bit count of nanoseconds.\<close>

definition dur :: "int \<Rightarrow> int" where
  "dur z = sint (word_of_int z :: u64)"

definition Millisecond :: int where "Millisecond = 1000000"
definition Minute :: int where "Minute = 60000000000"

section \<open>Construction\<close>

definition isDigit :: "char \<Rightarrow> bool" where
  "isDigit c = (48 \<le> (of_char c :: nat) \<and> (of_char c :: nat) \<le> 57)"

text \<open>\<open>fmt.Sscanf\<close> with \<open>%d\<close> on the port of an URL, which consists of digits.\<close>

definition strconvAtoiPort :: "string \<Rightarrow> u16" where
  "strconvAtoiPort s =
    (let ds = takeWhile isDigit s; n = fold (\<lambda>c n. 10 * n + (of_char c - 48)) ds (0 :: nat) in
     if ds = [] \<or> n > 65535 then 80 else word_of_nat n)"

text \<open>\<open>urlParse\<close> gives the scheme, the host name and the port of an URL.\<close>

definition New :: "(string \<Rightarrow> (string \<times> string \<times> string) option) \<Rightarrow> 'o Options \<Rightarrow> (groupErr, 'o Group) result" where
  "New urlParse opts0 =
    (if o_Members opts0 = [] then Inl NoMembers
     else
       (let opts = (if o_TestURL opts0 = [] then opts0\<lparr>o_TestURL := ''http://www.gstatic.com/generate_204''\<rparr> else opts0);
            opts = (if o_Interval opts \<le> 0 then opts\<lparr>o_Interval := 5 * Minute\<rparr> else opts) in
        case urlParse (o_TestURL opts) of
          None \<Rightarrow> Inl BadURL
        | Some (scheme, host, port0) \<Rightarrow>
            (let port = (if port0 = [] then (if scheme = ''https'' then ''443'' else ''80'') else port0);
                 pn = strconvAtoiPort port;
                 testAddr = (case ParseAddr host of Some ip \<Rightarrow> FromIPPort \<lparr> ap_addr = ip, ap_port = pn \<rparr> | None \<Rightarrow> FromFqdn host pn);
                 init = (case List.find (\<lambda>m. m_Name m = o_Default opts) (o_Members opts) of
                           Some m \<Rightarrow> m | None \<Rightarrow> hd (o_Members opts));
                 before = takeWhile (\<lambda>m. m_Name m \<noteq> o_Default opts) (o_Members opts);
                 state1 = fold (\<lambda>m st. st(m_Name m \<mapsto> \<lparr> ms_delay = 0, ms_alive = True \<rparr>)) before Map.empty;
                 state = fold (\<lambda>m st. if st (m_Name m) = None then st(m_Name m \<mapsto> \<lparr> ms_delay = 0, ms_alive = True \<rparr>) else st)
                           (o_Members opts) state1 in
             Inr \<lparr> g_opts = opts, g_picked = Some init, g_rr = 0, g_state = state, g_testAddr = testAddr, g_testURL = o_TestURL opts \<rparr>)))"

section \<open>Choosing\<close>

definition SelectOutbound :: "string \<Rightarrow> 'o Group \<Rightarrow> bool \<times> 'o Group" where
  "SelectOutbound name g =
    (case List.find (\<lambda>m. m_Name m = name) (o_Members (g_opts g)) of
       Some m \<Rightarrow> (True, g\<lparr>g_picked := Some m\<rparr>) | None \<Rightarrow> (False, g))"

definition aliveOf :: "'o Group \<Rightarrow> string \<Rightarrow> bool" where
  "aliveOf g name = (case g_state g name of None \<Rightarrow> True | Some s \<Rightarrow> ms_alive s)"

text \<open>\<open>int(rr) % n\<close>: the conversion is signed, and a negative index panics.\<close>

definition rrIndex :: "u64 \<Rightarrow> nat \<Rightarrow> nat option" where
  "rrIndex rr n =
    (let z = sint rr in
     if 0 \<le> z then Some (nat z mod n) else if (- z) mod int n = 0 then Some 0 else None)"

fun rrLoop :: "nat \<Rightarrow> 'o Group \<Rightarrow> ('o Member option \<times> 'o Group) option" where
  "rrLoop 0 g = Some (None, g)"
| "rrLoop (Suc k) g =
    (let ms = o_Members (g_opts g); rr = g_rr g + 1; g = g\<lparr>g_rr := rr\<rparr> in
     case rrIndex rr (length ms) of
       None \<Rightarrow> None
     | Some idx \<Rightarrow> if aliveOf g (m_Name (ms ! idx)) then Some (Some (ms ! idx), g) else rrLoop k g)"

definition pickLB :: "Socksaddr \<Rightarrow> 'o Group \<Rightarrow> ('o Member \<times> 'o Group) option" where
  "pickLB dst g =
    (let ms = o_Members (g_opts g); n = length ms in
     if o_LBHash (g_opts g) then
       (let start = unat (fnv32a (bytes_of_string (sa_String dst))) mod n in
        case List.find (\<lambda>i. aliveOf g (m_Name (ms ! ((start + i) mod n)))) [0..<n] of
          Some i \<Rightarrow> Some (ms ! ((start + i) mod n), g)
        | None \<Rightarrow> Some (ms ! start, g))
     else
       (case rrLoop n g of
          None \<Rightarrow> None
        | Some (Some m, g) \<Rightarrow> Some (m, g)
        | Some (None, g) \<Rightarrow> map_option (\<lambda>i. (ms ! i, g)) (rrIndex (g_rr g) n)))"

definition pick :: "Socksaddr \<Rightarrow> 'o Group \<Rightarrow> ('o Member option \<times> 'o Group) option" where
  "pick dst g =
    (if o_Strategy (g_opts g) = LoadBalance then map_option (\<lambda>(m, g). (Some m, g)) (pickLB dst g)
     else Some (g_picked g, g))"

text \<open>\<open>DialStream\<close> and \<open>DialPacket\<close> dial through the chosen member; \<open>dial\<close> is the member's own method.\<close>

definition group_Dial :: "('o \<Rightarrow> Socksaddr \<Rightarrow> ('e, 's) result) \<Rightarrow> Socksaddr \<Rightarrow> 'o Group \<Rightarrow> (('e option, 's) result \<times> 'o Group) option" where
  "group_Dial dial dst g =
    (case pick dst g of
       None \<Rightarrow> None
     | Some (None, g) \<Rightarrow> Some (Inl None, g)
     | Some (Some m, g) \<Rightarrow> Some (case dial (m_Out m) dst of Inl e \<Rightarrow> Inl (Some e) | Inr s \<Rightarrow> Inr s, g))"

section \<open>Probing\<close>

definition NeedsHealth :: "'o Group \<Rightarrow> bool" where
  "NeedsHealth g = (o_Strategy (g_opts g) \<noteq> Select)"

definition delayOf :: "'o Group \<Rightarrow> string \<Rightarrow> int option" where
  "delayOf g name = (case g_state g name of None \<Rightarrow> None | Some s \<Rightarrow> if ms_alive s then Some (ms_delay s) else None)"

fun bestMember :: "'o Group \<Rightarrow> 'o Member list \<Rightarrow> ('o Member \<times> int) option \<Rightarrow> ('o Member \<times> int) option" where
  "bestMember g [] best = best"
| "bestMember g (m # ms) best =
    bestMember g ms
      (case delayOf g (m_Name m) of
         None \<Rightarrow> best
       | Some d \<Rightarrow> (case best of None \<Rightarrow> Some (m, d) | Some (_, bestD) \<Rightarrow> if d < bestD then Some (m, d) else best))"

definition reselect :: "'o Group \<Rightarrow> 'o Group" where
  "reselect g =
    (case o_Strategy (g_opts g) of
       URLTest \<Rightarrow>
         (let cur = g_picked g;
              curD = (case cur of None \<Rightarrow> 2 ^ 62 | Some m \<Rightarrow> (case delayOf g (m_Name m) of None \<Rightarrow> 2 ^ 62 | Some d \<Rightarrow> d)) in
          case bestMember g (o_Members (g_opts g)) None of
            None \<Rightarrow> g
          | Some (best, bestD) \<Rightarrow>
              if cur = None \<or> dur (bestD + dur (o_Tolerance (g_opts g) * Millisecond)) < curD
              then g\<lparr>g_picked := Some best\<rparr> else g)
     | Fallback \<Rightarrow>
         (case List.find (\<lambda>m. delayOf g (m_Name m) \<noteq> None) (o_Members (g_opts g)) of
            Some m \<Rightarrow> g\<lparr>g_picked := Some m\<rparr> | None \<Rightarrow> g)
     | _ \<Rightarrow> g)"

definition recordProbe :: "'o Member \<times> int \<times> bool \<Rightarrow> (string \<rightharpoonup> memState) \<Rightarrow> string \<rightharpoonup> memState" where
  "recordProbe = (\<lambda>(m, d, ok) st. st(m_Name m \<mapsto> \<lparr> ms_delay = d, ms_alive = ok \<rparr>))"

text \<open>
  The probes run concurrently, each recording its own result; \<open>results\<close> is in the order they finish.
\<close>

definition probeAll :: "('o Member \<times> int \<times> bool) list \<Rightarrow> 'o Group \<Rightarrow> 'o Group" where
  "probeAll results g =
    reselect (g\<lparr>g_state := fold recordProbe results (g_state g)\<rparr>)"

text \<open>The rounds of \<open>HealthLoop\<close>, one at the start and one for each tick.\<close>

definition HealthLoop :: "('o Member \<times> int \<times> bool) list list \<Rightarrow> 'o Group \<Rightarrow> 'o Group" where
  "HealthLoop rounds g = fold probeAll rounds g"

section \<open>Invariant\<close>

definition groupOK :: "'o Group \<Rightarrow> bool" where
  "groupOK g = (o_Members (g_opts g) \<noteq> [] \<and> (\<exists>m \<in> set (o_Members (g_opts g)). g_picked g = Some m))"

lemma New_OK [inv_intros]: "New urlParse opts = Inr g \<Longrightarrow> groupOK g"
  by (auto simp: New_def groupOK_def Let_def find_Some_iff split: if_splits option.splits)

lemma SelectOutbound_OK [inv_intros]: "groupOK g \<Longrightarrow> groupOK (snd (SelectOutbound name g))"
  by (auto simp: SelectOutbound_def groupOK_def find_Some_iff split: option.splits)

lemma rrLoop_same: "rrLoop k g = Some (m, g') \<Longrightarrow> \<exists>r. g' = g\<lparr>g_rr := r\<rparr>"
proof (induction k arbitrary: g)
  case 0
  then have "g' = g\<lparr>g_rr := g_rr g\<rparr>" by simp
  then show ?case ..
next
  case (Suc k)
  from Suc.prems consider "g' = g\<lparr>g_rr := g_rr g + 1\<rparr>" | "rrLoop k (g\<lparr>g_rr := g_rr g + 1\<rparr>) = Some (m, g')"
    by (auto simp: Let_def split: option.splits if_splits)
  then show ?case
  proof cases
    case 2
    show ?thesis using Suc.IH [OF 2] by auto
  qed blast
qed

lemma pickLB_same: "pickLB dst g = Some (m, g') \<Longrightarrow> \<exists>r. g' = g\<lparr>g_rr := r\<rparr>"
  by (auto simp: pickLB_def Let_def dest: rrLoop_same split: if_splits option.splits intro: exI [of _ "g_rr g"])

lemma bestMember_cases:
  "bestMember g ms best = Some (m, d) \<Longrightarrow> best = Some (m, d) \<or> (m \<in> set ms \<and> delayOf g (m_Name m) = Some d)"
  by (induction ms arbitrary: best) (fastforce split: option.splits if_splits)+

lemma reselect_OK [inv_intros]: "groupOK g \<Longrightarrow> groupOK (reselect g)"
  by (auto simp: reselect_def groupOK_def Let_def find_Some_iff dest!: bestMember_cases split: Strategy.splits option.splits)

lemma probeAll_OK [inv_intros]: "groupOK g \<Longrightarrow> groupOK (probeAll results g)"
  unfolding probeAll_def by (rule reselect_OK) (simp add: groupOK_def)

lemma HealthLoop_OK [inv_intros]: "groupOK g \<Longrightarrow> groupOK (HealthLoop rounds g)"
  unfolding HealthLoop_def by (induction rounds arbitrary: g) (simp_all add: probeAll_OK)

section \<open>A round of probes\<close>

definition rowOf :: "'o Member \<times> int \<times> bool \<Rightarrow> string \<times> memState" where
  "rowOf = (\<lambda>(m, d, ok). (m_Name m, \<lparr> ms_delay = d, ms_alive = ok \<rparr>))"

lemma probe_state:
  assumes "distinct (map (m_Name \<circ> fst) results)"
  shows "fold recordProbe results st = st ++ map_of (map rowOf results)"
  using assms
proof (induction results arbitrary: st)
  case (Cons x xs)
  obtain m d ok where x: "x = (m, d, ok)" by (cases x) blast
  have n: "m_Name m \<notin> dom (map_of (map rowOf xs))"
    using Cons.prems x by (auto simp: dom_map_of_conv_image_fst rowOf_def image_iff split: prod.splits)
  let ?v = "\<lparr> ms_delay = d, ms_alive = ok \<rparr>"
  have r: "recordProbe x st = st(m_Name m \<mapsto> ?v)" "map_of (map rowOf (x # xs)) = (map_of (map rowOf xs))(m_Name m \<mapsto> ?v)"
    by (simp_all add: recordProbe_def rowOf_def x)
  have "fold recordProbe (x # xs) st = fold recordProbe xs (recordProbe x st)" by simp
  also have "\<dots> = recordProbe x st ++ map_of (map rowOf xs)" by (rule Cons.IH) (use Cons.prems in simp)
  finally show ?case unfolding r by (simp only: map_add_upd_left [OF n] map_add_upd)
qed simp

lemma probe_order:
  assumes "distinct (map (m_Name \<circ> fst) results)" "mset results' = mset results"
  shows "probeAll results' g = probeAll results g"
proof -
  have d: "distinct (map (m_Name \<circ> fst) results')"
    using assms by (metis mset_eq_imp_distinct_iff mset_map)
  have f: "map fst (map rowOf rs) = map (m_Name \<circ> fst) rs" for rs :: "('o Member \<times> int \<times> bool) list"
    by (auto simp: rowOf_def)
  have e: "set (map rowOf results') = set (map rowOf results)" using mset_eq_setD [OF assms(2)] by simp
  have "map_of (map rowOf results') = map_of (map rowOf results)"
    unfolding map_of_inject_set [OF d [folded f] assms(1) [folded f]] by (rule e)
  then show ?thesis unfolding probeAll_def probe_state [OF assms(1)] probe_state [OF d] by simp
qed

text \<open>\<open>g\<close> has just been probed with these results: every member has its own.\<close>

definition probed :: "('o Member \<times> int \<times> bool) list \<Rightarrow> 'o Group \<Rightarrow> bool" where
  "probed results g = (\<forall>(m, d, ok) \<in> set results. g_state g (m_Name m) = Some \<lparr> ms_delay = d, ms_alive = ok \<rparr>)"

lemma probed_delay: "probed results g \<Longrightarrow> (m, d, ok) \<in> set results \<Longrightarrow> delayOf g (m_Name m) = (if ok then Some d else None)"
  by (auto simp: probed_def delayOf_def)

lemma bestMember_least:
  "bestMember g ms best = r \<Longrightarrow> (\<forall>m \<in> set ms. \<forall>d. delayOf g (m_Name m) = Some d \<longrightarrow> (\<exists>b e. r = Some (b, e) \<and> e \<le> d))
    \<and> (\<forall>b e. best = Some (b, e) \<longrightarrow> (\<exists>b' e'. r = Some (b', e') \<and> e' \<le> e))"
proof (induction ms arbitrary: best)
  case (Cons m ms)
  show ?case using Cons.IH [OF Cons.prems [simplified]] by (fastforce split: option.splits if_splits)
qed auto

lemma dur_small: "- (2 ^ 63) \<le> z \<Longrightarrow> z < 2 ^ 63 \<Longrightarrow> dur z = z"
  unfolding dur_def sint_sbintrunc' by (rule signed_take_bit_int_eq_self) simp_all

lemma results_members:
  assumes "mset (map fst results) = mset ms" "m \<in> set ms"
  obtains d ok where "(m, d, ok) \<in> set results"
proof -
  have "m \<in> fst ` set results" using assms by (metis set_map set_mset_mset)
  then show thesis using that by auto
qed

lemma probed_after:
  assumes "distinct (map m_Name ms)" "mset (map fst results) = mset ms"
  shows "distinct (map (m_Name \<circ> fst) results)"
    and "probed results (g\<lparr>g_state := fold recordProbe results (g_state g)\<rparr>)"
proof -
  have "mset (map m_Name (map fst results)) = mset (map m_Name ms)" using assms(2) by (simp only: mset_map)
  then show d: "distinct (map (m_Name \<circ> fst) results)" using assms(1) by (metis map_map mset_eq_imp_distinct_iff)
  have f: "map fst (map rowOf results) = map (m_Name \<circ> fst) results" by (auto simp: rowOf_def)
  have "(g_state g ++ map_of (map rowOf results)) (m_Name m) = Some \<lparr> ms_delay = e, ms_alive = ok \<rparr>" if "(m, e, ok) \<in> set results" for m e ok
  proof -
    have "(m_Name m, \<lparr> ms_delay = e, ms_alive = ok \<rparr>) \<in> set (map rowOf results)" using that by (force simp: rowOf_def)
    then have "map_of (map rowOf results) (m_Name m) = Some \<lparr> ms_delay = e, ms_alive = ok \<rparr>"
      using d f by (simp only: map_of_eq_Some_iff)
    then show ?thesis by (simp add: map_add_def)
  qed
  then show "probed results (g\<lparr>g_state := fold recordProbe results (g_state g)\<rparr>)"
    unfolding probe_state [OF d] by (auto simp: probed_def)
qed

text \<open>What the reselection makes of the results.\<close>

definition up :: "('o Member \<times> int \<times> bool) list \<Rightarrow> 'o Member \<Rightarrow> int \<Rightarrow> bool" where
  "up results m d = ((m, d, True) \<in> set results)"

lemma reselect_fallback:
  assumes "probed results g" "mset (map fst results) = mset (o_Members (g_opts g))" "o_Strategy (g_opts g) = Fallback"
  shows "g_picked (reselect g) = (case List.find (\<lambda>m. \<exists>d. up results m d) (o_Members (g_opts g)) of Some m \<Rightarrow> Some m | None \<Rightarrow> g_picked g)"
proof -
  have "(delayOf g (m_Name m) \<noteq> None) = (\<exists>d. up results m d)" if m: "m \<in> set (o_Members (g_opts g))" for m
  proof -
    obtain d ok where r: "(m, d, ok) \<in> set results" using results_members [OF assms(2) m] by blast
    have "ok" if u: "up results m e" for e
      using probed_delay [OF assms(1) r] probed_delay [OF assms(1) u [unfolded up_def]] by (auto split: if_splits)
    then show ?thesis using probed_delay [OF assms(1) r] r by (auto simp: up_def)
  qed
  then have "List.find (\<lambda>m. delayOf g (m_Name m) \<noteq> None) (o_Members (g_opts g)) = List.find (\<lambda>m. \<exists>d. up results m d) (o_Members (g_opts g))"
    by (intro find_cong) simp_all
  then show ?thesis using assms(3) by (simp add: reselect_def split: option.splits)
qed

lemma reselect_urltest:
  assumes P: "probed results g" "mset (map fst results) = mset (o_Members (g_opts g))"
    and S: "o_Strategy (g_opts g) = URLTest" and OK: "groupOK g"
    and B: "\<forall>(m, d, ok) \<in> set results. 0 \<le> d \<and> d < 2 ^ 61" "0 \<le> o_Tolerance (g_opts g)" "o_Tolerance (g_opts g) \<le> 2 ^ 40"
  shows "if \<exists>m d. up results m d
    then \<exists>p e. g_picked (reselect g) = Some p \<and> up results p e \<and> (\<forall>m d. up results m d \<longrightarrow> e \<le> d + o_Tolerance (g_opts g) * Millisecond)
    else g_picked (reselect g) = g_picked g"
proof -
  let ?ms = "o_Members (g_opts g)" and ?t = "o_Tolerance (g_opts g) * Millisecond"
  have t: "0 \<le> ?t" "?t < 2 ^ 60" using B(2,3) by (simp_all add: Millisecond_def)
  have ms: "set ?ms = fst ` set results" using P(2) by (metis set_map set_mset_mset)
  have delay: "delayOf g (m_Name m) = Some d \<longleftrightarrow> up results m d" if m: "m \<in> set ?ms" for m d
  proof -
    obtain e ok where r: "(m, e, ok) \<in> set results" using results_members [OF P(2) m] by blast
    show ?thesis
      using probed_delay [OF P(1) r] r probed_delay [OF P(1), of m d True] by (auto simp: up_def split: if_splits)
  qed
  have upms: "m \<in> set ?ms" if "up results m d" for m d using that ms by (force simp: up_def)
  obtain c where c: "g_picked g = Some c" "c \<in> set ?ms" using OK by (auto simp: groupOK_def)
  show ?thesis
  proof (cases "bestMember g ?ms None")
    case None
    then have "\<not> up results m d" for m d using bestMember_least [OF None] delay upms by blast
    then show ?thesis using None S by (simp add: reselect_def Let_def)
  next
    case (Some be)
    obtain b e where be: "be = (b, e)" by fastforce
    have b: "up results b e" using bestMember_cases [OF Some [unfolded be]] delay by auto
    have least: "e \<le> d" if "up results m d" for m d
      using bestMember_least [OF Some] be delay [OF upms [OF that]] upms [OF that] that by auto
    have e: "0 \<le> e" "e < 2 ^ 61" using b B(1) by (auto simp: up_def)
    have d1: "dur ?t = ?t" by (rule dur_small) (use t in simp_all)
    have d2: "dur (e + ?t) = e + ?t" by (rule dur_small) (use t e in simp_all)
    have any: "\<exists>m d. up results m d" using b by blast
    define curD where "curD = (case delayOf g (m_Name c) of None \<Rightarrow> 2 ^ 62 | Some d \<Rightarrow> d)"
    have res: "g_picked (reselect g) = (if e + ?t < curD then Some b else Some c)"
      using S Some be c(1) d1 d2 by (simp add: reselect_def Let_def curD_def)
    show ?thesis
    proof (cases "e + ?t < curD")
      case True
      have "e \<le> d + ?t" if "up results m d" for m d using least [OF that] t by simp
      then show ?thesis using any b res True by auto
    next
      case False
      then obtain cd where cd: "delayOf g (m_Name c) = Some cd" using t e by (cases "delayOf g (m_Name c)") (auto simp: curD_def)
      have "cd \<le> d + ?t" if "up results m d" for m d using least [OF that] False cd by (simp add: curD_def)
      then show ?thesis using any res False cd delay [OF c(2)] by auto
    qed
  qed
qed

section \<open>Properties\<close>

text \<open>
  C31: After a round of probes, in whatever order they finish, a fallback group has chosen the first
  member that answered, and a delay group a member that answered and whose delay exceeds that of no
  other by more than the tolerance; if no member answered, the choice is unchanged, and hand-picked and
  balancing groups never change it.
\<close>

theorem group_health:
  assumes "groupOK g" "distinct (map m_Name (o_Members (g_opts g)))" "mset (map fst results) = mset (o_Members (g_opts g))"
    and "\<forall>(m, d, ok) \<in> set results. 0 \<le> d \<and> d < 2 ^ 61" "0 \<le> o_Tolerance (g_opts g)" "o_Tolerance (g_opts g) \<le> 2 ^ 40"
  shows "(\<forall>results'. mset results' = mset results \<longrightarrow> probeAll results' g = probeAll results g)
    \<and> (case o_Strategy (g_opts g) of
         Fallback \<Rightarrow> g_picked (probeAll results g) =
           (case List.find (\<lambda>m. \<exists>d. up results m d) (o_Members (g_opts g)) of Some m \<Rightarrow> Some m | None \<Rightarrow> g_picked g)
       | URLTest \<Rightarrow>
           (if \<exists>m d. up results m d
            then \<exists>p e. g_picked (probeAll results g) = Some p \<and> up results p e
              \<and> (\<forall>m d. up results m d \<longrightarrow> e \<le> d + o_Tolerance (g_opts g) * Millisecond)
            else g_picked (probeAll results g) = g_picked g)
       | _ \<Rightarrow> g_picked (probeAll results g) = g_picked g)"
proof
  note P = probed_after(1) [OF assms(2,3)] probed_after(2) [OF assms(2,3), of g]
  show "\<forall>results'. mset results' = mset results \<longrightarrow> probeAll results' g = probeAll results g"
    using probe_order [OF P(1)] by blast
  let ?g = "g\<lparr>g_state := fold recordProbe results (g_state g)\<rparr>"
  have OK: "groupOK ?g" using assms(1) by (simp add: groupOK_def)
  have r: "probeAll results g = reselect ?g" by (simp add: probeAll_def)
  show "case o_Strategy (g_opts g) of
         Fallback \<Rightarrow> g_picked (probeAll results g) =
           (case List.find (\<lambda>m. \<exists>d. up results m d) (o_Members (g_opts g)) of Some m \<Rightarrow> Some m | None \<Rightarrow> g_picked g)
       | URLTest \<Rightarrow>
           (if \<exists>m d. up results m d
            then \<exists>p e. g_picked (probeAll results g) = Some p \<and> up results p e
              \<and> (\<forall>m d. up results m d \<longrightarrow> e \<le> d + o_Tolerance (g_opts g) * Millisecond)
            else g_picked (probeAll results g) = g_picked g)
       | _ \<Rightarrow> g_picked (probeAll results g) = g_picked g"
  proof (cases "o_Strategy (g_opts g)")
    case URLTest
    have f: "g_opts ?g = g_opts g" "g_picked ?g = g_picked g" by simp_all
    show ?thesis unfolding r URLTest Strategy.case
      by (rule reselect_urltest [OF P(2) _ _ OK assms(4), unfolded f]) (use assms(3,5,6) URLTest in simp_all)
  next
    case Fallback
    have "g_picked (reselect ?g) = (case List.find (\<lambda>m. \<exists>d. up results m d) (o_Members (g_opts ?g)) of Some m \<Rightarrow> Some m | None \<Rightarrow> g_picked ?g)"
      by (rule reselect_fallback [OF P(2)]) (use assms(3) Fallback in simp_all)
    then show ?thesis unfolding r Fallback Strategy.case by (simp split: option.splits)
  qed (simp_all add: r reselect_def)
qed

section \<open>Balancing\<close>

lemma rrIndex_small: "unat r < 2 ^ 63 \<Longrightarrow> rrIndex r n = Some (unat r mod n)"
proof -
  assume h: "unat r < 2 ^ 63"
  have u: "uint r = int (unat r)" by simp
  have "int (unat r) < 2 ^ 63" using h by (metis of_nat_less_iff of_nat_numeral of_nat_power)
  then have "dur (uint r) = uint r" unfolding u by (intro dur_small) (use uint_ge_0 [of r] in linarith)+
  then have "sint r = int (unat r)" unfolding dur_def u [symmetric] by simp
  then show ?thesis by (simp add: rrIndex_def)
qed

lemma unat_Suc_small: "unat r + k < 2 ^ 63 \<Longrightarrow> 0 < k \<Longrightarrow> unat (r + 1 :: u64) = Suc (unat r)"
proof -
  assume "unat r + k < 2 ^ 63" "0 < k"
  then have "unat r + 1 < 2 ^ 64" by simp
  then show ?thesis by (simp add: unat_word_ariths)
qed

lemma rrLoop_finds:
  assumes "unat (g_rr g) + k < 2 ^ 63" "i < k" "aliveOf g (m_Name (o_Members (g_opts g) ! ((unat (g_rr g) + 1 + i) mod length (o_Members (g_opts g)))))"
  shows "\<exists>j \<le> i. \<exists>r. rrLoop k g = Some (Some (o_Members (g_opts g) ! ((unat (g_rr g) + 1 + j) mod length (o_Members (g_opts g)))), g\<lparr>g_rr := r\<rparr>)
    \<and> unat r = unat (g_rr g) + 1 + j
    \<and> aliveOf g (m_Name (o_Members (g_opts g) ! ((unat (g_rr g) + 1 + j) mod length (o_Members (g_opts g)))))"
  using assms
proof (induction k arbitrary: g i)
  case (Suc k)
  let ?ms = "o_Members (g_opts g)" and ?g = "g\<lparr>g_rr := g_rr g + 1\<rparr>"
  have u: "unat (g_rr g + 1) = Suc (unat (g_rr g))" using unat_Suc_small [of "g_rr g" "Suc k"] Suc.prems(1) by simp
  have x: "rrIndex (g_rr g + 1) (length ?ms) = Some (Suc (unat (g_rr g)) mod length ?ms)"
    using rrIndex_small [of "g_rr g + 1" "length ?ms"] u Suc.prems(1) by simp
  have al: "aliveOf ?g n = aliveOf g n" for n by (simp add: aliveOf_def)
  show ?case
  proof (cases "aliveOf g (m_Name (?ms ! (Suc (unat (g_rr g)) mod length ?ms)))")
    case True
    then have "rrLoop (Suc k) g = Some (Some (?ms ! ((unat (g_rr g) + 1 + 0) mod length ?ms)), g\<lparr>g_rr := g_rr g + 1\<rparr>)"
      using x al by (simp add: Let_def)
    then show ?thesis using True u by (intro exI [of _ 0] conjI exI [of _ "g_rr g + 1"]) simp_all
  next
    case False
    then have i: "i \<noteq> 0" using Suc.prems(3) by (cases i) auto
    have e: "rrLoop (Suc k) g = rrLoop k ?g" using x False al by (simp add: Let_def)
    have "\<exists>j \<le> i - 1. \<exists>r. rrLoop k ?g = Some (Some (o_Members (g_opts ?g) ! ((unat (g_rr ?g) + 1 + j) mod length (o_Members (g_opts ?g)))), ?g\<lparr>g_rr := r\<rparr>)
      \<and> unat r = unat (g_rr ?g) + 1 + j
      \<and> aliveOf ?g (m_Name (o_Members (g_opts ?g) ! ((unat (g_rr ?g) + 1 + j) mod length (o_Members (g_opts ?g)))))"
      by (rule Suc.IH) (use Suc.prems i u al in auto)
    then obtain j r where "j \<le> i - 1" "rrLoop k ?g = Some (Some (?ms ! ((unat (g_rr g) + 1 + Suc j) mod length ?ms)), g\<lparr>g_rr := r\<rparr>)"
      "unat r = unat (g_rr g) + 1 + Suc j" "aliveOf g (m_Name (?ms ! ((unat (g_rr g) + 1 + Suc j) mod length ?ms)))"
      using u al by auto
    then show ?thesis using e i by (intro exI [of _ "Suc j"] conjI exI [of _ r]) simp_all
  qed
qed simp

text \<open>Every index is met in one turn around the ring.\<close>

lemma ring_meets: "i < n \<Longrightarrow> \<exists>k < n. (s + k) mod n = (i :: nat)"
proof -
  assume i: "i < n"
  have "(s + (i + n - s mod n) mod n) mod n = i"
  proof -
    have l: "s mod n \<le> i + n" using i mod_less_divisor [of n s] by linarith
    have "(s + (i + n - s mod n) mod n) mod n = (s mod n + (i + n - s mod n)) mod n"
      by (metis mod_add_left_eq mod_add_right_eq)
    also have "s mod n + (i + n - s mod n) = i + n" using l by simp
    finally show ?thesis using i by simp
  qed
  then show ?thesis using i by (intro exI [of _ "(i + n - s mod n) mod n"]) simp
qed

lemma pickLB_alive:
  assumes "m \<in> set (o_Members (g_opts g))" "aliveOf g (m_Name m)" "unat (g_rr g) + length (o_Members (g_opts g)) < 2 ^ 63"
  shows "\<exists>p g'. pickLB dst g = Some (p, g') \<and> p \<in> set (o_Members (g_opts g)) \<and> aliveOf g (m_Name p)"
proof -
  let ?ms = "o_Members (g_opts g)" and ?n = "length (o_Members (g_opts g))"
  obtain i where i: "i < ?n" "?ms ! i = m" using assms(1) by (auto simp: in_set_conv_nth)
  have n: "0 < ?n" using i(1) by linarith
  show ?thesis
  proof (cases "o_LBHash (g_opts g)")
    case True
    define s where "s = unat (fnv32a (bytes_of_string (sa_String dst))) mod ?n"
    obtain k where k: "k < ?n" "(s + k) mod ?n = i" using ring_meets [OF i(1)] by blast
    have "List.find (\<lambda>i. aliveOf g (m_Name (?ms ! ((s + i) mod ?n)))) [0..<?n] \<noteq> None"
      using k i assms(2) by (auto simp: find_None_iff)
    then obtain j where j: "List.find (\<lambda>i. aliveOf g (m_Name (?ms ! ((s + i) mod ?n)))) [0..<?n] = Some j" by blast
    then have "aliveOf g (m_Name (?ms ! ((s + j) mod ?n)))" by (auto simp: find_Some_iff)
    then show ?thesis using True j n unfolding pickLB_def Let_def s_def [symmetric] by simp
  next
    case False
    obtain k where k: "k < ?n" "(unat (g_rr g) + 1 + k) mod ?n = i" using ring_meets [OF i(1)] by blast
    obtain j r where "rrLoop ?n g = Some (Some (?ms ! ((unat (g_rr g) + 1 + j) mod ?n)), g\<lparr>g_rr := r\<rparr>)"
      "aliveOf g (m_Name (?ms ! ((unat (g_rr g) + 1 + j) mod ?n)))"
      using rrLoop_finds [OF assms(3) k(1)] k(2) i(2) assms(2) by auto
    then show ?thesis using False n by (simp add: pickLB_def Let_def)
  qed
qed

text \<open>The members chosen for a sequence of destinations.\<close>

fun lbPicks :: "Socksaddr list \<Rightarrow> 'o Group \<Rightarrow> 'o Member list option" where
  "lbPicks [] g = Some []"
| "lbPicks (d # ds) g =
    (case pickLB d g of None \<Rightarrow> None | Some (m, g) \<Rightarrow> map_option ((#) m) (lbPicks ds g))"

lemma lbPicks_turn:
  assumes "\<not> o_LBHash (g_opts g)" "\<forall>m \<in> set (o_Members (g_opts g)). aliveOf g (m_Name m)" "o_Members (g_opts g) \<noteq> []"
    and "unat (g_rr g) + length ds + length (o_Members (g_opts g)) < 2 ^ 63"
  shows "lbPicks ds g = Some (map (\<lambda>i. o_Members (g_opts g) ! ((unat (g_rr g) + 1 + i) mod length (o_Members (g_opts g)))) [0..<length ds])"
  using assms
proof (induction ds arbitrary: g)
  case (Cons d ds)
  let ?ms = "o_Members (g_opts g)" and ?n = "length (o_Members (g_opts g))" and ?u = "unat (g_rr g)"
  have n: "0 < ?n" using Cons.prems(3) by simp
  have "\<exists>j \<le> 0. \<exists>r. rrLoop ?n g = Some (Some (?ms ! ((?u + 1 + j) mod ?n)), g\<lparr>g_rr := r\<rparr>) \<and> unat r = ?u + 1 + j
      \<and> aliveOf g (m_Name (?ms ! ((?u + 1 + j) mod ?n)))"
    by (rule rrLoop_finds) (use Cons.prems n in simp_all)
  then obtain r where r: "rrLoop ?n g = Some (Some (?ms ! ((?u + 1) mod ?n)), g\<lparr>g_rr := r\<rparr>)" "unat r = ?u + 1" by auto
  let ?g = "g\<lparr>g_rr := r\<rparr>"
  have p: "pickLB d g = Some (?ms ! ((?u + 1) mod ?n), ?g)" using r(1) Cons.prems(1) by (simp add: pickLB_def Let_def)
  have "lbPicks ds ?g = Some (map (\<lambda>i. ?ms ! ((?u + 1 + Suc i) mod ?n)) [0..<length ds])"
    using Cons.IH [of ?g] Cons.prems r(2) by (simp add: aliveOf_def)
  then show ?case using p by (simp add: map_upt_Suc del: upt_Suc)
qed simp

lemma pickLB_hash:
  assumes "o_LBHash (g_opts g)" "o_Members (g_opts g) \<noteq> []" "pickLB dst g = Some (p, g)" "aliveOf g (m_Name p)"
    and "g_opts g' = g_opts g" "aliveOf g' (m_Name p)" "\<And>n. aliveOf g' n \<Longrightarrow> aliveOf g n"
  shows "pickLB dst g' = Some (p, g')"
proof -
  let ?ms = "o_Members (g_opts g)" and ?n = "length (o_Members (g_opts g))"
  define s where "s = unat (fnv32a (bytes_of_string (sa_String dst))) mod ?n"
  have n: "0 < ?n" "s < ?n" using assms(2) by (simp_all add: s_def)
  have P: "pickLB dst h = (case List.find (\<lambda>i. aliveOf h (m_Name (?ms ! ((s + i) mod ?n)))) [0..<?n] of
      Some i \<Rightarrow> Some (?ms ! ((s + i) mod ?n), h) | None \<Rightarrow> Some (?ms ! s, h))" if h: "g_opts h = g_opts g" for h
    unfolding pickLB_def Let_def h s_def [symmetric] using assms(1) by simp
  obtain j where j: "j < ?n" "p = ?ms ! ((s + j) mod ?n)" "\<And>i. i < j \<Longrightarrow> \<not> aliveOf g (m_Name (?ms ! ((s + i) mod ?n)))"
  proof (cases "List.find (\<lambda>i. aliveOf g (m_Name (?ms ! ((s + i) mod ?n)))) [0..<?n]")
    case None
    then have "\<not> aliveOf g (m_Name (?ms ! ((s + 0) mod ?n)))" using n by (auto simp: find_None_iff)
    moreover have "p = ?ms ! s" using None assms(3) P [of g] by simp
    ultimately show ?thesis using assms(4) n by simp
  next
    case (Some i)
    then have "p = ?ms ! ((s + i) mod ?n)" using assms(3) P [of g] by simp
    then show ?thesis using that [of i] Some by (auto simp: find_Some_iff)
  qed
  have "List.find (\<lambda>i. aliveOf g' (m_Name (?ms ! ((s + i) mod ?n)))) [0..<?n] = Some j"
    unfolding find_Some_iff using j assms(6,7) by (intro exI [of _ j]) auto
  then show ?thesis using P [of g'] assms(5) j(2) by simp
qed

lemma rotate_turn: "xs \<noteq> [] \<Longrightarrow> map (\<lambda>i. xs ! ((r + i) mod length xs)) [0..<length xs] = rotate r xs"
  by (rule nth_equalityI) (simp_all add: nth_rotate)

lemma mset_rotate1 [simp]: "mset (rotate1 ys) = mset ys"
  by (cases ys) simp_all

lemma mset_rotate: "mset (rotate r xs) = mset xs"
  by (induction r) simp_all

text \<open>
  C32: A balancing group chooses a member that is alive whenever one is.  By turns, as many choices as
  there are members, all alive, choose every member exactly once, whatever the destinations.  By hash, a
  destination keeps its member as long as that member is alive and no dead one comes back.  The turns
  are for fewer than 2^63 choices in the life of the group.
\<close>

theorem group_balance:
  assumes "o_Members (g_opts g) \<noteq> []" "unat (g_rr g) + 2 * length (o_Members (g_opts g)) < 2 ^ 63"
  shows "((\<exists>m \<in> set (o_Members (g_opts g)). aliveOf g (m_Name m)) \<longrightarrow>
      (\<exists>p g'. pickLB dst g = Some (p, g') \<and> p \<in> set (o_Members (g_opts g)) \<and> aliveOf g (m_Name p)))
    \<and> (\<not> o_LBHash (g_opts g) \<and> (\<forall>m \<in> set (o_Members (g_opts g)). aliveOf g (m_Name m)) \<and> length ds = length (o_Members (g_opts g)) \<longrightarrow>
      (\<exists>ps. lbPicks ds g = Some ps \<and> mset ps = mset (o_Members (g_opts g))))
    \<and> (o_LBHash (g_opts g) \<and> g_opts g' = g_opts g \<and> pickLB dst g = Some (p, g) \<and> aliveOf g (m_Name p) \<and> aliveOf g' (m_Name p)
        \<and> (\<forall>n. aliveOf g' n \<longrightarrow> aliveOf g n) \<longrightarrow> pickLB dst g' = Some (p, g'))"
proof (intro conjI impI)
  assume "\<exists>m \<in> set (o_Members (g_opts g)). aliveOf g (m_Name m)"
  then show "\<exists>p g'. pickLB dst g = Some (p, g') \<and> p \<in> set (o_Members (g_opts g)) \<and> aliveOf g (m_Name p)"
    using pickLB_alive assms(2) by fastforce
next
  assume h: "\<not> o_LBHash (g_opts g) \<and> (\<forall>m \<in> set (o_Members (g_opts g)). aliveOf g (m_Name m)) \<and> length ds = length (o_Members (g_opts g))"
  have "lbPicks ds g = Some (map (\<lambda>i. o_Members (g_opts g) ! ((unat (g_rr g) + 1 + i) mod length (o_Members (g_opts g)))) [0..<length ds])"
    by (rule lbPicks_turn) (use h assms in simp_all)
  then show "\<exists>ps. lbPicks ds g = Some ps \<and> mset ps = mset (o_Members (g_opts g))"
    using h rotate_turn [OF assms(1), of "unat (g_rr g) + 1"] by (simp add: mset_rotate)
next
  assume h: "o_LBHash (g_opts g) \<and> g_opts g' = g_opts g \<and> pickLB dst g = Some (p, g) \<and> aliveOf g (m_Name p) \<and> aliveOf g' (m_Name p)
        \<and> (\<forall>n. aliveOf g' n \<longrightarrow> aliveOf g n)"
  show "pickLB dst g' = Some (p, g')" by (rule pickLB_hash [of g]) (use h assms(1) in auto)
qed

definition gw :: "Strategy \<Rightarrow> nat Group" where
  "gw strategy = \<lparr> g_opts = \<lparr> o_Name = ''g'', o_Members = [\<lparr> m_Name = ''a'', m_Out = 1 \<rparr>, \<lparr> m_Name = ''b'', m_Out = 2 \<rparr>], o_Strategy = strategy,
       o_Default = [], o_TestURL = ''http://t/'', o_Interval = Minute, o_Tolerance = 50, o_LBHash = False \<rparr>,
     g_picked = Some \<lparr> m_Name = ''a'', m_Out = 1 \<rparr>, g_rr = 0, g_state = Map.empty, g_testAddr = FromFqdn ''t'' 80, g_testURL = ''http://t/'' \<rparr>"

theorem group_health_witness:
  "\<exists>p e. g_picked (probeAll [(\<lparr> m_Name = ''b'', m_Out = 2 \<rparr>, 30000000, True), (\<lparr> m_Name = ''a'', m_Out = 1 \<rparr>, 0, False)] (gw URLTest)) = Some p
    \<and> up [(\<lparr> m_Name = ''b'', m_Out = 2 \<rparr>, 30000000, True), (\<lparr> m_Name = ''a'', m_Out = 1 \<rparr>, 0, False)] p e"
proof -
  let ?r = "[(\<lparr> m_Name = ''b'', m_Out = 2 \<rparr>, 30000000 :: int, True), (\<lparr> m_Name = ''a'', m_Out = (1 :: nat) \<rparr>, 0, False)]"
  have u: "up ?r \<lparr> m_Name = ''b'', m_Out = 2 \<rparr> 30000000" by (simp add: up_def)
  have s: "o_Strategy (g_opts (gw URLTest)) = URLTest" by (simp add: gw_def)
  have "groupOK (gw URLTest)" "distinct (map m_Name (o_Members (g_opts (gw URLTest))))"
      "mset (map fst ?r) = mset (o_Members (g_opts (gw URLTest)))" "\<forall>(m, d, ok) \<in> set ?r. 0 \<le> d \<and> d < 2 ^ 61"
      "0 \<le> o_Tolerance (g_opts (gw URLTest))" "o_Tolerance (g_opts (gw URLTest)) \<le> 2 ^ 40"
    by (simp_all add: gw_def groupOK_def)
  from group_health [OF this, THEN conjunct2, unfolded s Strategy.case] show ?thesis using u by metis
qed

theorem group_balance_witness:
  "\<exists>ps. lbPicks [FromFqdn ''x'' 1, FromFqdn ''y'' 2] (gw LoadBalance) = Some ps
    \<and> mset ps = {# \<lparr> m_Name = ''a'', m_Out = 1 \<rparr>, \<lparr> m_Name = ''b'', m_Out = 2 \<rparr> #}"
  using group_balance [of "gw LoadBalance" "FromFqdn ''x'' 1" "[FromFqdn ''x'' 1, FromFqdn ''y'' 2]"]
  by (simp add: gw_def aliveOf_def)

end
