(* ===== verification/Sniff.thy ===== *)
theory Sniff
  imports GoStrings Wire
begin

text \<open>
  Recognising the application protocol and the host name from the first bytes of a stream or from a
  datagram (\<open>service/sniff.go\<close>): TLS server names, HTTP host headers, STUN, DTLS and QUIC.  An index out of
  range is the value \<^const>\<open>None\<close>.
\<close>

unbundle bit_operations_syntax

section \<open>Results\<close>

datatype SniffProto = SniffNone | SniffTLS | SniffHTTP | SniffQUIC | SniffSTUN | SniffDTLS

fun proto_String :: "SniffProto \<Rightarrow> string" where
  "proto_String SniffTLS = ''tls''"
| "proto_String SniffHTTP = ''http''"
| "proto_String SniffQUIC = ''quic''"
| "proto_String SniffSTUN = ''stun''"
| "proto_String SniffDTLS = ''dtls''"
| "proto_String SniffNone = []"

datatype SniffFail = FailNone | FailNoMatch | FailTimeout | FailDisabled

section \<open>Datagrams\<close>

definition isQUIC :: "bytes \<Rightarrow> bool" where
  "isQUIC b =
    (if length b < 5 then False
     else if b ! 0 AND 0x80 = 0 then False
     else
       (let v = get32 (b ! 1) (b ! 2) (b ! 3) (b ! 4) in
        v = 0x00000001 \<or> v = 0x6b3343cf \<or> v AND 0xff000000 = 0xff000000))"

definition isDTLS :: "bytes \<Rightarrow> bool" where
  "isDTLS b =
    (if length b < 13 then False
     else if b ! 0 \<notin> {20, 21, 22, 23, 25} then False
     else b ! 1 = 0xfe \<and> (b ! 2 = 0xff \<or> b ! 2 = 0xfd))"

definition isSTUN :: "bytes \<Rightarrow> bool" where
  "isSTUN b =
    (if length b < 20 then False
     else if get32 (b ! 4) (b ! 5) (b ! 6) (b ! 7) \<noteq> 0x2112A442 then False
     else length b \<ge> 20 + unat (get16 (b ! 2) (b ! 3)))"

definition sniffPacket :: "bytes \<Rightarrow> SniffProto" where
  "sniffPacket datagram =
    (if isSTUN datagram then SniffSTUN
     else if isDTLS datagram then SniffDTLS
     else if isQUIC datagram then SniffQUIC
     else SniffNone)"

section \<open>Host names\<close>

definition isAlpha :: "char \<Rightarrow> bool" where
  "isAlpha c = (let n = (of_char c :: nat) in (97 \<le> n \<and> n \<le> 122) \<or> (65 \<le> n \<and> n \<le> 90))"

definition isHostChar :: "char \<Rightarrow> bool" where
  "isHostChar c = (let n = (of_char c :: nat) in (48 \<le> n \<and> n \<le> 57) \<or> c = CHR ''.'' \<or> c = CHR ''-'' \<or> c = CHR ''_'')"

fun hostLoop :: "string \<Rightarrow> bool \<Rightarrow> bool" where
  "hostLoop [] hasAlpha = hasAlpha"
| "hostLoop (c # cs) hasAlpha =
    (if isAlpha c then hostLoop cs True else if isHostChar c then hostLoop cs hasAlpha else False)"

definition isSaneHost :: "string \<Rightarrow> bool" where
  "isSaneHost h = (if h = [] \<or> length h > 253 then False else hostLoop h False)"

section \<open>TLS\<close>

definition byteAt :: "bytes \<Rightarrow> nat \<Rightarrow> u8 option" where
  "byteAt b i = (if i < length b then Some (b ! i) else None)"

definition word16At :: "bytes \<Rightarrow> nat \<Rightarrow> nat option" where
  "word16At b i = (case byteAt b i of None \<Rightarrow> None | Some x \<Rightarrow> map_option (\<lambda>y. unat (get16 x y)) (byteAt b (i + 1)))"

text \<open>\<open>rd8\<close> and \<open>rd16\<close>: the value and the position behind it, or nothing at the end of the bytes.\<close>

definition sn_rd8 :: "bytes \<Rightarrow> nat \<Rightarrow> (nat \<times> nat) option" where
  "sn_rd8 b pos = (if pos + 1 > length b then None else Some (unat (b ! pos), pos + 1))"

definition sn_rd16 :: "bytes \<Rightarrow> nat \<Rightarrow> (nat \<times> nat) option" where
  "sn_rd16 b pos = (if pos + 2 > length b then None else Some (unat (get16 (b ! pos) (b ! (pos + 1))), pos + 2))"

definition serverName :: "bytes \<Rightarrow> nat \<Rightarrow> string option option" where
  "serverName b pos =
    (if pos + 5 > length b then Some None
     else case byteAt b (pos + 2) of
       None \<Rightarrow> None
     | Some t \<Rightarrow>
         if t \<noteq> 0 then Some None
         else
           (case word16At b (pos + 3) of
              None \<Rightarrow> None
            | Some nameLen \<Rightarrow>
                if nameLen = 0 \<or> pos + 5 + nameLen > length b then Some None
                else
                  (let host = string_of_bytes (take nameLen (drop (pos + 5) b)) in
                   Some (if isSaneHost host then Some host else None))))"

function extLoop :: "bytes \<Rightarrow> nat \<Rightarrow> nat \<Rightarrow> string option option" where
  "extLoop b end pos =
    (if pos + 4 \<le> end then
       (case (word16At b pos, word16At b (pos + 2)) of
          (Some extType, Some extSize) \<Rightarrow>
            if extType = 0 then serverName b (pos + 4) else extLoop b end (pos + 4 + extSize)
        | _ \<Rightarrow> None)
     else Some None)"
  by pat_completeness auto
termination by (relation "measure (\<lambda>(_, end, pos). end - pos)") auto

declare extLoop.simps [simp del]

definition parseTLSSNI :: "bytes \<Rightarrow> string option option" where
  "parseTLSSNI b =
    (if length b < 43 \<or> b ! 0 \<noteq> 0x16 then Some None
     else if b ! 5 \<noteq> 0x01 then Some None
     else case sn_rd8 b 43 of None \<Rightarrow> Some None | Some (sidLen, pos) \<Rightarrow>
       case sn_rd16 b (pos + sidLen) of None \<Rightarrow> Some None | Some (csLen, pos) \<Rightarrow>
         case sn_rd8 b (pos + csLen) of None \<Rightarrow> Some None | Some (compLen, pos) \<Rightarrow>
           case sn_rd16 b (pos + compLen) of None \<Rightarrow> Some None | Some (extTotal, pos) \<Rightarrow>
             extLoop b (if pos + extTotal > length b then length b else pos + extTotal) pos)"

section \<open>HTTP\<close>

text \<open>\<open>strings.Split\<close> at CR LF.\<close>

fun splitCRLF :: "string \<Rightarrow> string list" where
  "splitCRLF [] = [[]]"
| "splitCRLF (c # cs) =
    (if c = CHR 0x0D \<and> cs \<noteq> [] \<and> hd cs = CHR 0x0A then [] # splitCRLF (tl cs)
     else (case splitCRLF cs of [] \<Rightarrow> [[c]] | l # ls \<Rightarrow> (c # l) # ls))"

definition sn_splitHostPort :: "string \<Rightarrow> string \<times> string \<times> bool" where
  "sn_splitHostPort s =
    (case lastIndexByte s (CHR '':'') of
       None \<Rightarrow> (s, [], False)
     | Some i \<Rightarrow> if indexByte s (CHR '':'') \<noteq> Some i then (s, [], False) else (take i s, drop (Suc i) s, True))"

fun hostHeader :: "string list \<Rightarrow> string option" where
  "hostHeader [] = None"
| "hostHeader (line # ls) =
    (if line = [] then None
     else if length line > 5 \<and> toLower (take 5 line) = ''host:'' then
       (let host = trimSpace (drop 5 line);
            host = (case sn_splitHostPort host of (h, _, True) \<Rightarrow> h | _ \<Rightarrow> host) in
        if isSaneHost host then Some host else None)
     else hostHeader ls)"

definition parseHTTPHost :: "bytes \<Rightarrow> string option" where
  "parseHTTPHost b =
    (let s = string_of_bytes b in
     case indexByte s (CHR 0x0A) of
       None \<Rightarrow> None
     | Some i \<Rightarrow> if \<not> contains (take i s) '' HTTP/'' then None else hostHeader (splitCRLF s))"

section \<open>Streams\<close>

definition sniffPeekMax :: nat where "sniffPeekMax = 4096"

text \<open>
  \<open>stream\<close> is everything the client will send and \<open>n\<close> how much of it the one read before the deadline
  returns.  The bytes read are recorded and put back in front of the rest.
\<close>

definition sniff :: "nat \<Rightarrow> bytes \<Rightarrow> (SniffProto \<times> string \<times> bytes \<times> SniffFail) option" where
  "sniff n stream =
    (let data = take (min n sniffPeekMax) stream; replay = data @ drop (length data) stream in
     if length data \<le> 0 then Some (SniffNone, [], replay, FailTimeout)
     else case parseTLSSNI data of
       None \<Rightarrow> None
     | Some (Some host) \<Rightarrow> Some (SniffTLS, host, replay, FailNone)
     | Some None \<Rightarrow>
         (case parseHTTPHost data of
            Some host \<Rightarrow> Some (SniffHTTP, host, replay, FailNone)
          | None \<Rightarrow>
              if isSTUN data then Some (SniffSTUN, [], replay, FailNone)
              else Some (SniffNone, [], replay, FailNoMatch)))"

section \<open>No input is out of range\<close>

lemma word16At_in: "i + 1 < length b \<Longrightarrow> word16At b i = Some (unat (get16 (b ! i) (b ! (i + 1))))"
  by (simp add: word16At_def byteAt_def)

lemma serverName_total: "serverName b pos \<noteq> None"
  by (auto simp: serverName_def byteAt_def word16At_in Let_def)

lemma extLoop_next:
  assumes "e \<le> length b" "pos + 4 \<le> e"
  shows "extLoop b e pos =
    (if get16 (b ! pos) (b ! (pos + 1)) = 0 then serverName b (pos + 4)
     else extLoop b e (pos + 4 + unat (get16 (b ! (pos + 2)) (b ! (pos + 3)))))"
proof -
  have "word16At b pos = Some (unat (get16 (b ! pos) (b ! (pos + 1))))"
      "word16At b (pos + 2) = Some (unat (get16 (b ! (pos + 2)) (b ! (pos + 3))))"
    using assms word16At_in [of pos b] word16At_in [of "pos + 2" b] by (simp_all add: numeral_3_eq_3)
  then show ?thesis using assms(2) by (subst extLoop.simps) (simp add: unat_eq_0)
qed

lemma extLoop_total: "e \<le> length b \<Longrightarrow> extLoop b e pos \<noteq> None"
proof (induction "e - pos" arbitrary: pos rule: less_induct)
  case less
  show ?case
  proof (cases "pos + 4 \<le> e")
    case True
    then show ?thesis using extLoop_next [OF less.prems True] less serverName_total by auto
  qed (simp add: extLoop.simps)
qed

lemma parseTLSSNI_total: "parseTLSSNI b \<noteq> None"
  by (auto simp: parseTLSSNI_def extLoop_total [unfolded not_None_eq] split: option.splits)

text \<open>What is returned as a host name is one.\<close>

lemma serverName_sane: "serverName b pos = Some (Some h) \<Longrightarrow> isSaneHost h"
  by (auto simp: serverName_def Let_def split: if_splits option.splits)

lemma extLoop_sane: "e \<le> length b \<Longrightarrow> extLoop b e pos = Some (Some h) \<Longrightarrow> isSaneHost h"
proof (induction "e - pos" arbitrary: pos rule: less_induct)
  case less
  show ?case
  proof (cases "pos + 4 \<le> e")
    case True
    let ?p = "pos + 4 + unat (get16 (b ! (pos + 2)) (b ! (pos + 3)))"
    have "serverName b (pos + 4) = Some (Some h) \<or> extLoop b e ?p = Some (Some h)"
      using extLoop_next [OF less.prems(1) True] less.prems(2) by (simp only: split: if_splits) auto
    then show ?thesis using serverName_sane less.hyps [of ?p] less.prems(1) True by auto
  next
    case False
    then show ?thesis using less.prems(2) by (simp add: extLoop.simps)
  qed
qed

lemma parseTLSSNI_sane: "parseTLSSNI b = Some (Some h) \<Longrightarrow> isSaneHost h"
  by (auto simp: parseTLSSNI_def split: if_splits option.splits) (erule extLoop_sane [rotated], simp)+

lemma hostHeader_sane: "hostHeader ls = Some h \<Longrightarrow> isSaneHost h"
  by (induction ls) (auto simp: Let_def split: if_splits)

lemma parseHTTPHost_sane: "parseHTTPHost b = Some h \<Longrightarrow> isSaneHost h"
  by (auto simp: parseHTTPHost_def Let_def hostHeader_sane split: option.splits if_splits)

lemma hostLoop_iff: "hostLoop h a \<longleftrightarrow> (\<forall>c \<in> set h. isAlpha c \<or> isHostChar c) \<and> (a \<or> (\<exists>c \<in> set h. isAlpha c))"
  by (induction h arbitrary: a) auto

lemma isSaneHost_iff: "isSaneHost h \<longleftrightarrow>
    0 < length h \<and> length h \<le> 253 \<and> (\<forall>c \<in> set h. isAlpha c \<or> isHostChar c) \<and> (\<exists>c \<in> set h. isAlpha c)"
  by (auto simp: isSaneHost_def hostLoop_iff)


section \<open>A TLS hello is recognised\<close>

definition ext :: "u16 \<times> bytes \<Rightarrow> bytes" where
  "ext = (\<lambda>(t, d). be16 t @ be16 (word_of_nat (length d)) @ d)"

text \<open>A list of server names whose first entry is a host name.\<close>

definition sniExt :: "u16 \<Rightarrow> string \<Rightarrow> bytes \<Rightarrow> u16 \<times> bytes" where
  "sniExt listLen host more = (0, be16 listLen @ [0] @ be16 (word_of_nat (length host)) @ bytes_of_string host @ more)"

definition clientHello :: "bytes \<Rightarrow> bytes \<Rightarrow> bytes \<Rightarrow> bytes \<Rightarrow> bytes \<Rightarrow> (u16 \<times> bytes) list \<Rightarrow> bytes" where
  "clientHello rec head sid cs cmp exts =
    [0x16] @ rec @ [1] @ head @ [word_of_nat (length sid)] @ sid @ be16 (word_of_nat (length cs)) @ cs
    @ [word_of_nat (length cmp)] @ cmp @ be16 (word_of_nat (length (concat (map ext exts)))) @ concat (map ext exts)"

lemma rd8_here: "b = xs @ y # ys \<Longrightarrow> pos = length xs \<Longrightarrow> sn_rd8 b pos = Some (unat y, pos + 1)"
  by (simp add: sn_rd8_def nth_append)

lemma rd16_here: "b = xs @ be16 w @ ys \<Longrightarrow> pos = length xs \<Longrightarrow> sn_rd16 b pos = Some (unat w, pos + 2)"
  by (simp add: sn_rd16_def nth_append be16_def)

lemma serverName_here:
  assumes "b = xs @ be16 l @ [0] @ be16 (word_of_nat (length host)) @ bytes_of_string host @ ys" "isSaneHost host" "pos = length xs"
  shows "serverName b pos = Some (Some host)"
proof -
  have h: "0 < length host" "length host \<le> 253" using assms(2) by (auto simp: isSaneHost_iff)
  have u: "unat (word_of_nat (length host) :: u16) = length host" using h by (simp add: unat_of_nat)
  have b: "b = (xs @ be16 l @ [0]) @ be16 (word_of_nat (length host)) @ bytes_of_string host @ ys" using assms(1) by simp
  have w: "word16At b (pos + 3) = Some (length host)"
    unfolding b assms(3) using u by (simp add: word16At_def byteAt_def nth_append be16_def)
  have t: "byteAt b (pos + 2) = Some 0" unfolding assms(1,3) by (simp add: byteAt_def nth_append be16_def)
  have k: "take (length host) (drop (pos + 5) b) = bytes_of_string host" unfolding assms(1,3) by (simp add: be16_def)
  have "pos + 5 + length host \<le> length b" unfolding assms(1,3) by simp
  then show ?thesis using h w t k assms(2) by (simp add: serverName_def Let_def)
qed

lemma extLoop_skips:
  assumes "b = xs @ concat (map ext pre) @ ys" "\<forall>(t, d) \<in> set pre. t \<noteq> 0 \<and> length d < 2 ^ 16"
    and "e \<le> length b" "length xs + length (concat (map ext pre)) \<le> e"
  shows "extLoop b e (length xs) = extLoop b e (length xs + length (concat (map ext pre)))"
  using assms
proof (induction pre arbitrary: xs)
  case (Cons td pre)
  obtain t d where td: "td = (t, d)" by fastforce
  have d: "t \<noteq> 0" "unat (word_of_nat (length d) :: u16) = length d" using Cons.prems(2) td by (auto simp: unat_of_nat)
  have b: "b = xs @ be16 t @ be16 (word_of_nat (length d)) @ d @ concat (map ext pre) @ ys"
    using Cons.prems(1) td by (simp add: ext_def)
  have g: "get16 (b ! length xs) (b ! (length xs + 1)) = t"
      "get16 (b ! (length xs + 2)) (b ! (length xs + 3)) = word_of_nat (length d)"
    unfolding b by (simp_all add: nth_append be16_def)
  have e: "length xs + 4 \<le> e" using Cons.prems(4) td by (simp add: ext_def)
  have "extLoop b e (length xs) = extLoop b e (length (xs @ ext td))"
  proof -
    have l: "length (xs @ ext td) = length xs + 4 + length d" by (simp add: td ext_def)
    show ?thesis unfolding l using extLoop_next [OF Cons.prems(3) e] g d by simp
  qed
  also have "\<dots> = extLoop b e (length (xs @ ext td) + length (concat (map ext pre)))"
    by (rule Cons.IH) (use Cons.prems in auto)
  finally show ?case by (simp add: add.assoc)
qed simp

lemma tls_host:
  assumes "length rec = 4" "length head = 37" "length sid < 2 ^ 8" "length cs < 2 ^ 16" "length cmp < 2 ^ 8"
    and "\<forall>(t, d) \<in> set pre. t \<noteq> 0 \<and> length d < 2 ^ 16" "isSaneHost host"
    and "length (concat (map ext (pre @ sniExt l host more # post))) < 2 ^ 16"
  shows "parseTLSSNI (clientHello rec head sid cs cmp (pre @ sniExt l host more # post) @ rest) = Some (Some host)"
proof -
  define x where "x = concat (map ext (pre @ sniExt l host more # post))"
  have x: "length x < 2 ^ 16" unfolding x_def by (rule assms(8))
  define b where "b = clientHello rec head sid cs cmp (pre @ sniExt l host more # post) @ rest"
  define p0 where "p0 = [0x16 :: u8] @ rec @ [1] @ head"
  define p1 where "p1 = p0 @ [word_of_nat (length sid)] @ sid"
  define p2 where "p2 = p1 @ be16 (word_of_nat (length cs)) @ cs"
  define p3 where "p3 = p2 @ [word_of_nat (length cmp)] @ cmp"
  define p4 where "p4 = p3 @ be16 (word_of_nat (length x))"
  define s3 where "s3 = be16 (word_of_nat (length x)) @ x @ rest"
  define s2 where "s2 = word_of_nat (length cmp) # cmp @ s3"
  define s1 where "s1 = be16 (word_of_nat (length cs)) @ cs @ s2"
  have b0: "b = p0 @ word_of_nat (length sid) # (sid @ s1)"
    by (simp add: b_def clientHello_def x_def p0_def s1_def s2_def s3_def)
  have b1: "b = p1 @ be16 (word_of_nat (length cs)) @ (cs @ s2)" by (simp add: b0 p1_def s1_def)
  have b2: "b = p2 @ word_of_nat (length cmp) # (cmp @ s3)" by (simp add: b1 p2_def s2_def)
  have b3: "b = p3 @ be16 (word_of_nat (length x)) @ (x @ rest)" by (simp add: b2 p3_def s3_def)
  have b4: "b = p4 @ x @ rest" by (simp add: b3 p4_def)
  have u: "unat (word_of_nat (length sid) :: u8) = length sid" "unat (word_of_nat (length cs) :: u16) = length cs"
      "unat (word_of_nat (length cmp) :: u8) = length cmp" "unat (word_of_nat (length x) :: u16) = length x"
    using assms(3-5) x by (simp_all add: unat_of_nat)
  have l: "length p0 = 43" "length p1 = 44 + length sid" "length p2 = 46 + length sid + length cs"
      "length p3 = 47 + length sid + length cs + length cmp" "length p4 = 49 + length sid + length cs + length cmp"
    using assms(1,2) by (simp_all add: p0_def p1_def p2_def p3_def p4_def)
  have r1: "sn_rd8 b 43 = Some (length sid, 44)" using rd8_here [OF b0, of 43] l u by simp
  have r2: "sn_rd16 b (44 + length sid) = Some (length cs, 46 + length sid)" using rd16_here [OF b1, of "44 + length sid"] l u by simp
  have r3: "sn_rd8 b (46 + length sid + length cs) = Some (length cmp, 47 + length sid + length cs)"
    using rd8_here [OF b2, of "46 + length sid + length cs"] l u by simp
  have r4: "sn_rd16 b (47 + length sid + length cs + length cmp) = Some (length x, 49 + length sid + length cs + length cmp)"
    using rd16_here [OF b3, of "47 + length sid + length cs + length cmp"] l u by simp
  have h: "\<not> length b < 43" "b ! 0 = 0x16" "b ! 5 = 1"
    unfolding b0 using l(1) assms(1) by (simp_all add: p0_def nth_append)
  let ?e = "length p4 + length x"
  have P: "parseTLSSNI b = extLoop b ?e (length p4)"
  proof -
    have "length b \<ge> length p4 + length x" by (simp add: b4)
    then show ?thesis using h r1 r2 r3 r4 l(5) by (simp add: parseTLSSNI_def)
  qed
  let ?q = "p4 @ concat (map ext pre)"
  have bq: "b = ?q @ ext (sniExt l host more) @ concat (map ext post) @ rest" by (simp add: b4 x_def)
  have e: "?e \<le> length b" by (simp add: b4)
  have "extLoop b ?e (length p4) = extLoop b ?e (length ?q)"
    using extLoop_skips [OF _ assms(6) e, of p4 "ext (sniExt l host more) @ concat (map ext post) @ rest"] b4 by (simp add: x_def)
  also have "\<dots> = serverName b (length ?q + 4)"
  proof -
    have "get16 (b ! length ?q) (b ! (length ?q + 1)) = 0"
      unfolding bq by (simp add: ext_def sniExt_def nth_append be16_def get16_def)
    moreover have "length ?q + 4 \<le> ?e" by (simp add: x_def ext_def sniExt_def)
    ultimately show ?thesis using extLoop_next [OF e] by simp
  qed
  also have "\<dots> = Some (Some host)"
    by (rule serverName_here [of _ "?q @ be16 0 @ be16 (word_of_nat (length (snd (sniExt l host more))))" l _ "more @ concat (map ext post) @ rest"])
      (use assms(7) in \<open>simp_all add: bq ext_def sniExt_def\<close>)
  finally show ?thesis using P by (simp add: b_def)
qed

section \<open>A HTTP request is recognised\<close>

abbreviation (input) "crlf \<equiv> [CHR 0x0D, CHR 0x0A]"

definition isHostLine :: "string \<Rightarrow> bool" where
  "isHostLine l = (length l > 5 \<and> toLower (take 5 l) = ''host:'')"

text \<open>A request up to its host header; \<open>port\<close> is empty or a colon and digits.\<close>

definition httpRequest :: "string \<Rightarrow> string list \<Rightarrow> string \<Rightarrow> string \<Rightarrow> string \<Rightarrow> string \<Rightarrow> string" where
  "httpRequest line hdrs field blank host port =
    line @ crlf @ concat (map (\<lambda>l. l @ crlf) hdrs) @ field @ blank @ host @ port @ crlf"

definition okRequest :: "string \<Rightarrow> string list \<Rightarrow> string \<Rightarrow> string \<Rightarrow> string \<Rightarrow> string \<Rightarrow> bool" where
  "okRequest line hdrs field blank host port =
    (line \<noteq> [] \<and> isAlpha (hd line) \<and> CHR 0x0D \<notin> set line \<and> CHR 0x0A \<notin> set line \<and> contains line '' HTTP/'' \<and> \<not> isHostLine line
     \<and> (\<forall>l \<in> set hdrs. l \<noteq> [] \<and> CHR 0x0D \<notin> set l \<and> \<not> isHostLine l)
     \<and> toLower field = ''host:'' \<and> set blank \<subseteq> {CHR '' ''} \<and> isSaneHost host
     \<and> (port = [] \<or> (\<exists>ds. port = CHR '':'' # ds \<and> ds \<noteq> [] \<and> (\<forall>c \<in> set ds. 48 \<le> (of_char c :: nat) \<and> (of_char c :: nat) \<le> 57))))"

lemma splitCRLF_line: "CHR 0x0D \<notin> set l \<Longrightarrow> splitCRLF (l @ crlf @ rest) = l # splitCRLF rest"
  by (induction l) auto

lemma hostHeader_other: "l \<noteq> [] \<Longrightarrow> \<not> isHostLine l \<Longrightarrow> hostHeader (l # ls) = hostHeader ls"
  by (auto simp: isHostLine_def)

lemma hostHeader_skips: "\<forall>l \<in> set hdrs. l \<noteq> [] \<and> CHR 0x0D \<notin> set l \<and> \<not> isHostLine l \<Longrightarrow>
    hostHeader (splitCRLF (concat (map (\<lambda>l. l @ crlf) hdrs) @ rest)) = hostHeader (splitCRLF rest)"
proof (induction hdrs)
  case (Cons l hdrs)
  then have "splitCRLF (concat (map (\<lambda>l. l @ crlf) (l # hdrs)) @ rest) = l # splitCRLF (concat (map (\<lambda>l. l @ crlf) hdrs) @ rest)"
    using splitCRLF_line [of l "concat (map (\<lambda>l. l @ crlf) hdrs) @ rest"] by simp
  then show ?case using Cons by (auto simp: isHostLine_def)
qed simp

lemma trim_blank:
  assumes "\<forall>c \<in> set blank. isSpace c" "h \<noteq> []" "\<not> isSpace (hd h)" "\<not> isSpace (last h)"
  shows "trimSpace (blank @ h) = h"
proof -
  have "dropWhile isSpace (blank @ h) = h" using assms(1-3) by (cases h) (auto simp: dropWhile_append)
  moreover have "dropWhile isSpace (rev h) = rev h" using assms(2,4) by (cases h rule: rev_cases) auto
  ultimately show ?thesis by (simp add: trimSpace_def)
qed

lemma host_chars:
  "isAlpha c \<or> isHostChar c \<Longrightarrow> \<not> isSpace c \<and> c \<noteq> CHR '':'' \<and> c \<noteq> CHR 0x0D"
  by (auto simp: isAlpha_def isHostChar_def isSpace_def Let_def)

lemma digit_chars: "48 \<le> (of_char c :: nat) \<Longrightarrow> (of_char c :: nat) \<le> 57 \<Longrightarrow> \<not> isSpace c \<and> c \<noteq> CHR '':'' \<and> c \<noteq> CHR 0x0D"
  by (auto simp: isSpace_def Let_def)

lemma split_port: "CHR '':'' \<notin> set h \<Longrightarrow> CHR '':'' \<notin> set ds \<Longrightarrow> sn_splitHostPort (h @ CHR '':'' # ds) = (h, ds, True)"
  using indexByte_append [of "CHR '':''" h ds] indexByte_append [of "CHR '':''" "rev ds" "rev h"]
  by (simp add: sn_splitHostPort_def lastIndexByte_def)

lemma split_none: "CHR '':'' \<notin> set h \<Longrightarrow> sn_splitHostPort h = (h, [], False)"
  using indexByte_None_iff [of "rev h" "CHR '':''"] by (simp add: sn_splitHostPort_def lastIndexByte_def)

lemma http_host:
  assumes "okRequest line hdrs field blank host port"
  shows "parseHTTPHost (bytes_of_string (httpRequest line hdrs field blank host port) @ rest) = Some host"
    and "parseTLSSNI (bytes_of_string (httpRequest line hdrs field blank host port) @ rest) = Some None"
proof -
  have ln: "line \<noteq> []" "isAlpha (hd line)" "CHR 0x0D \<notin> set line" "CHR 0x0A \<notin> set line" "contains line '' HTTP/''" "\<not> isHostLine line"
    and hd: "\<forall>l \<in> set hdrs. l \<noteq> [] \<and> CHR 0x0D \<notin> set l \<and> \<not> isHostLine l"
    and fd: "toLower field = ''host:''" and bl: "set blank \<subseteq> {CHR '' ''}" and sane: "isSaneHost host"
    and pt: "port = [] \<or> (\<exists>ds. port = CHR '':'' # ds \<and> ds \<noteq> [] \<and> (\<forall>c \<in> set ds. 48 \<le> (of_char c :: nat) \<and> (of_char c :: nat) \<le> 57))"
    using assms unfolding okRequest_def by - (elim conjE, assumption)+
  let ?r = "string_of_bytes rest"
  let ?s = "httpRequest line hdrs field blank host port @ ?r"
  have hc: "\<forall>c \<in> set host. \<not> isSpace c \<and> c \<noteq> CHR '':'' \<and> c \<noteq> CHR 0x0D" "host \<noteq> []" "isSaneHost host"
    using sane host_chars by (auto simp: isSaneHost_iff)
  have pd: "port = [] \<or> (\<exists>ds. port = CHR '':'' # ds \<and> ds \<noteq> [] \<and> (\<forall>c \<in> set ds. \<not> isSpace c \<and> c \<noteq> CHR '':'' \<and> c \<noteq> CHR 0x0D))"
  proof -
    show ?thesis using pt
    proof
      assume "\<exists>ds. port = CHR '':'' # ds \<and> ds \<noteq> [] \<and> (\<forall>c \<in> set ds. 48 \<le> (of_char c :: nat) \<and> (of_char c :: nat) \<le> 57)"
      then obtain ds where ds: "port = CHR '':'' # ds" "ds \<noteq> []" "\<forall>c \<in> set ds. 48 \<le> (of_char c :: nat) \<and> (of_char c :: nat) \<le> 57" by blast
      have "\<forall>c \<in> set ds. \<not> isSpace c \<and> c \<noteq> CHR '':'' \<and> c \<noteq> CHR 0x0D" using ds(3) digit_chars by simp
      then show ?thesis using ds(1,2) by simp
    qed simp
  qed
  have i: "indexByte ?s (CHR 0x0A) = Some (Suc (length line))"
    using indexByte_append [of "CHR 0x0A" "line @ [CHR 0x0D]"] ln by (simp add: httpRequest_def)
  have t: "contains (take (Suc (length line)) ?s) '' HTTP/''"
  proof -
    obtain a b where "line = a @ '' HTTP/'' @ b" using ln(5) contains_iff by metis
    then have l: "line @ [CHR 0x0D] = a @ '' HTTP/'' @ (b @ [CHR 0x0D])" by simp
    have k: "take (Suc (length line)) ?s = line @ [CHR 0x0D]" by (simp add: httpRequest_def)
    show ?thesis unfolding contains_iff k l by blast
  qed
  let ?v = "host @ port"
  have f5: "length field = 5"
  proof -
    have "length (toLower field) = length ''host:''" using fd by simp
    then show ?thesis by simp
  qed
  have cr: "CHR 0x0D \<notin> set (field @ blank @ ?v)"
  proof -
    have "CHR 0x0D \<notin> set field"
    proof
      assume "CHR 0x0D \<in> set field"
      then have "lowerChar (CHR 0x0D) \<in> set (toLower field)" by (simp add: toLower_def)
      moreover have "lowerChar (CHR 0x0D) \<notin> set ''host:''" by code_simp
      ultimately show False using fd by simp
    qed
    moreover have "CHR 0x0D \<notin> set blank" using bl by auto
    moreover have "CHR 0x0D \<notin> set host" using hc(1) by blast
    moreover have "CHR 0x0D \<notin> set port" using pd
    proof
      assume "\<exists>ds. port = CHR '':'' # ds \<and> ds \<noteq> [] \<and> (\<forall>c \<in> set ds. \<not> isSpace c \<and> c \<noteq> CHR '':'' \<and> c \<noteq> CHR 0x0D)"
      then obtain ds where ds: "port = CHR '':'' # ds" "CHR 0x0D \<notin> set ds" by blast
      show ?thesis unfolding ds(1) using ds(2) by simp
    qed simp
    ultimately show ?thesis by simp
  qed
  have v: "trimSpace (blank @ ?v) = ?v"
  proof (rule trim_blank)
    have "isSpace (CHR '' '')" by code_simp
    then show "\<forall>c \<in> set blank. isSpace c" using bl by blast
    show "\<not> isSpace (last ?v)" using pd
    proof
      assume "port = []"
      then show ?thesis using hc(1,2) last_in_set [of host] by simp
    next
      assume "\<exists>ds. port = CHR '':'' # ds \<and> ds \<noteq> [] \<and> (\<forall>c \<in> set ds. \<not> isSpace c \<and> c \<noteq> CHR '':'' \<and> c \<noteq> CHR 0x0D)"
      then obtain ds where ds: "port = CHR '':'' # ds" "ds \<noteq> []" "\<forall>c \<in> set ds. \<not> isSpace c" by blast
      show ?thesis unfolding ds(1) using ds(2,3) last_in_set [of ds] by simp
    qed
    show "\<not> isSpace (hd ?v)" using hc(1,2) by (cases host) simp_all
  qed (use hc(2) in simp)
  have ch: "CHR '':'' \<notin> set host" using hc(1) by blast
  have p: "(case sn_splitHostPort ?v of (h, _, True) \<Rightarrow> h | _ \<Rightarrow> ?v) = host"
    using pd
  proof
    assume "\<exists>ds. port = CHR '':'' # ds \<and> ds \<noteq> [] \<and> (\<forall>c \<in> set ds. \<not> isSpace c \<and> c \<noteq> CHR '':'' \<and> c \<noteq> CHR 0x0D)"
    then obtain ds where "port = CHR '':'' # ds" "CHR '':'' \<notin> set ds" by blast
    then show ?thesis using split_port [OF ch] by simp
  qed (simp add: split_none [OF ch])
  have hh: "hostHeader (splitCRLF ?s) = Some host"
  proof -
    have "splitCRLF ?s = line # splitCRLF (concat (map (\<lambda>l. l @ crlf) hdrs) @ (field @ blank @ ?v) @ crlf @ ?r)"
      using splitCRLF_line [of line] ln by (simp add: httpRequest_def)
    then have "hostHeader (splitCRLF ?s) = hostHeader (splitCRLF ((field @ blank @ ?v) @ crlf @ ?r))"
      using hostHeader_other [OF ln(1,6)] hostHeader_skips [OF hd, of "(field @ blank @ ?v) @ crlf @ ?r"] by simp
    also have "\<dots> = hostHeader ((field @ blank @ ?v) # splitCRLF ?r)" using splitCRLF_line [OF cr, of ?r] by simp
    also have "\<dots> = Some host" using f5 fd v p hc(2,3) by (simp add: Let_def)
    finally show ?thesis .
  qed
  show "parseHTTPHost (bytes_of_string (httpRequest line hdrs field blank host port) @ rest) = Some host"
  proof -
    have "string_of_bytes (bytes_of_string (httpRequest line hdrs field blank host port) @ rest) = ?s"
      using string_bytes_inverse [of "httpRequest line hdrs field blank host port"] by (simp only: string_of_bytes_def map_append)
    then show ?thesis using i t hh unfolding parseHTTPHost_def Let_def by (simp only:) simp
  qed
  show "parseTLSSNI (bytes_of_string (httpRequest line hdrs field blank host port) @ rest) = Some None"
  proof -
    have "byte_of_char (hd line) \<noteq> 0x16"
    proof
      assume "byte_of_char (hd line) = 0x16"
      then have "hd line = char_of_byte 0x16" by (metis char_byte_inverse)
      moreover have "\<not> isAlpha (char_of_byte 0x16)" by code_simp
      ultimately show False using ln(2) by simp
    qed
    then have "(bytes_of_string (httpRequest line hdrs field blank host port) @ rest) ! 0 \<noteq> 0x16"
      using ln(1) by (cases line) (simp_all add: httpRequest_def bytes_of_string_def)
    then show ?thesis by (simp add: parseTLSSNI_def)
  qed
qed

lemma sniff_first:
  assumes "length m \<le> n" "length m \<le> sniffPeekMax" "m \<noteq> []"
  obtains r where "take (min n sniffPeekMax) (m @ rest) = m @ r"
    "sniff n (m @ rest) = (case parseTLSSNI (m @ r) of
       None \<Rightarrow> None
     | Some (Some host) \<Rightarrow> Some (SniffTLS, host, m @ rest, FailNone)
     | Some None \<Rightarrow>
         (case parseHTTPHost (m @ r) of
            Some host \<Rightarrow> Some (SniffHTTP, host, m @ rest, FailNone)
          | None \<Rightarrow> if isSTUN (m @ r) then Some (SniffSTUN, [], m @ rest, FailNone) else Some (SniffNone, [], m @ rest, FailNoMatch)))"
proof -
  let ?k = "min n sniffPeekMax"
  let ?r = "take (?k - length m) rest"
  have k: "length m \<le> ?k" using assms(1,2) by simp
  have t: "take ?k (m @ rest) = m @ ?r" using k by simp
  have d: "(m @ ?r) @ drop (length (m @ ?r)) (m @ rest) = m @ rest"
    by (simp add: append_eq_conv_conj min_def)
  have ne: "\<not> length (m @ ?r) \<le> 0" using assms(3) by simp
  show thesis by (rule that [of ?r, OF t]) (simp only: sniff_def Let_def t d ne if_False)
qed

text \<open>
  C30: Where the first read returns a whole TLS hello with a server name, after any session identifier,
  cipher suites and extensions, the name is found; where it returns a HTTP request up to its host
  header, after any other headers, the host is found, without its port.  Nothing of the stream is
  consumed.
\<close>

theorem sniff_finds:
  assumes "length rec = 4" "length head = 37" "length sid < 2 ^ 8" "length cs < 2 ^ 16" "length cmp < 2 ^ 8"
    and "\<forall>(t, d) \<in> set pre. t \<noteq> 0 \<and> length d < 2 ^ 16" "isSaneHost host"
    and "length (concat (map ext (pre @ sniExt l host more # post))) < 2 ^ 16"
    and "length (clientHello rec head sid cs cmp (pre @ sniExt l host more # post)) \<le> min n sniffPeekMax"
    and "okRequest line hdrs field blank name port" "length (httpRequest line hdrs field blank name port) \<le> min k sniffPeekMax"
  shows "sniff n (clientHello rec head sid cs cmp (pre @ sniExt l host more # post) @ rest)
      = Some (SniffTLS, host, clientHello rec head sid cs cmp (pre @ sniExt l host more # post) @ rest, FailNone)
    \<and> sniff k (bytes_of_string (httpRequest line hdrs field blank name port) @ body)
      = Some (SniffHTTP, name, bytes_of_string (httpRequest line hdrs field blank name port) @ body, FailNone)"
proof
  let ?m = "clientHello rec head sid cs cmp (pre @ sniExt l host more # post)"
  have m: "length ?m \<le> n" "length ?m \<le> sniffPeekMax" "?m \<noteq> []" using assms(9) by (simp_all add: clientHello_def)
  show "sniff n (?m @ rest) = Some (SniffTLS, host, ?m @ rest, FailNone)"
  proof (rule sniff_first [OF m, of rest])
    fix r
    show "sniff n (?m @ rest) = Some (SniffTLS, host, ?m @ rest, FailNone)"
      if s: "sniff n (?m @ rest) = (case parseTLSSNI (?m @ r) of
       None \<Rightarrow> None
     | Some (Some host) \<Rightarrow> Some (SniffTLS, host, ?m @ rest, FailNone)
     | Some None \<Rightarrow>
         (case parseHTTPHost (?m @ r) of
            Some host \<Rightarrow> Some (SniffHTTP, host, ?m @ rest, FailNone)
          | None \<Rightarrow> if isSTUN (?m @ r) then Some (SniffSTUN, [], ?m @ rest, FailNone) else Some (SniffNone, [], ?m @ rest, FailNoMatch)))"
      unfolding s tls_host [OF assms(1-8)] by simp
  qed
next
  let ?m = "bytes_of_string (httpRequest line hdrs field blank name port)"
  have m: "length ?m \<le> k" "length ?m \<le> sniffPeekMax" "?m \<noteq> []" using assms(11) by (simp_all add: httpRequest_def)
  show "sniff k (?m @ body) = Some (SniffHTTP, name, ?m @ body, FailNone)"
    by (rule sniff_first [OF m, of body]) (simp only: http_host [OF assms(10)] option.case)
qed

lemma example_request: "okRequest ''GET / HTTP/1.1'' [''A: b''] ''Host:'' '' '' ''x.org'' '':80''"
proof -
  have "contains ''GET / HTTP/1.1'' '' HTTP/''" "isAlpha (CHR ''G'')" "toLower ''Host:'' = ''host:''" "isSaneHost ''x.org''" by code_simp+
  then show ?thesis by (simp add: okRequest_def isHostLine_def toLower_def lowerChar_def)
qed

theorem sniff_finds_witness:
  "sniff 4096 (clientHello [3, 1, 0, 0] (replicate 37 0) [] [0x13, 1] [0] [(10, [0]), sniExt 14 ''example.com'' []] @ [7])
     = Some (SniffTLS, ''example.com'', clientHello [3, 1, 0, 0] (replicate 37 0) [] [0x13, 1] [0] [(10, [0]), sniExt 14 ''example.com'' []] @ [7], FailNone)
   \<and> sniff 4096 (bytes_of_string (httpRequest ''GET / HTTP/1.1'' [''A: b''] ''Host:'' '' '' ''x.org'' '':80'') @ [])
     = Some (SniffHTTP, ''x.org'', bytes_of_string (httpRequest ''GET / HTTP/1.1'' [''A: b''] ''Host:'' '' '' ''x.org'' '':80'') @ [], FailNone)"
proof -
  have h: "isSaneHost ''example.com''" by code_simp
  have l: "length (concat (map ext ([(10, [0])] @ sniExt 14 ''example.com'' [] # []))) < 2 ^ 16"
      "length (clientHello [3, 1, 0, 0] (replicate 37 0) [] [0x13, 1] [0] ([(10, [0])] @ sniExt 14 ''example.com'' [] # [])) \<le> min 4096 sniffPeekMax"
    by (simp_all add: ext_def sniExt_def clientHello_def sniffPeekMax_def)
  have q: "length (httpRequest ''GET / HTTP/1.1'' [''A: b''] ''Host:'' '' '' ''x.org'' '':80'') \<le> min 4096 sniffPeekMax"
    by (simp add: httpRequest_def sniffPeekMax_def)
  show ?thesis
    using sniff_finds [OF _ _ _ _ _ _ h l(1) l(2) example_request q, of "[7]" "[]"] by simp
qed


end
