(* ===== verification/Spec2Isabelle.thy ===== *)
theory Spec2Isabelle
  imports RuleSpec LayerStack MeterProps Admit MuxServer MuxClient UdpRelay Dns RuleText KcpLink Socks Group Sniff
begin

text \<open>
  A verification library for ntr, a proxy core written in Go (under \<open>src/\<close>).  The program accepts
  connections, recognises whom they belong to and where they want to go, chooses a way out by rules, counts
  and limits what each credential uses, and carries the bytes.  The library models its deciding and
  encoding parts as executable functions and states what makes each of them correct.

  \<^bold>\<open>Parts and how they meet.\<close>  A protocol server reads a request from a connection (\<open>proto\<close>), the service admits the
  connection (\<open>service/admit.go\<close>, \<open>meter\<close>), looks at its first bytes if the destination is only an address
  (\<open>service/sniff.go\<close>), asks the rule engine for an outbound (\<open>rule\<close>, with the sets of \<open>ruleset\<close> and the addresses of
  \<open>dns\<close>), dials it, possibly through a group (\<open>outbound/group\<close>), and relays.  Several streams may share a
  connection (\<open>muxcool\<close>), and a connection may run over an unreliable network (\<open>transport/mkcp\<close>).

  \<^bold>\<open>Shared theories.\<close>  \<open>Prelude\<close> has the machine types, results with errors and the big-endian integers;
  \<open>GoStrings\<close>, \<open>GoNet\<close> and \<open>GoPrint\<close> the parts of Go's \<open>strings\<close>, \<open>net/netip\<close> and of \<open>addr/socksaddr.go\<close> that the source
  uses; \<open>Alists\<close> facts on association lists; \<open>Wire\<close> reading from a stream and the locale \<open>codec\<close> of a decoder
  that inverts an encoder whatever follows; \<open>ByteBuf\<close> the buffer of \<open>buf/buffer.go\<close> with the locale \<open>byte_sink\<close>;
  \<open>Handshake\<close> requests, destinations on the wire and the locale \<open>proxy_pair\<close> of a client and a server that
  understand each other; \<open>Dialogue\<close> handshakes in which both sides read and write in turn.

  \<^bold>\<open>Routing.\<close>  \<open>RuleEngine\<close> models \<open>rule/engine.go\<close>: \<open>Compile\<close> builds the indexes of an \<open>Engine\<close>, \<open>RouteConnIPs\<close> consults them.
  \<open>RuleSpec\<close> has the naive evaluation of the rules in their order, an interface of ordinal indexes with its
  interpretations, and shows that the indexed engine returns the first matching rule and which tables compile.
  \<open>LayerStack\<close> models \<open>core/registry\<close>, \<open>core/compile\<close> and \<open>service/stack.go\<close>: \<open>Order\<close> returns exactly the rearrangement of
  layers that fits, and a built stack has all and only the layers asked for.

  \<^bold>\<open>Metering and admission.\<close>  \<open>Meter\<close> models \<open>meter/meter.go\<close> and \<open>limits.go\<close>: a \<open>Registry\<close> of cells, the connections open in them,
  \<open>Open\<close> and its closure \<open>closeConn\<close>, the byte counters, \<open>Disable\<close>, the reapers.  \<open>MeterInv\<close> has the invariant that
  ties each counter to the open connections and its preservation, \<open>MeterRuns\<close> runs of operations: limits hold, bytes
  are conserved, nothing is killed twice, a disabled credential stays shut.  \<open>MeterProps\<close> has witnesses, the
  interleavings of \<open>Disable\<close> with an admission, and the reload that lets a user exceed a limit.  \<open>Admit\<close> models
  \<open>meter/memguard.go\<close> and \<open>service/admit.go\<close>: the gates count exactly the admitted connections, and a refusal keeps
  nothing.

  \<^bold>\<open>Multiplexing.\<close>  \<open>MuxFrame\<close> is \<open>muxcool/frame.go\<close>, \<open>BufPipe\<close> \<open>pipe.go\<close>, \<open>MuxServer\<close> \<open>server.go\<close>, \<open>MuxClient\<close> \<open>client.go\<close> and \<open>udp.go\<close>.  Streams come
  back from the frames they were cut into; the pipe is a bounded queue under every interleaving of its ends; the
  tables of sessions stay within their limits and streams in order, along every run of the handlers; control
  frames defeat the limit of the server.

  \<^bold>\<open>Protocols.\<close>  \<open>Vless\<close>, \<open>Trojan\<close> (with SHA-224 in \<open>Sha224\<close>) and \<open>Socks\<close> model the handshakes and datagrams of \<open>proto/vless\<close>,
  \<open>proto/trojan\<close> and \<open>proto/socks\<close>; \<open>UdpRelay\<close> the loop of \<open>core/relay\<close> over any two packet connections.  What a client
  writes, its server reads, with the user, the destination and the payload behind it; SOCKS handshakes end alike in
  every schedule, and version 4 escapes the authentication that version 5 cannot.

  \<^bold>\<open>Names.\<close>  \<open>FakeIP\<close> models \<open>dns/fakeip.go\<close>, \<open>Dns\<close> the cache, the hosts, the policies and the resolver of \<open>dns\<close>: how long a fake
  address leads to its name, to which servers a query goes, and where a cached answer comes from.  \<open>Sniff\<close> models
  \<open>service/sniff.go\<close>: no input is read out of range, no byte is lost, names in whole hellos and requests are found.

  \<^bold>\<open>Rule sets.\<close>  \<open>Succinct\<close> has the bit operations of \<open>ruleset/succinct.go\<close>, \<open>IpRanges\<close> address ranges and the \<open>.mrs\<close> container, \<open>MrsSet\<close> the
  domain walk of \<open>.mrs\<close> files, \<open>SingSet\<close> that of \<open>.srs\<close> files, \<open>Srs\<close> the \<open>.srs\<close> reader, \<open>RuleText\<close> text lists and providers.  Files read
  back answer membership; the walks end and stay in their slices; one case in which the \<open>.mrs\<close> walk misses a
  wildcard is shown.

  \<^bold>\<open>Transport and groups.\<close>  \<open>KcpSegment\<close>, \<open>KcpConn\<close> and \<open>KcpLink\<close> model \<open>transport/mkcp/internal/mkcpcore\<close>: packets are read as written, and over a
  network that loses, repeats and reorders at will, what arrives is a beginning of what was sent.  \<open>Group\<close> models
  \<open>outbound/group/group.go\<close>: what a round of probes leaves chosen, and how balancing distributes.

  \<^bold>\<open>Conventions.\<close>  An error is the left value of a result, a panic or an index out of range \<^const>\<open>None\<close>.  Integers whose wrap-around
  matters are words of their width.  Goroutines are operations of a step relation or arbitrary lists of operations.
  What comes from outside \<open>src\<close> is an argument: ciphers (locale \<open>aead\<close>), decompression, regular expressions, the
  answers of name servers, clocks, random numbers, the operating system's sockets, URL parsing.

  \<^bold>\<open>Bounds and fuel.\<close>  The relay loop runs a number of rounds given with it, and one more than there are datagrams is enough.
  \<open>allocID\<close> may search forever, and it is shown exactly when it returns.  A dialogue is driven by fuel in proofs only; its
  property speaks of all runs.  An mKCP connection numbers 2^32 pieces and a balancing group 2^63 choices; the
  properties are for fewer.  Buffers have the 32 KiB and the 512 bytes of head room of the source.

  \<^bold>\<open>Not modelled.\<close>  The reading of configuration files and options, the command line, accept loops and timers, token buckets and
  sampled rates (floating point), real name servers, geographic databases, and the devices and routes of the
  operating system.  The protocols, outbounds and transports that wrap packages outside \<open>src\<close> (QUIC, HTTP, TLS, SSH,
  WireGuard, shadowsocks, vmess), and those whose records depend on ciphers and padding drawn at random throughout
  (\<open>proto/snell\<close>, \<open>proto/mtproto\<close>, \<open>internal/vlessenc\<close>, \<open>transport/tlsmirror\<close>), are left out, as are the reverse tunnels, which keep
  pools of the modelled workers by timers.
\<close>

end
